theory Spec2Isabelle
  imports Main "HOL-Library.Word" "HOL-Library.Monad_Syntax"
begin

unbundle bit_operations_syntax

section \<open>The default comparator\<close>

text \<open>
  \<^verbatim>\<open>default_compare<K>::operator()\<close> of \<^verbatim>\<open>main.cpp\<close>: for a signed or floating-point key
  type it returns \<^verbatim>\<open>a - b\<close> converted to \<^verbatim>\<open>int\<close>, otherwise an explicit three-way
  comparison. \<^verbatim>\<open>int\<close> is 32 bits wide. The subtraction of two \<^verbatim>\<open>int\<close>s is modelled with
  the wrap-around of the hardware; for \<^verbatim>\<open>long long\<close> keys the 64-bit difference is exact
  or wraps, and the conversion to \<^verbatim>\<open>int\<close> keeps the low 32 bits; keys of a type narrower
  than \<^verbatim>\<open>int\<close> are promoted to \<^verbatim>\<open>int\<close> before the subtraction.
\<close>

definition default_compare_int :: "32 word \<Rightarrow> 32 word \<Rightarrow> int" where
  "default_compare_int a b = sint (a - b)"

definition default_compare_long :: "64 word \<Rightarrow> 64 word \<Rightarrow> int" where
  "default_compare_long a b = sint (ucast (a - b) :: 32 word)"

definition default_compare_short :: "16 word \<Rightarrow> 16 word \<Rightarrow> int" where
  "default_compare_short a b = sint ((scast a :: 32 word) - scast b)"

definition default_compare_unsigned :: "32 word \<Rightarrow> 32 word \<Rightarrow> int" where
  "default_compare_unsigned a b = (if a < b then - 1 else (if a > b then 1 else 0))"

section \<open>Nodes, iterators and the memory\<close>

text \<open>
  A node lives in the heap at an address; \<^verbatim>\<open>nullptr\<close> is \<open>None\<close>. The arrays of a node
  have a fixed length (\<open>2B - 1\<close> keys and values, \<open>2B\<close> children in an internal node, none
  in a leaf); a slot that was never written holds \<open>None\<close>. \<^verbatim>\<open>usage\<close> and
  \<^verbatim>\<open>parent_idx\<close> are \<^verbatim>\<open>uint16_t\<close>: every store into them is taken modulo \<open>65536\<close>.
\<close>

type_synonym addr = nat

record ('k, 'v) BTreeNode =
  IsInternal :: bool
  keys :: "'k option list"
  vals :: "'v option list"
  children :: "addr option list"
  parent :: "addr option"
  usage :: nat
  parent_idx :: nat

record iterator =
  idx :: nat
  node :: "addr option"

text \<open>
  The state of the program: the heap, the allocator's next fresh address, and the
  \<^verbatim>\<open>root\<close> field of the one \<^verbatim>\<open>BTree\<close> object.
\<close>

record ('k, 'v) state =
  heap :: "addr \<Rightarrow> ('k, 'v) BTreeNode option"
  next_addr :: addr
  root :: "addr option"

definition FOUND :: nat where "FOUND = push_bit 16 1"
definition FOUND_MASK :: nat where "FOUND_MASK = FOUND - 1"
definition GO_DOWN :: nat where "GO_DOWN = push_bit 24 1"
definition GO_DOWN_MASK :: nat where "GO_DOWN_MASK = GO_DOWN - 1"

definition u16 :: "nat \<Rightarrow> nat" where
  "u16 x = x mod 65536"

subsection \<open>Arrays\<close>

text \<open>Reading and writing one slot; out of range, or reading a slot never written, is \<open>None\<close>.\<close>

definition rd :: "'a option list \<Rightarrow> nat \<Rightarrow> 'a option" where
  "rd xs i = (if i < length xs then xs ! i else None)"

definition wr :: "'a option list \<Rightarrow> nat \<Rightarrow> 'a \<Rightarrow> 'a option list option" where
  "wr xs i v = (if i < length xs then Some (xs[i := Some v]) else None)"

text \<open>
  \<^verbatim>\<open>std::move_backward(a + i, a + j, a + d)\<close> inside one array: the slots \<open>[i, j)\<close> end
  up in \<open>[d - (j - i), d)\<close>.
\<close>

definition move_backward :: "'a list \<Rightarrow> nat \<Rightarrow> nat \<Rightarrow> nat \<Rightarrow> 'a list option" where
  "move_backward xs i j d =
     (if i \<le> j \<and> j \<le> length xs \<and> d \<le> length xs \<and> j - i \<le> d
      then Some (take (d - (j - i)) xs @ take (j - i) (drop i xs) @ drop d xs)
      else None)"

text \<open>\<^verbatim>\<open>std::memmove(a + dst, a + src, n * sizeof(NodePtr))\<close> inside one array.\<close>

definition memmove :: "'a list \<Rightarrow> nat \<Rightarrow> nat \<Rightarrow> nat \<Rightarrow> 'a list option" where
  "memmove xs dst src n =
     (if src + n \<le> length xs \<and> dst + n \<le> length xs
      then Some (take dst xs @ take n (drop src xs) @ drop (dst + n) xs)
      else None)"

text \<open>
  \<^verbatim>\<open>std::uninitialized_move(src + i, src + j, dst)\<close> and
  \<^verbatim>\<open>std::memcpy(dst, src + i, (j - i) * sizeof(NodePtr))\<close>: the slots \<open>[i, j)\<close> of \<open>src\<close>
  go to the front of another array \<open>dst\<close>.
\<close>

definition copy_range :: "'a list \<Rightarrow> nat \<Rightarrow> nat \<Rightarrow> 'a list \<Rightarrow> 'a list option" where
  "copy_range src i j dst =
     (if i \<le> j \<and> j \<le> length src \<and> j - i \<le> length dst
      then Some (take (j - i) (drop i src) @ drop (j - i) dst)
      else None)"

subsection \<open>Allocation, stores through a pointer, destruction\<close>

definition blank :: "nat \<Rightarrow> bool \<Rightarrow> ('k, 'v) BTreeNode" where
  "blank B internal =
     \<lparr> IsInternal = internal,
       keys = replicate (2 * B - 1) None,
       vals = replicate (2 * B - 1) None,
       children = replicate (if internal then 2 * B else 0) None,
       parent = None, usage = 0, parent_idx = 0 \<rparr>"

definition new_node :: "nat \<Rightarrow> bool \<Rightarrow> ('k, 'v) state \<Rightarrow> addr \<times> ('k, 'v) state" where
  "new_node B internal st =
     (next_addr st,
      st\<lparr> heap := (heap st)(next_addr st \<mapsto> blank B internal),
          next_addr := next_addr st + 1 \<rparr>)"

definition upd :: "('k, 'v) state \<Rightarrow> addr \<Rightarrow> (('k, 'v) BTreeNode \<Rightarrow> ('k, 'v) BTreeNode)
    \<Rightarrow> ('k, 'v) state option" where
  "upd st a f =
     (case heap st a of None \<Rightarrow> None
      | Some n \<Rightarrow> Some (st\<lparr> heap := (heap st)(a \<mapsto> f n) \<rparr>))"

text \<open>
  \<^verbatim>\<open>delete p\<close>: the destructor \<^verbatim>\<open>~BTreeNode\<close> deletes the children \<open>0..usage\<close> of an
  internal node whose \<^verbatim>\<open>usage\<close> is not zero, then the node's memory is released.
  \<open>Inl a\<close> is \<^verbatim>\<open>delete a\<close>; \<open>Inr (a, i)\<close> is the destructor's loop of node \<open>a\<close> at index
  \<open>i\<close>.
\<close>

partial_function (option) destroy ::
  "('k, 'v) state \<Rightarrow> addr + addr \<times> nat \<Rightarrow> ('k, 'v) state option" where
  "destroy st x =
     (case x of
        Inl a \<Rightarrow>
          (case heap st a of None \<Rightarrow> None
           | Some n \<Rightarrow>
               do { st1 \<leftarrow> (if IsInternal n \<and> usage n \<noteq> 0 then destroy st (Inr (a, 0))
                           else Some st);
                    Some (st1\<lparr> heap := (heap st1)(a := None) \<rparr>) })
      | Inr (a, i) \<Rightarrow>
          (case heap st a of None \<Rightarrow> None
           | Some n \<Rightarrow>
               if i \<le> usage n
               then do { c \<leftarrow> rd (children n) i;
                         st1 \<leftarrow> destroy st (Inl c);
                         destroy st1 (Inr (a, i + 1)) }
               else Some st))"

declare destroy.simps [code]

definition delete :: "('k, 'v) state \<Rightarrow> addr \<Rightarrow> ('k, 'v) state option" where
  "delete st a = destroy st (Inl a)"

section \<open>Node operations\<close>

subsection \<open>\<^verbatim>\<open>linear_search\<close> and \<^verbatim>\<open>member\<close>\<close>

function linear_search_from ::
  "('k \<Rightarrow> 'k \<Rightarrow> int) \<Rightarrow> ('k, 'v) BTreeNode \<Rightarrow> 'k \<Rightarrow> nat \<Rightarrow> nat option" where
  "linear_search_from cmp n key i =
     (if i < usage n
      then (case rd (keys n) i of None \<Rightarrow> None
            | Some k \<Rightarrow>
                let res = cmp key k in
                if res < 0 then Some (GO_DOWN OR i)
                else if res = 0 then Some (FOUND OR i)
                else linear_search_from cmp n key (i + 1))
      else Some (GO_DOWN OR usage n))"
  by pat_completeness auto
termination
  by (relation "measure (\<lambda>(cmp, n, key, i). usage n - i)") auto

definition linear_search ::
  "nat \<Rightarrow> ('k \<Rightarrow> 'k \<Rightarrow> int) \<Rightarrow> ('k, 'v) BTreeNode \<Rightarrow> 'k \<Rightarrow> nat option" where
  "linear_search B cmp n key =
     (if usage n < 2 * B then linear_search_from cmp n key 0 else None)"

partial_function (option) member_node ::
  "nat \<Rightarrow> ('k \<Rightarrow> 'k \<Rightarrow> int) \<Rightarrow> ('k, 'v) state \<Rightarrow> addr \<Rightarrow> 'k \<Rightarrow> bool option" where
  "member_node B cmp st a key =
     (case heap st a of None \<Rightarrow> None
      | Some n \<Rightarrow>
          if usage n < 2 * B
          then (case linear_search B cmp n key of None \<Rightarrow> None
                | Some flag \<Rightarrow>
                    if flag AND FOUND \<noteq> 0 then Some True
                    else if IsInternal n
                    then (case rd (children n) (flag AND GO_DOWN_MASK) of None \<Rightarrow> None
                          | Some c \<Rightarrow> member_node B cmp st c key)
                    else Some False)
          else None)"

declare member_node.simps [code]

subsection \<open>\<^verbatim>\<open>split\<close> and \<^verbatim>\<open>singleton\<close>\<close>

text \<open>
  The loop of \<^verbatim>\<open>split\<close> over the children moved to the two halves: child \<open>i\<close> of \<open>l\<close>
  and child \<open>i\<close> of \<open>r\<close> get their parent pointer and their index stamped.
\<close>

fun restamp_halves ::
  "('k, 'v) state \<Rightarrow> addr \<Rightarrow> addr \<Rightarrow> nat list \<Rightarrow> ('k, 'v) state option" where
  "restamp_halves st l r [] = Some st"
| "restamp_halves st l r (i # is) =
     do { ln \<leftarrow> heap st l;
          cl \<leftarrow> rd (children ln) i;
          st1 \<leftarrow> upd st cl (\<lambda>n. n\<lparr> parent := Some l \<rparr>);
          ln \<leftarrow> heap st1 l;
          cl \<leftarrow> rd (children ln) i;
          st2 \<leftarrow> upd st1 cl (\<lambda>n. n\<lparr> parent_idx := u16 i \<rparr>);
          rn \<leftarrow> heap st2 r;
          cr \<leftarrow> rd (children rn) i;
          st3 \<leftarrow> upd st2 cr (\<lambda>n. n\<lparr> parent := Some r \<rparr>);
          rn \<leftarrow> heap st3 r;
          cr \<leftarrow> rd (children rn) i;
          st4 \<leftarrow> upd st3 cr (\<lambda>n. n\<lparr> parent_idx := u16 i \<rparr>);
          restamp_halves st4 l r is }"

text \<open>The result of \<^verbatim>\<open>split\<close>: the state, \<^verbatim>\<open>l\<close>, \<^verbatim>\<open>r\<close>, \<^verbatim>\<open>key\<close> and \<^verbatim>\<open>value\<close>.\<close>

definition split_node ::
  "nat \<Rightarrow> ('k, 'v) state \<Rightarrow> addr \<Rightarrow> (('k, 'v) state \<times> addr \<times> addr \<times> 'k \<times> 'v) option" where
  "split_node B st a =
     do { n \<leftarrow> heap st a;
          if usage n = 2 * B - 1
          then do {
            let (l, st) = new_node B (IsInternal n) st;
            let (r, st) = new_node B (IsInternal n) st;
            st \<leftarrow> upd st r (\<lambda>m. m\<lparr> usage := u16 (B - 1) \<rparr>);
            st \<leftarrow> upd st l (\<lambda>m. m\<lparr> usage := u16 (B - 1) \<rparr>);
            st \<leftarrow> upd st r (\<lambda>m. m\<lparr> parent := parent n \<rparr>);
            st \<leftarrow> upd st l (\<lambda>m. m\<lparr> parent := parent n \<rparr>);
            ln \<leftarrow> heap st l;
            rn \<leftarrow> heap st r;
            lk \<leftarrow> copy_range (keys n) 0 (B - 1) (keys ln);
            rk \<leftarrow> copy_range (keys n) B (usage n) (keys rn);
            lv \<leftarrow> copy_range (vals n) 0 (B - 1) (vals ln);
            rv \<leftarrow> copy_range (vals n) B (usage n) (vals rn);
            st \<leftarrow> upd st l (\<lambda>m. m\<lparr> keys := lk, vals := lv \<rparr>);
            st \<leftarrow> upd st r (\<lambda>m. m\<lparr> keys := rk, vals := rv \<rparr>);
            st \<leftarrow> upd st a (\<lambda>m. m\<lparr> usage := 0 \<rparr>);
            st \<leftarrow> (if IsInternal n
                   then do {
                     ln \<leftarrow> heap st l;
                     rn \<leftarrow> heap st r;
                     lc \<leftarrow> copy_range (children n) 0 B (children ln);
                     rc \<leftarrow> copy_range (children n) B (2 * B) (children rn);
                     st \<leftarrow> upd st l (\<lambda>m. m\<lparr> children := lc \<rparr>);
                     st \<leftarrow> upd st r (\<lambda>m. m\<lparr> children := rc \<rparr>);
                     restamp_halves st l r [0..<B] }
                   else Some st);
            key \<leftarrow> rd (keys n) (B - 1);
            value \<leftarrow> rd (vals n) (B - 1);
            Some (st, l, r, key, value) }
          else None }"

definition singleton ::
  "nat \<Rightarrow> ('k, 'v) state \<Rightarrow> addr \<Rightarrow> addr \<Rightarrow> 'k \<Rightarrow> 'v \<Rightarrow> (('k, 'v) state \<times> addr) option" where
  "singleton B st l r key value =
     do { let (node, st) = new_node B True st;
          st \<leftarrow> upd st node (\<lambda>m. m\<lparr> usage := 1 \<rparr>);
          nn \<leftarrow> heap st node;
          vs \<leftarrow> wr (vals nn) 0 value;
          st \<leftarrow> upd st node (\<lambda>m. m\<lparr> vals := vs \<rparr>);
          nn \<leftarrow> heap st node;
          ks \<leftarrow> wr (keys nn) 0 key;
          st \<leftarrow> upd st node (\<lambda>m. m\<lparr> keys := ks \<rparr>);
          nn \<leftarrow> heap st node;
          cs \<leftarrow> wr (children nn) 0 l;
          st \<leftarrow> upd st node (\<lambda>m. m\<lparr> children := cs \<rparr>);
          st \<leftarrow> upd st l (\<lambda>m. m\<lparr> parent_idx := 0 \<rparr>);
          st \<leftarrow> upd st l (\<lambda>m. m\<lparr> parent := Some node \<rparr>);
          nn \<leftarrow> heap st node;
          cs \<leftarrow> wr (children nn) 1 r;
          st \<leftarrow> upd st node (\<lambda>m. m\<lparr> children := cs \<rparr>);
          st \<leftarrow> upd st r (\<lambda>m. m\<lparr> parent_idx := 1 \<rparr>);
          st \<leftarrow> upd st r (\<lambda>m. m\<lparr> parent := Some node \<rparr>);
          Some (st, node) }"

subsection \<open>\<^verbatim>\<open>adopt\<close> and \<^verbatim>\<open>insert\<close>\<close>

text \<open>The loop of \<^verbatim>\<open>adopt\<close> that stamps the index of the children \<open>position..usage + 1\<close>.\<close>

function restamp_from :: "('k, 'v) state \<Rightarrow> addr \<Rightarrow> nat \<Rightarrow> ('k, 'v) state option" where
  "restamp_from st a i =
     (case heap st a of None \<Rightarrow> None
      | Some n \<Rightarrow>
          if i < usage n + 2
          then (case rd (children n) i of None \<Rightarrow> None
                | Some c \<Rightarrow>
                    (case upd st c (\<lambda>m. m\<lparr> parent_idx := u16 i \<rparr>) of None \<Rightarrow> None
                     | Some st1 \<Rightarrow> restamp_from st1 a (i + 1)))
          else Some st)"
  by pat_completeness auto
termination
  by (relation "measure (\<lambda>(st, a, i). (case heap st a of None \<Rightarrow> 0 | Some n \<Rightarrow> usage n + 2 - i))")
     (auto simp: upd_def split: option.splits if_splits)

partial_function (option) adopt ::
  "nat \<Rightarrow> ('k, 'v) state \<Rightarrow> addr \<Rightarrow> addr \<Rightarrow> addr \<Rightarrow> 'k \<Rightarrow> 'v \<Rightarrow> nat \<Rightarrow> ('k, 'v) state option" where
  "adopt B st a l r key value position =
     do { n \<leftarrow> heap st a;
          vs \<leftarrow> move_backward (vals n) position (usage n) (usage n + 1);
          ks \<leftarrow> move_backward (keys n) position (usage n) (usage n + 1);
          cs \<leftarrow> (if position \<le> usage n + 1
                 then memmove (children n) (position + 1) position (usage n + 1 - position)
                 else None);
          st \<leftarrow> upd st a (\<lambda>m. m\<lparr> vals := vs, keys := ks, children := cs \<rparr>);
          n \<leftarrow> heap st a;
          stale \<leftarrow> rd (children n) position;
          st \<leftarrow> delete st stale;
          n \<leftarrow> heap st a;
          cs \<leftarrow> wr (children n) position l;
          st \<leftarrow> upd st a (\<lambda>m. m\<lparr> children := cs \<rparr>);
          st \<leftarrow> upd st l (\<lambda>m. m\<lparr> parent := Some a \<rparr>);
          n \<leftarrow> heap st a;
          cs \<leftarrow> wr (children n) (position + 1) r;
          st \<leftarrow> upd st a (\<lambda>m. m\<lparr> children := cs \<rparr>);
          st \<leftarrow> upd st r (\<lambda>m. m\<lparr> parent := Some a \<rparr>);
          st \<leftarrow> restamp_from st a position;
          n \<leftarrow> heap st a;
          vs \<leftarrow> wr (vals n) position value;
          ks \<leftarrow> wr (keys n) position key;
          st \<leftarrow> upd st a (\<lambda>m. m\<lparr> vals := vs, keys := ks, usage := u16 (usage m + 1) \<rparr>);
          n \<leftarrow> heap st a;
          if usage n = 2 * B - 1
          then do {
            (st, l', r', key', value') \<leftarrow> split_node B st a;
            n \<leftarrow> heap st a;
            (case parent n of
               Some p \<Rightarrow> adopt B st p l' r' key' value' (parent_idx n)
             | None \<Rightarrow>
                 do { st \<leftarrow> (case root st of None \<Rightarrow> Some st | Some rt \<Rightarrow> delete st rt);
                      (st, s) \<leftarrow> singleton B st l' r' key' value';
                      Some (st\<lparr> root := Some s \<rparr>) }) }
          else Some st }"

declare adopt.simps [code]

text \<open>
  \<^verbatim>\<open>key_at\<close> and \<^verbatim>\<open>value_at\<close>: the references \<^verbatim>\<open>operator*\<close> hands out.
\<close>

definition key_at :: "('k, 'v) state \<Rightarrow> addr \<Rightarrow> nat \<Rightarrow> 'k option" where
  "key_at st a i = do { n \<leftarrow> heap st a; rd (keys n) i }"

definition value_at :: "('k, 'v) state \<Rightarrow> addr \<Rightarrow> nat \<Rightarrow> 'v option" where
  "value_at st a i = do { n \<leftarrow> heap st a; rd (vals n) i }"

text \<open>
  \<^verbatim>\<open>insert\<close> takes its arguments by reference (\<^verbatim>\<open>const K &key, const V &value\<close>). A
  reference denotes an object outside the tree (\<open>Temp\<close>), whose content no store of the
  tree changes, or slot \<open>i\<close> of the node at \<open>a\<close> (\<open>Slot a i\<close>): a key reference a slot of
  \<^verbatim>\<open>keys\<close>, a value reference a slot of \<^verbatim>\<open>values\<close>, as \<^verbatim>\<open>operator*\<close> hands them out. The
  argument is read where the code reads it, in the state of that moment.
\<close>

datatype 'a ref = Temp 'a | Slot addr nat

definition key_ref :: "('k, 'v) state \<Rightarrow> 'k ref \<Rightarrow> 'k option" where
  "key_ref st r = (case r of Temp k \<Rightarrow> Some k | Slot a i \<Rightarrow> key_at st a i)"

definition val_ref :: "('k, 'v) state \<Rightarrow> 'v ref \<Rightarrow> 'v option" where
  "val_ref st r = (case r of Temp v \<Rightarrow> Some v | Slot a i \<Rightarrow> value_at st a i)"

partial_function (option) insert_node ::
  "nat \<Rightarrow> ('k \<Rightarrow> 'k \<Rightarrow> int) \<Rightarrow> ('k, 'v) state \<Rightarrow> addr \<Rightarrow> 'k ref \<Rightarrow> 'v ref
     \<Rightarrow> (('k, 'v) state \<times> 'v option) option" where
  "insert_node B cmp st a key value =
     do { n \<leftarrow> heap st a;
          k \<leftarrow> key_ref st key;
          res \<leftarrow> linear_search B cmp n k;
          if res AND FOUND \<noteq> 0
          then do {
            original \<leftarrow> rd (vals n) (res AND FOUND_MASK);
            v \<leftarrow> val_ref st value;
            vs \<leftarrow> wr (vals n) (res AND FOUND_MASK) v;
            st \<leftarrow> upd st a (\<lambda>m. m\<lparr> vals := vs \<rparr>);
            Some (st, Some original) }
          else do {
            let position = res AND GO_DOWN_MASK;
            if IsInternal n
            then do { c \<leftarrow> rd (children n) position;
                      insert_node B cmp st c key value }
            else do {
              vs \<leftarrow> move_backward (vals n) position (usage n) (usage n + 1);
              st \<leftarrow> upd st a (\<lambda>m. m\<lparr> vals := vs \<rparr>);
              n \<leftarrow> heap st a;
              ks \<leftarrow> move_backward (keys n) position (usage n) (usage n + 1);
              st \<leftarrow> upd st a (\<lambda>m. m\<lparr> keys := ks \<rparr>);
              v \<leftarrow> val_ref st value;
              n \<leftarrow> heap st a;
              vs \<leftarrow> wr (vals n) position v;
              st \<leftarrow> upd st a (\<lambda>m. m\<lparr> vals := vs \<rparr>);
              k \<leftarrow> key_ref st key;
              n \<leftarrow> heap st a;
              ks \<leftarrow> wr (keys n) position k;
              st \<leftarrow> upd st a (\<lambda>m. m\<lparr> keys := ks \<rparr>);
              st \<leftarrow> upd st a (\<lambda>m. m\<lparr> usage := u16 (usage m + 1) \<rparr>);
              n \<leftarrow> heap st a;
              if usage n = 2 * B - 1
              then do {
                (st, l, r, key', value') \<leftarrow> split_node B st a;
                n \<leftarrow> heap st a;
                st \<leftarrow> (case parent n of
                         Some p \<Rightarrow> adopt B st p l r key' value' (parent_idx n)
                       | None \<Rightarrow>
                           do { st \<leftarrow> (case root st of None \<Rightarrow> Some st
                                       | Some rt \<Rightarrow> delete st rt);
                                (st, s) \<leftarrow> singleton B st l r key' value';
                                Some (st\<lparr> root := Some s \<rparr>) });
                Some (st, None) }
              else Some (st, None) } } }"

declare insert_node.simps [code]

subsection \<open>Positions: \<^verbatim>\<open>min\<close>, \<^verbatim>\<open>max\<close>, \<^verbatim>\<open>successor\<close>, \<^verbatim>\<open>predecessor\<close>\<close>

text \<open>\<^verbatim>\<open>uint16_t(x - 1u)\<close>: the subtraction is done in 32-bit unsigned arithmetic.\<close>

definition minus1u :: "nat \<Rightarrow> nat" where
  "minus1u x = u16 ((x + 4294967295) mod 4294967296)"

partial_function (option) min_node :: "('k, 'v) state \<Rightarrow> addr \<Rightarrow> iterator option" where
  "min_node st a =
     (case heap st a of None \<Rightarrow> None
      | Some n \<Rightarrow>
          if IsInternal n
          then (case rd (children n) 0 of None \<Rightarrow> None | Some c \<Rightarrow> min_node st c)
          else Some \<lparr> idx = 0, node = Some a \<rparr>)"

declare min_node.simps [code]

partial_function (option) max_node :: "('k, 'v) state \<Rightarrow> addr \<Rightarrow> iterator option" where
  "max_node st a =
     (case heap st a of None \<Rightarrow> None
      | Some n \<Rightarrow>
          if IsInternal n
          then (case rd (children n) (usage n) of None \<Rightarrow> None | Some c \<Rightarrow> max_node st c)
          else Some \<lparr> idx = minus1u (usage n), node = Some a \<rparr>)"

declare max_node.simps [code]

text \<open>The two climbing loops; each returns the node at which the loop stops.\<close>

partial_function (option) climb_pred :: "('k, 'v) state \<Rightarrow> addr \<Rightarrow> addr option" where
  "climb_pred st a =
     (case heap st a of None \<Rightarrow> None
      | Some n \<Rightarrow>
          (case parent n of
             None \<Rightarrow> Some a
           | Some p \<Rightarrow> if parent_idx n = 0 then climb_pred st p else Some a))"

declare climb_pred.simps [code]

partial_function (option) climb_succ :: "('k, 'v) state \<Rightarrow> addr \<Rightarrow> addr option" where
  "climb_succ st a =
     (case heap st a of None \<Rightarrow> None
      | Some n \<Rightarrow>
          (case parent n of
             None \<Rightarrow> Some a
           | Some p \<Rightarrow>
               (case heap st p of None \<Rightarrow> None
                | Some pn \<Rightarrow> if parent_idx n = usage pn then climb_succ st p else Some a)))"

declare climb_succ.simps [code]

definition predecessor :: "('k, 'v) state \<Rightarrow> addr \<Rightarrow> nat \<Rightarrow> iterator option" where
  "predecessor st a i =
     do { n \<leftarrow> heap st a;
          if IsInternal n
          then do { c \<leftarrow> rd (children n) i; max_node st c }
          else if i \<noteq> 0
          then Some \<lparr> idx = minus1u i, node = Some a \<rparr>
          else do {
            top \<leftarrow> climb_pred st a;
            tn \<leftarrow> heap st top;
            (case parent tn of
               Some p \<Rightarrow> Some \<lparr> idx = minus1u (parent_idx tn), node = Some p \<rparr>
             | None \<Rightarrow> Some \<lparr> idx = 0, node = None \<rparr>) } }"

definition successor :: "('k, 'v) state \<Rightarrow> addr \<Rightarrow> nat \<Rightarrow> iterator option" where
  "successor st a i =
     do { n \<leftarrow> heap st a;
          if IsInternal n
          then do { c \<leftarrow> rd (children n) (i + 1); min_node st c }
          else if int i < int (usage n) - 1
          then Some \<lparr> idx = u16 (i + 1), node = Some a \<rparr>
          else do {
            top \<leftarrow> climb_succ st a;
            tn \<leftarrow> heap st top;
            (case parent tn of
               Some p \<Rightarrow> Some \<lparr> idx = parent_idx tn, node = Some p \<rparr>
             | None \<Rightarrow> Some \<lparr> idx = 0, node = None \<rparr>) } }"

section \<open>Iterators and the tree\<close>

definition iter_eq :: "iterator \<Rightarrow> iterator \<Rightarrow> bool" where
  "iter_eq this that = (idx this = idx that \<and> node this = node that)"

definition iter_neq :: "iterator \<Rightarrow> iterator \<Rightarrow> bool" where
  "iter_neq this that = (idx this \<noteq> idx that \<or> node this \<noteq> node that)"

text \<open>Prefix \<^verbatim>\<open>operator++\<close> and \<^verbatim>\<open>operator*\<close>; both dereference \<^verbatim>\<open>node\<close>.\<close>

definition iter_incr :: "('k, 'v) state \<Rightarrow> iterator \<Rightarrow> iterator option" where
  "iter_incr st it = do { a \<leftarrow> node it; successor st a (idx it) }"

definition iter_deref :: "('k, 'v) state \<Rightarrow> iterator \<Rightarrow> ('k \<times> 'v) option" where
  "iter_deref st it =
     do { a \<leftarrow> node it; k \<leftarrow> key_at st a (idx it); v \<leftarrow> value_at st a (idx it); Some (k, v) }"

definition empty_tree :: "('k, 'v) state" where
  "empty_tree = \<lparr> heap = (\<lambda>a. None), next_addr = 0, root = None \<rparr>"

definition tree_insert ::
  "nat \<Rightarrow> ('k \<Rightarrow> 'k \<Rightarrow> int) \<Rightarrow> ('k, 'v) state \<Rightarrow> 'k ref \<Rightarrow> 'v ref
     \<Rightarrow> (('k, 'v) state \<times> 'v option) option" where
  "tree_insert B cmp st key value =
     (case root st of
        None \<Rightarrow>
          do { let (node, st) = new_node B False st;
               st \<leftarrow> upd st node (\<lambda>m. m\<lparr> usage := 1 \<rparr>);
               k \<leftarrow> key_ref st key;
               n \<leftarrow> heap st node;
               ks \<leftarrow> wr (keys n) 0 k;
               st \<leftarrow> upd st node (\<lambda>m. m\<lparr> keys := ks \<rparr>);
               v \<leftarrow> val_ref st value;
               n \<leftarrow> heap st node;
               vs \<leftarrow> wr (vals n) 0 v;
               st \<leftarrow> upd st node (\<lambda>m. m\<lparr> vals := vs \<rparr>);
               Some (st\<lparr> root := Some node \<rparr>, None) }
      | Some r \<Rightarrow> insert_node B cmp st r key value)"

definition end_iter :: iterator where
  "end_iter = \<lparr> idx = 0, node = None \<rparr>"

definition begin_iter :: "('k, 'v) state \<Rightarrow> iterator option" where
  "begin_iter st = (case root st of Some r \<Rightarrow> min_node st r | None \<Rightarrow> Some end_iter)"

definition min_key :: "('k, 'v) state \<Rightarrow> 'k option" where
  "min_key st = do { r \<leftarrow> root st; it \<leftarrow> min_node st r; a \<leftarrow> node it; key_at st a (idx it) }"

definition max_key :: "('k, 'v) state \<Rightarrow> 'k option" where
  "max_key st = do { r \<leftarrow> root st; it \<leftarrow> max_node st r; a \<leftarrow> node it; key_at st a (idx it) }"

text \<open>
  The range-based \<^verbatim>\<open>for\<close> loop of \<^verbatim>\<open>main\<close>: from \<^verbatim>\<open>begin()\<close>, while the position differs
  from \<^verbatim>\<open>end()\<close>, dereference it and advance it.
\<close>

partial_function (option) traverse_from ::
  "('k, 'v) state \<Rightarrow> iterator \<Rightarrow> ('k \<times> 'v) list option" where
  "traverse_from st it =
     (if iter_neq it end_iter
      then do { kv \<leftarrow> iter_deref st it;
                it' \<leftarrow> iter_incr st it;
                rest \<leftarrow> traverse_from st it';
                Some (kv # rest) }
      else Some [])"

declare traverse_from.simps [code]

definition traverse :: "('k, 'v) state \<Rightarrow> ('k \<times> 'v) list option" where
  "traverse st = do { b \<leftarrow> begin_iter st; traverse_from st b }"

text \<open>
  A sequence of \<^verbatim>\<open>insert\<close> calls on the tree, one after the other, each with its two
  argument references.
\<close>

fun insert_all ::
  "nat \<Rightarrow> ('k \<Rightarrow> 'k \<Rightarrow> int) \<Rightarrow> ('k, 'v) state \<Rightarrow> ('k ref \<times> 'v ref) list
     \<Rightarrow> ('k, 'v) state option" where
  "insert_all B cmp st [] = Some st"
| "insert_all B cmp st ((key, value) # calls) =
     (case tree_insert B cmp st key value of None \<Rightarrow> None
      | Some (st', _) \<Rightarrow> insert_all B cmp st' calls)"

section \<open>Specification-level definitions\<close>

text \<open>
  A comparator in the sense of the tree: negative, zero or positive as the first key orders
  before, equals or orders after the second one.
\<close>

definition three_way :: "('k::linorder \<Rightarrow> 'k \<Rightarrow> int) \<Rightarrow> bool" where
  "three_way cmp = (\<forall>a b. (cmp a b < 0 \<longleftrightarrow> a < b) \<and> (cmp a b = 0 \<longleftrightarrow> a = b))"

definition int_compare :: "int \<Rightarrow> int \<Rightarrow> int" where
  "int_compare a b = (if a < b then - 1 else (if a > b then 1 else 0))"

text \<open>The state after \<^verbatim>\<open>insert(5, 50)\<close> into the empty tree with \<open>B = 2\<close>: one leaf at address 0.\<close>

definition one_leaf :: "(int, int) state" where
  "one_leaf =
     \<lparr> heap = (\<lambda>a. None)(0 \<mapsto>
         \<lparr> IsInternal = False, keys = [Some 5, None, None], vals = [Some 50, None, None],
           children = [], parent = None, usage = 1, parent_idx = 0 \<rparr>),
       next_addr = 1, root = Some 0 \<rparr>"

subsection \<open>The tree a state represents\<close>

text \<open>
  The abstraction used in the proofs: a tree of nodes, each with the address of its cell,
  its key/value pairs and its subtrees (none for a leaf).
\<close>

datatype ('k, 'v) gtree = T addr "('k \<times> 'v) list" "('k, 'v) gtree list"

fun addr_of :: "('k, 'v) gtree \<Rightarrow> addr" where
  "addr_of (T a kvs ts) = a"

fun entries :: "('k, 'v) gtree \<Rightarrow> ('k \<times> 'v) list" where
  "entries (T a kvs ts) = kvs"

fun subtrees :: "('k, 'v) gtree \<Rightarrow> ('k, 'v) gtree list" where
  "subtrees (T a kvs ts) = ts"

fun addrs :: "('k, 'v) gtree \<Rightarrow> addr list" where
  "addrs (T a kvs ts) = a # concat (map addrs ts)"

text \<open>\<open>inter_r [s0, s1, ...] [x1, x2, ...] = s0 # x1 @ s1 # x2 @ ...\<close>\<close>

fun inter_r :: "'a list \<Rightarrow> 'a list list \<Rightarrow> 'a list" where
  "inter_r (s # ss) (x # xs) = s # x @ inter_r ss xs"
| "inter_r _ _ = []"

text \<open>\<open>inter_l [x0, x1, ...] [s0, s1, ...] = x0 @ s0 # x1 @ s1 # ...\<close>\<close>

fun inter_l :: "'a list list \<Rightarrow> 'a list \<Rightarrow> 'a list" where
  "inter_l (x # xs) (s # ss) = x @ s # inter_l xs ss"
| "inter_l _ _ = []"

definition inter :: "'a list list \<Rightarrow> 'a list \<Rightarrow> 'a list" where
  "inter xs ss = (case xs of [] \<Rightarrow> ss | x # xs' \<Rightarrow> x @ inter_r ss xs')"

text \<open>The key/value pairs of a tree in order: subtree, pair, subtree, pair, ..., subtree.\<close>

fun inorder :: "('k, 'v) gtree \<Rightarrow> ('k \<times> 'v) list" where
  "inorder (T a kvs ts) = inter (map inorder ts) kvs"

text \<open>All leaves of the tree are \<open>h\<close> levels below its root.\<close>

fun bal :: "nat \<Rightarrow> ('k, 'v) gtree \<Rightarrow> bool" where
  "bal 0 (T a kvs ts) = (ts = [])"
| "bal (Suc h) (T a kvs ts) = (ts \<noteq> [] \<and> (\<forall>t \<in> set ts. bal h t))"

text \<open>Every node holds between 1 and \<open>2B - 2\<close> pairs; an internal node has one more child.\<close>

fun sized :: "nat \<Rightarrow> ('k, 'v) gtree \<Rightarrow> bool" where
  "sized B (T a kvs ts) =
     (1 \<le> length kvs \<and> length kvs \<le> 2 * B - 2
      \<and> (ts \<noteq> [] \<longrightarrow> length ts = length kvs + 1)
      \<and> (\<forall>t \<in> set ts. sized B t))"

text \<open>A cell holds the pairs \<open>kvs\<close> and the child pointers \<open>cs\<close>.\<close>

definition cell_ok ::
  "nat \<Rightarrow> ('k, 'v) BTreeNode \<Rightarrow> ('k \<times> 'v) list \<Rightarrow> addr list \<Rightarrow> bool" where
  "cell_ok B n kvs cs =
     (IsInternal n = (cs \<noteq> []) \<and> usage n = length kvs
      \<and> length (keys n) = 2 * B - 1 \<and> length (vals n) = 2 * B - 1
      \<and> take (length kvs) (keys n) = map (\<lambda>kv. Some (fst kv)) kvs
      \<and> take (length kvs) (vals n) = map (\<lambda>kv. Some (snd kv)) kvs
      \<and> length (children n) = (if cs = [] then 0 else 2 * B)
      \<and> take (length cs) (children n) = map Some cs)"

text \<open>The cell at \<open>c\<close> has the parent pointer \<open>par\<close> and the index \<open>i\<close>.\<close>

definition linked ::
  "(addr \<Rightarrow> ('k, 'v) BTreeNode option) \<Rightarrow> addr \<Rightarrow> addr option \<Rightarrow> nat \<Rightarrow> bool" where
  "linked h c par i = (case h c of None \<Rightarrow> False | Some m \<Rightarrow> parent m = par \<and> parent_idx m = i)"

text \<open>
  The heap represents the tree: every node's cell holds its pairs and the addresses of
  its subtrees, and every subtree's cell points back to the node with its index.
\<close>

fun repr :: "nat \<Rightarrow> (addr \<Rightarrow> ('k, 'v) BTreeNode option) \<Rightarrow> ('k, 'v) gtree \<Rightarrow> bool" where
  "repr B h (T a kvs ts) =
     ((case h a of None \<Rightarrow> False | Some n \<Rightarrow> cell_ok B n kvs (map addr_of ts))
      \<and> (\<forall>t \<in> set ts. repr B h t)
      \<and> (\<forall>i < length ts. linked h (addr_of (ts ! i)) (Some a) i))"

text \<open>Insertion or update of a pair in a list sorted by key.\<close>

fun upsert :: "'k::linorder \<Rightarrow> 'v \<Rightarrow> ('k \<times> 'v) list \<Rightarrow> ('k \<times> 'v) list" where
  "upsert k v [] = [(k, v)]"
| "upsert k v ((a, b) # xs) =
     (if k < a then (k, v) # (a, b) # xs
      else if k = a then (k, v) # xs
      else (a, b) # upsert k v xs)"

text \<open>The number of leading pairs whose key is smaller than \<open>k\<close>.\<close>

definition pos :: "'k::linorder \<Rightarrow> ('k \<times> 'v) list \<Rightarrow> nat" where
  "pos k kvs = length (takeWhile (\<lambda>kv. fst kv < k) kvs)"

subsection \<open>The phases of \<^verbatim>\<open>insert\<close> and \<^verbatim>\<open>adopt\<close>\<close>

text \<open>
  The bodies of \<^verbatim>\<open>insert\<close> and \<^verbatim>\<open>adopt\<close> end with the same code: when the node is full,
  split it and hand the two halves to the parent, or make a new root. The definitions
  below name these phases for the proofs; \<open>adopt_eq\<close> and \<open>insert_node_eq\<close> show that the
  functions are composed of them.
\<close>

definition propagate ::
  "nat \<Rightarrow> ('k, 'v) state \<Rightarrow> addr option \<Rightarrow> nat \<Rightarrow> addr \<Rightarrow> addr \<Rightarrow> 'k \<Rightarrow> 'v
     \<Rightarrow> ('k, 'v) state option" where
  "propagate B st par pidx l r key value =
     (case par of
        Some p \<Rightarrow> adopt B st p l r key value pidx
      | None \<Rightarrow>
          do { st \<leftarrow> (case root st of None \<Rightarrow> Some st | Some rt \<Rightarrow> delete st rt);
               (st, s) \<leftarrow> singleton B st l r key value;
               Some (st\<lparr> root := Some s \<rparr>) })"

definition overflow :: "nat \<Rightarrow> ('k, 'v) state \<Rightarrow> addr \<Rightarrow> ('k, 'v) state option" where
  "overflow B st a =
     do { n \<leftarrow> heap st a;
          if usage n = 2 * B - 1
          then do {
            (st, l, r, key, value) \<leftarrow> split_node B st a;
            n \<leftarrow> heap st a;
            propagate B st (parent n) (parent_idx n) l r key value }
          else Some st }"

definition adopt_fill ::
  "('k, 'v) state \<Rightarrow> addr \<Rightarrow> addr \<Rightarrow> addr \<Rightarrow> 'k \<Rightarrow> 'v \<Rightarrow> nat \<Rightarrow> ('k, 'v) state option" where
  "adopt_fill st a l r key value position =
     do { n \<leftarrow> heap st a;
          vs \<leftarrow> move_backward (vals n) position (usage n) (usage n + 1);
          ks \<leftarrow> move_backward (keys n) position (usage n) (usage n + 1);
          cs \<leftarrow> (if position \<le> usage n + 1
                 then memmove (children n) (position + 1) position (usage n + 1 - position)
                 else None);
          st \<leftarrow> upd st a (\<lambda>m. m\<lparr> vals := vs, keys := ks, children := cs \<rparr>);
          n \<leftarrow> heap st a;
          stale \<leftarrow> rd (children n) position;
          st \<leftarrow> delete st stale;
          n \<leftarrow> heap st a;
          cs \<leftarrow> wr (children n) position l;
          st \<leftarrow> upd st a (\<lambda>m. m\<lparr> children := cs \<rparr>);
          st \<leftarrow> upd st l (\<lambda>m. m\<lparr> parent := Some a \<rparr>);
          n \<leftarrow> heap st a;
          cs \<leftarrow> wr (children n) (position + 1) r;
          st \<leftarrow> upd st a (\<lambda>m. m\<lparr> children := cs \<rparr>);
          st \<leftarrow> upd st r (\<lambda>m. m\<lparr> parent := Some a \<rparr>);
          st \<leftarrow> restamp_from st a position;
          n \<leftarrow> heap st a;
          vs \<leftarrow> wr (vals n) position value;
          ks \<leftarrow> wr (keys n) position key;
          upd st a (\<lambda>m. m\<lparr> vals := vs, keys := ks, usage := u16 (usage m + 1) \<rparr>) }"

definition leaf_fill ::
  "('k, 'v) state \<Rightarrow> addr \<Rightarrow> 'k \<Rightarrow> 'v \<Rightarrow> nat \<Rightarrow> ('k, 'v) state option" where
  "leaf_fill st a key value position =
     do { n \<leftarrow> heap st a;
          vs \<leftarrow> move_backward (vals n) position (usage n) (usage n + 1);
          ks \<leftarrow> move_backward (keys n) position (usage n) (usage n + 1);
          vs \<leftarrow> wr vs position value;
          ks \<leftarrow> wr ks position key;
          upd st a (\<lambda>m. m\<lparr> vals := vs, keys := ks, usage := u16 (usage m + 1) \<rparr>) }"

text \<open>
  \<^verbatim>\<open>insert\<close> on a leaf reads its argument references between the two halves of
  \<open>leaf_fill\<close>: after the tail was shifted, and before the pair is stored.
\<close>

definition leaf_shift :: "('k, 'v) state \<Rightarrow> addr \<Rightarrow> nat \<Rightarrow> ('k, 'v) state option" where
  "leaf_shift st a position =
     do { n \<leftarrow> heap st a;
          vs \<leftarrow> move_backward (vals n) position (usage n) (usage n + 1);
          st \<leftarrow> upd st a (\<lambda>m. m\<lparr> vals := vs \<rparr>);
          n \<leftarrow> heap st a;
          ks \<leftarrow> move_backward (keys n) position (usage n) (usage n + 1);
          upd st a (\<lambda>m. m\<lparr> keys := ks \<rparr>) }"

definition leaf_store ::
  "('k, 'v) state \<Rightarrow> addr \<Rightarrow> 'k \<Rightarrow> 'v \<Rightarrow> nat \<Rightarrow> ('k, 'v) state option" where
  "leaf_store st a key value position =
     do { n \<leftarrow> heap st a;
          vs \<leftarrow> wr (vals n) position value;
          st \<leftarrow> upd st a (\<lambda>m. m\<lparr> vals := vs \<rparr>);
          n \<leftarrow> heap st a;
          ks \<leftarrow> wr (keys n) position key;
          st \<leftarrow> upd st a (\<lambda>m. m\<lparr> keys := ks \<rparr>);
          upd st a (\<lambda>m. m\<lparr> usage := u16 (usage m + 1) \<rparr>) }"

text \<open>
  The array after its slots \<open>[p, m)\<close> were moved one slot to the right (slot \<open>p\<close> keeps its
  old content).
\<close>

definition shiftr :: "'a list \<Rightarrow> nat \<Rightarrow> nat \<Rightarrow> 'a list" where
  "shiftr xs p m = take (Suc p) xs @ take (m - p) (drop p xs) @ drop (Suc m) xs"

subsection \<open>How a state changes\<close>

text \<open>Nothing is allocated at or beyond the allocator's next address.\<close>

definition alloc_ok :: "('k, 'v) state \<Rightarrow> bool" where
  "alloc_ok st = (\<forall>x \<ge> next_addr st. heap st x = None)"

text \<open>
  From \<open>st\<close> to \<open>st'\<close> the cells at the addresses \<open>A\<close> became the cells at \<open>A'\<close>: the new
  ones are old ones or freshly allocated, no other old cell changed, the cells given up
  are free, and the tree's root pointer is the same.
\<close>

definition evolves ::
  "('k, 'v) state \<Rightarrow> addr set \<Rightarrow> ('k, 'v) state \<Rightarrow> addr set \<Rightarrow> bool" where
  "evolves st A st' A' =
     (next_addr st \<le> next_addr st' \<and> root st' = root st
      \<and> A' \<subseteq> A \<union> {next_addr st..<next_addr st'}
      \<and> (\<forall>x. x \<notin> A \<and> x < next_addr st \<longrightarrow> heap st' x = heap st x)
      \<and> (\<forall>x. (x \<in> A \<or> next_addr st \<le> x) \<and> x \<notin> A' \<longrightarrow> heap st' x = None))"

text \<open>The state holds the tree \<open>s\<close>, balanced with height \<open>h\<close>, at pairwise different addresses.\<close>

definition tree_at :: "nat \<Rightarrow> ('k, 'v) state \<Rightarrow> ('k, 'v) gtree \<Rightarrow> nat \<Rightarrow> bool" where
  "tree_at B st s h =
     (alloc_ok st \<and> repr B (heap st) s \<and> distinct (addrs s)
      \<and> set (addrs s) \<subseteq> {..<next_addr st} \<and> bal h s)"

text \<open>The two outcomes of an insertion below a node: the node stays, or it was split.\<close>

definition stays ::
  "nat \<Rightarrow> ('k, 'v) state \<Rightarrow> ('k, 'v) gtree \<Rightarrow> ('k, 'v) state \<Rightarrow> ('k, 'v) gtree \<Rightarrow> nat
     \<Rightarrow> addr option \<Rightarrow> nat \<Rightarrow> bool" where
  "stays B st s st' s' h par pidx =
     (addr_of s' = addr_of s \<and> tree_at B st' s' h \<and> sized B s'
      \<and> evolves st (set (addrs s)) st' (set (addrs s'))
      \<and> linked (heap st') (addr_of s) par pidx)"

definition splits ::
  "nat \<Rightarrow> ('k, 'v) state \<Rightarrow> ('k, 'v) gtree \<Rightarrow> ('k, 'v) state \<Rightarrow> ('k, 'v) gtree
     \<Rightarrow> ('k, 'v) gtree \<Rightarrow> nat \<Rightarrow> addr option \<Rightarrow> nat \<Rightarrow> bool" where
  "splits B st s st1 sl sr h par pidx =
     (tree_at B st1 sl h \<and> tree_at B st1 sr h \<and> sized B sl \<and> sized B sr
      \<and> set (addrs sl) \<inter> set (addrs sr) = {}
      \<and> addr_of s \<notin> set (addrs sl) \<union> set (addrs sr)
      \<and> evolves st (set (addrs s)) st1 (insert (addr_of s) (set (addrs sl) \<union> set (addrs sr)))
      \<and> (\<exists>n. heap st1 (addr_of s) = Some n \<and> usage n = 0 \<and> parent n = par
               \<and> parent_idx n = pidx))"

subsection \<open>The invariant of the tree\<close>

text \<open>
  The state holds exactly the tree \<open>t\<close> of height \<open>h\<close>: the root pointer is the address of
  its root, the root has no parent, every live cell is a node of the tree, every node has
  between 1 and \<open>2B - 2\<close> pairs, and the pairs are in strictly ascending key order.
\<close>

definition tree_inv :: "nat \<Rightarrow> ('k::linorder, 'v) state \<Rightarrow> ('k, 'v) gtree \<Rightarrow> nat \<Rightarrow> bool" where
  "tree_inv B st t h =
     (tree_at B st t h \<and> sized B t \<and> sorted_wrt (<) (map fst (inorder t))
      \<and> root st = Some (addr_of t) \<and> linked (heap st) (addr_of t) None 0
      \<and> dom (heap st) = set (addrs t))"

text \<open>
  The same without the order of the keys: what holds for every comparator. A state has
  the shape of a tree when it is empty or holds a tree in this sense.
\<close>

definition shape_inv :: "nat \<Rightarrow> ('k, 'v) state \<Rightarrow> ('k, 'v) gtree \<Rightarrow> nat \<Rightarrow> bool" where
  "shape_inv B st t h =
     (tree_at B st t h \<and> sized B t
      \<and> root st = Some (addr_of t) \<and> linked (heap st) (addr_of t) None 0
      \<and> dom (heap st) = set (addrs t))"

definition shape_state :: "nat \<Rightarrow> ('k, 'v) state \<Rightarrow> bool" where
  "shape_state B st =
     ((root st = None \<and> (\<forall>x. heap st x = None)) \<or> (\<exists>t h. shape_inv B st t h))"

text \<open>The tree is one leaf with one pair in arrays of one slot: the tree of \<open>B = 1\<close>.\<close>

definition lone :: "('k, 'v) state \<Rightarrow> bool" where
  "lone st =
     (\<exists>a n k v. root st = Some a \<and> heap st a = Some n \<and> \<not> IsInternal n \<and> usage n = 1
        \<and> parent n = None \<and> keys n = [Some k] \<and> vals n = [Some v])"

text \<open>
  The state represents the sorted list \<open>xs\<close> of pairs: either the tree is empty (no
  root, no cell), or it holds a tree whose pairs in order are \<open>xs\<close>.
\<close>

definition rep_state :: "nat \<Rightarrow> ('k::linorder, 'v) state \<Rightarrow> ('k \<times> 'v) list \<Rightarrow> bool" where
  "rep_state B st xs =
     ((xs = [] \<and> root st = None \<and> (\<forall>x. heap st x = None))
      \<or> (\<exists>t h. tree_inv B st t h \<and> inorder t = xs))"

subsection \<open>Positions in order\<close>

text \<open>The positions of a tree in order: subtree, slot 0 of the node, subtree, slot 1, ...\<close>

fun posns :: "('k, 'v) gtree \<Rightarrow> iterator list" where
  "posns (T a kvs ts) =
     inter (map posns ts) (map (\<lambda>i. \<lparr> idx = i, node = Some a \<rparr>) [0..<length kvs])"

text \<open>
  The climbing part of \<^verbatim>\<open>successor\<close> and of \<^verbatim>\<open>predecessor\<close>, from the node \<open>a\<close>: the loop,
  then the position in the parent of the node at which the loop stopped, or the sentinel.
\<close>

definition exit_succ :: "('k, 'v) state \<Rightarrow> addr \<Rightarrow> iterator option" where
  "exit_succ st a =
     do { top \<leftarrow> climb_succ st a;
          tn \<leftarrow> heap st top;
          (case parent tn of
             Some p \<Rightarrow> Some \<lparr> idx = parent_idx tn, node = Some p \<rparr>
           | None \<Rightarrow> Some \<lparr> idx = 0, node = None \<rparr>) }"

definition exit_pred :: "('k, 'v) state \<Rightarrow> addr \<Rightarrow> iterator option" where
  "exit_pred st a =
     do { top \<leftarrow> climb_pred st a;
          tn \<leftarrow> heap st top;
          (case parent tn of
             Some p \<Rightarrow> Some \<lparr> idx = minus1u (parent_idx tn), node = Some p \<rparr>
           | None \<Rightarrow> Some \<lparr> idx = 0, node = None \<rparr>) }"

text \<open>\<^verbatim>\<open>it.node->predecessor(it.idx)\<close>, the counterpart of \<open>iter_incr\<close>.\<close>

definition pred_at :: "('k, 'v) state \<Rightarrow> iterator \<Rightarrow> iterator option" where
  "pred_at st it = do { a \<leftarrow> node it; predecessor st a (idx it) }"

text \<open>
  \<open>follows f xs e\<close>: \<open>f\<close> maps every element of \<open>xs\<close> to the next one, and the last one to
  \<open>e\<close>. \<open>precedes f b xs\<close>: \<open>f\<close> maps every element of \<open>xs\<close> to the one before it, and the
  first one to \<open>b\<close>.
\<close>

fun follows :: "('a \<Rightarrow> 'a option) \<Rightarrow> 'a list \<Rightarrow> 'a \<Rightarrow> bool" where
  "follows f [] e = True"
| "follows f [x] e = (f x = Some e)"
| "follows f (x # y # ys) e = (f x = Some y \<and> follows f (y # ys) e)"

fun precedes :: "('a \<Rightarrow> 'a option) \<Rightarrow> 'a \<Rightarrow> 'a list \<Rightarrow> bool" where
  "precedes f b [] = True"
| "precedes f b (x # xs) = (f x = Some b \<and> precedes f x xs)"

text \<open>The position \<open>n\<close> increments (\<^verbatim>\<open>++it\<close>) after the position \<open>it\<close>.\<close>

fun steps :: "('k, 'v) state \<Rightarrow> nat \<Rightarrow> iterator \<Rightarrow> iterator option" where
  "steps st 0 it = Some it"
| "steps st (Suc n) it = (case iter_incr st it of None \<Rightarrow> None | Some it' \<Rightarrow> steps st n it')"

subsection \<open>What the claims speak about\<close>

text \<open>Calls of \<^verbatim>\<open>insert\<close> whose arguments are objects outside the tree.\<close>

definition temps :: "('k \<times> 'v) list \<Rightarrow> ('k ref \<times> 'v ref) list" where
  "temps ops = map (\<lambda>kv. (Temp (fst kv), Temp (snd kv))) ops"

text \<open>The sorted list of pairs that a sequence of inserts into the empty tree leaves.\<close>

definition contents :: "('k::linorder \<times> 'v) list \<Rightarrow> ('k \<times> 'v) list" where
  "contents ops = fold (\<lambda>kv. upsert (fst kv) (snd kv)) ops []"

text \<open>There is a leaf \<open>d\<close> levels below the node at \<open>a\<close>.\<close>

inductive leaf_at :: "('k, 'v) state \<Rightarrow> addr \<Rightarrow> nat \<Rightarrow> bool" where
  here: "heap st a = Some n \<Longrightarrow> \<not> IsInternal n \<Longrightarrow> leaf_at st a 0"
| below: "heap st a = Some n \<Longrightarrow> IsInternal n \<Longrightarrow> i \<le> usage n \<Longrightarrow> rd (children n) i = Some c
    \<Longrightarrow> leaf_at st c d \<Longrightarrow> leaf_at st a (Suc d)"

text \<open>The node at \<open>a\<close> is a singleton root: internal, one pair, two children, no parent.\<close>

definition singleton_root :: "('k, 'v) state \<Rightarrow> addr \<Rightarrow> bool" where
  "singleton_root st a =
     (case heap st a of None \<Rightarrow> False
      | Some n \<Rightarrow> IsInternal n \<and> usage n = 1 \<and> parent n = None
          \<and> rd (children n) 0 \<noteq> None \<and> rd (children n) 1 \<noteq> None)"

text \<open>
  Three states with \<open>B = 2\<close>, for the examples: the leaf after \<^verbatim>\<open>insert(5, 50)\<close> and
  \<^verbatim>\<open>insert(3, 30)\<close>; a leaf whose three slots are all in use; and a root with two leaves,
  the left one holding two pairs.
\<close>

definition two_leaf :: "(int, int) state" where
  "two_leaf =
     \<lparr> heap = (\<lambda>a. None)(0 \<mapsto>
         \<lparr> IsInternal = False, keys = [Some 3, Some 5, None], vals = [Some 30, Some 50, None],
           children = [], parent = None, usage = 2, parent_idx = 0 \<rparr>),
       next_addr = 1, root = Some 0 \<rparr>"



text \<open>The state after \<^verbatim>\<open>insert(5, 50)\<close>, \<^verbatim>\<open>insert(3, 30)\<close> and \<^verbatim>\<open>insert(8, 80)\<close>, again with \<open>B = 2\<close>.\<close>

definition three_tree :: "(int, int) state" where
  "three_tree =
     \<lparr> heap = (\<lambda>a. None)
         (1 \<mapsto> \<lparr> IsInternal = False, keys = [Some 3, None, None],
                 vals = [Some 30, None, None],
                 children = [], parent = Some 3, usage = 1, parent_idx = 0 \<rparr>,
          2 \<mapsto> \<lparr> IsInternal = False, keys = [Some 8, None, None],
                 vals = [Some 80, None, None],
                 children = [], parent = Some 3, usage = 1, parent_idx = 1 \<rparr>,
          3 \<mapsto> \<lparr> IsInternal = True, keys = [Some 5, None, None],
                 vals = [Some 50, None, None],
                 children = [Some 1, Some 2, None, None], parent = None, usage = 1,
                 parent_idx = 0 \<rparr>),
       next_addr = 4, root = Some 3 \<rparr>"

subsection \<open>More states\<close>

text \<open>
  An internal node of a tree with \<open>B = 2\<close> that holds three pairs and four children, as it
  is inside \<^verbatim>\<open>adopt\<close> after the third pair was stored; the children are leaves with one
  pair each.
\<close>

definition kid :: "int \<Rightarrow> nat \<Rightarrow> (int, int) BTreeNode" where
  "kid k i = \<lparr> IsInternal = False, keys = [Some k, None, None],
               vals = [Some (10 * k), None, None], children = [],
               parent = Some 0, usage = 1, parent_idx = i \<rparr>"

definition full_internal :: "(int, int) state" where
  "full_internal =
     \<lparr> heap = (\<lambda>a. None)(0 \<mapsto> \<lparr> IsInternal = True, keys = [Some 2, Some 4, Some 6],
                       vals = [Some 20, Some 40, Some 60],
                       children = [Some 1, Some 2, Some 3, Some 4],
                       parent = None, usage = 3, parent_idx = 0 \<rparr>,
              1 \<mapsto> kid 1 0, 2 \<mapsto> kid 3 1, 3 \<mapsto> kid 5 2, 4 \<mapsto> kid 7 3),
       next_addr = 5, root = Some 0 \<rparr>"

text \<open>
  Three states of trees with \<open>B = 6\<close>, the default, and keys of a signed type under the
  default comparator: the leaf after \<^verbatim>\<open>insert(4294967296, 7)\<close> with \<^verbatim>\<open>long long\<close> keys; and,
  with \<^verbatim>\<open>int\<close> keys, the leaf after \<^verbatim>\<open>insert(1, 10)\<close>, \<^verbatim>\<open>insert(INT_MIN, 20)\<close> and
  \<^verbatim>\<open>insert(0, 30)\<close>, and the same leaf after one more \<^verbatim>\<open>insert(INT_MIN, 21)\<close>.
\<close>

definition wide_leaf :: "(64 word, int) state" where
  "wide_leaf =
     \<lparr> heap = (\<lambda>a. None)(0 \<mapsto>
         \<lparr> IsInternal = False, keys = [Some 4294967296, None, None, None, None,
                 None, None, None, None, None, None],
           vals = [Some 7, None, None, None, None, None, None, None, None, None, None],
           children = [], parent = None, usage = 1, parent_idx = 0 \<rparr>),
       next_addr = 1, root = Some 0 \<rparr>"

definition wrapped_leaf :: "(32 word, int) state" where
  "wrapped_leaf =
     \<lparr> heap = (\<lambda>a. None)(0 \<mapsto>
         \<lparr> IsInternal = False,
           keys = [Some 0, Some 1, Some (- 2147483648), None, None, None, None, None,
                   None, None, None],
           vals = [Some 30, Some 10, Some 20, None, None, None, None, None, None, None, None],
           children = [], parent = None, usage = 3, parent_idx = 0 \<rparr>),
       next_addr = 1, root = Some 0 \<rparr>"

definition doubled_leaf :: "(32 word, int) state" where
  "doubled_leaf =
     \<lparr> heap = (\<lambda>a. None)(0 \<mapsto>
         \<lparr> IsInternal = False,
           keys = [Some (- 2147483648), Some 0, Some 1, Some (- 2147483648), None, None,
                   None, None, None, None, None],
           vals = [Some 21, Some 30, Some 10, Some 20, None, None, None, None, None, None, None],
           children = [], parent = None, usage = 4, parent_idx = 0 \<rparr>),
       next_addr = 1, root = Some 0 \<rparr>"

text \<open>The state after \<^verbatim>\<open>insert(5, 50)\<close> into the empty tree with \<open>B = 1\<close>.\<close>

definition lone_leaf :: "(int, int) state" where
  "lone_leaf =
     \<lparr> heap = (\<lambda>a. None)(0 \<mapsto>
         \<lparr> IsInternal = False, keys = [Some 5], vals = [Some 50],
           children = [], parent = None, usage = 1, parent_idx = 0 \<rparr>),
       next_addr = 1, root = Some 0 \<rparr>"

section \<open>Basic facts\<close>

declare restamp_from.simps [simp del] linear_search_from.simps [simp del]

lemma max_node_Some: "max_node st a = Some it \<Longrightarrow> node it \<noteq> None"
  by (induction rule: max_node.raw_induct[rotated 1, consumes 1])
     (auto split: option.splits if_splits)

lemma one_leaf_reached:
  "tree_insert 2 int_compare empty_tree (Temp 5) (Temp 50) = Some (one_leaf, None)"
  by (simp add: tree_insert_def empty_tree_def new_node_def upd_def blank_def wr_def one_leaf_def
      key_ref_def val_ref_def
      numeral_3_eq_3)

subsection \<open>The flags of \<^verbatim>\<open>linear_search\<close>\<close>

lemma flag_gen1: "((2::nat) ^ n OR i) AND 2 ^ n \<noteq> 0"
  by (simp add: and_exp_eq_0_iff_not_bit bit_or_iff bit_exp_iff)

lemma flag_gen2:
  assumes "i < 2 ^ n"
  shows "((2::nat) ^ n OR i) AND mask n = i"
proof -
  have "take_bit n ((2::nat) ^ n OR i) = take_bit n ((2::nat) ^ n) OR take_bit n i"
    by (simp only: take_bit_or)
  moreover have "take_bit n ((2::nat) ^ n) = 0"
    by (simp add: take_bit_eq_mod)
  moreover have "take_bit n i = i"
    using assms by (simp add: take_bit_nat_eq_self)
  ultimately show ?thesis
    by (simp add: take_bit_eq_mask[symmetric])
qed

lemma flag_gen3:
  assumes "i < 2 ^ m" "m < n"
  shows "((2::nat) ^ n OR i) AND 2 ^ m = 0"
proof -
  have "\<not> bit i m"
    using assms(1) by (simp add: bit_iff_odd)
  moreover have "\<not> bit ((2::nat) ^ n) m"
    using assms(2) by (simp add: bit_exp_iff)
  ultimately have "\<not> bit ((2::nat) ^ n OR i) m"
    by (simp only: bit_or_iff) simp
  then show ?thesis
    by (simp add: and_exp_eq_0_iff_not_bit)
qed

lemma flag_found:
  assumes "i < 65536"
  shows "(FOUND OR i) AND FOUND \<noteq> 0" "(FOUND OR i) AND FOUND_MASK = i"
  using assms flag_gen1[of 16 i] flag_gen2[of i 16]
  by (simp_all add: FOUND_def FOUND_MASK_def mask_eq_exp_minus_1)

lemma flag_down:
  assumes "i < 65536"
  shows "(GO_DOWN OR i) AND FOUND = 0" "(GO_DOWN OR i) AND GO_DOWN_MASK = i"
  using assms flag_gen3[of i 16 24] flag_gen2[of i 24]
  by (simp_all add: FOUND_def GO_DOWN_def GO_DOWN_MASK_def mask_eq_exp_minus_1)

subsection \<open>Lists sorted by key\<close>

lemma upsert_front: "R = [] \<or> k < fst (hd R) \<Longrightarrow> upsert k v R = (k, v) # R"
  by (cases R) auto

lemma upsert_append: "R = [] \<or> k < fst (hd R) \<Longrightarrow> upsert k v (M @ R) = upsert k v M @ R"
  by (induction M) (auto simp: upsert_front)

lemma upsert_mid:
  "\<forall>x \<in> set L. fst x < k \<Longrightarrow> R = [] \<or> k < fst (hd R)
   \<Longrightarrow> upsert k v (L @ M @ R) = L @ upsert k v M @ R"
  by (induction L) (auto simp: upsert_append)

lemma upsert_found:
  "\<forall>x \<in> set L. fst x < k \<Longrightarrow> upsert k v (L @ (k, b) # R) = L @ (k, v) # R"
  by (induction L) auto

lemma upsert_at:
  "\<forall>x \<in> set L. fst x < k \<Longrightarrow> R = [] \<or> k < fst (hd R)
   \<Longrightarrow> upsert k v (L @ R) = L @ (k, v) # R"
  using upsert_mid[of L k R v "[]"] by simp

lemma set_upsert: "fst ` set (upsert k v xs) = insert k (fst ` set xs)"
  by (induction k v xs rule: upsert.induct) (auto simp: image_iff)

lemma sorted_upsert:
  "sorted_wrt (<) (map fst xs) \<Longrightarrow> sorted_wrt (<) (map fst (upsert k v xs))"
proof (induction k v xs rule: upsert.induct)
  case (1 k v)
  then show ?case by simp
next
  case (2 k v a b xs)
  have "\<And>y. y \<in> fst ` set (upsert k v xs) \<Longrightarrow> \<not> k < a \<Longrightarrow> k \<noteq> a \<Longrightarrow> a < y"
    using 2(2) by (auto simp: set_upsert)
  with 2 show ?case by (auto simp: image_iff)
qed

lemma length_upsert:
  "sorted_wrt (<) (map fst xs) \<Longrightarrow>
   length (upsert k v xs) = (if k \<in> fst ` set xs then length xs else length xs + 1)"
  by (induction k v xs rule: upsert.induct) (auto simp: image_iff)

lemma map_of_skip: "\<forall>x \<in> set L. fst x \<noteq> k \<Longrightarrow> map_of (L @ M) k = map_of M k"
  by (induction L) auto

lemma map_of_mid:
  fixes k :: "'k::linorder"
  assumes "\<forall>x \<in> set L. fst x < k" "\<forall>x \<in> set R. k < fst x"
  shows "map_of (L @ M @ R) k = map_of M k"
proof -
  have "k \<notin> fst ` set R"
    using assms(2) by auto
  then have "map_of R k = None"
    by (simp add: map_of_eq_None_iff)
  then have *: "map_of (M @ R) k = map_of M k"
    by (simp add: map_add_def split: option.splits)
  have "\<forall>x \<in> set L. fst x \<noteq> k"
    using assms(1) by auto
  then have "map_of (L @ M @ R) k = map_of (M @ R) k"
    by (rule map_of_skip)
  with * show ?thesis
    by (simp only:)
qed

lemma map_of_found:
  fixes k :: "'k::linorder"
  assumes "\<forall>x \<in> set L. fst x < k"
  shows "map_of (L @ (k, b) # R) k = Some b"
proof -
  have "\<forall>x \<in> set L. fst x \<noteq> k"
    using assms by auto
  then have "map_of (L @ (k, b) # R) k = map_of ((k, b) # R) k"
    by (rule map_of_skip)
  then show ?thesis
    by simp
qed

lemma sorted_hd_all:
  fixes k :: "'k::linorder"
  assumes "sorted_wrt (<) (map fst R)" "R = [] \<or> k < fst (hd R)"
  shows "\<forall>x \<in> set R. k < fst x"
  using assms by (cases R) fastforce+

lemma sorted_last_all:
  fixes k :: "'k::linorder"
  assumes "sorted_wrt (<) (map fst L)" "L = [] \<or> fst (last L) < k"
  shows "\<forall>x \<in> set L. fst x < k"
  using assms by (cases L rule: rev_cases) (fastforce simp: sorted_wrt_append)+

subsection \<open>Interleaving\<close>

lemma inter_r_Cons: "xs \<noteq> [] \<Longrightarrow> inter_r (s # ss) xs = s # inter xs ss"
  by (cases xs) (auto simp: inter_def)

lemma inter_split:
  "length xs = length ss + 1 \<Longrightarrow> p \<le> length ss \<Longrightarrow>
   inter xs ss = inter_l (take p xs) (take p ss) @ xs ! p @ inter_r (drop p ss) (drop (Suc p) xs)"
proof (induction p arbitrary: xs ss)
  case 0
  then show ?case by (cases xs) (auto simp: inter_def)
next
  case (Suc p)
  then obtain x xs' s ss' where [simp]: "xs = x # xs'" "ss = s # ss'"
    by (cases xs; cases ss) auto
  have "xs' \<noteq> []" using Suc.prems by auto
  then have "inter xs ss = x @ s # inter xs' ss'"
    by (simp add: inter_def inter_r_Cons)
  with Suc.IH[of xs' ss'] Suc.prems show ?case by simp
qed

lemma inter_l_snoc:
  "length xs = length ss \<Longrightarrow> inter_l (xs @ [x]) (ss @ [s]) = inter_l xs ss @ x @ [s]"
  by (induction xs ss rule: inter_l.induct) auto

lemma inter_l_last:
  "length xs = length ss \<Longrightarrow> ss \<noteq> [] \<Longrightarrow> inter_l xs ss \<noteq> [] \<and> last (inter_l xs ss) = last ss"
  by (induction xs ss rule: inter_l.induct) auto

lemma inter_r_hd:
  "length xs = length ss \<Longrightarrow> ss \<noteq> [] \<Longrightarrow> inter_r ss xs \<noteq> [] \<and> hd (inter_r ss xs) = hd ss"
  by (cases ss; cases xs) auto

lemma inter_r_Nil: "inter_r [] xs = []" 
  by simp

subsection \<open>The pairs of a node in order\<close>

lemma inter_Nil [simp]: "inter [] ss = ss"
  by (simp add: inter_def)

lemma inter_update:
  assumes "length xs = length ss + 1" "p \<le> length ss"
  shows "inter (xs[p := y]) ss
       = inter_l (take p xs) (take p ss) @ y @ inter_r (drop p ss) (drop (Suc p) xs)"
  using inter_split[of "xs[p := y]" ss p] assms by simp

lemma inter_adopt:
  assumes "length xs = length ss + 1" "p \<le> length ss"
  shows "inter (take p xs @ y # z # drop (Suc p) xs) (take p ss @ s # drop p ss)
       = inter_l (take p xs) (take p ss) @ y @ s # z @ inter_r (drop p ss) (drop (Suc p) xs)"
proof -
  let ?xs = "take p xs @ y # z # drop (Suc p) xs" and ?ss = "take p ss @ s # drop p ss"
  have "length ?xs = length ?ss + 1" "p \<le> length ?ss"
    using assms by simp_all
  from inter_split[OF this] show ?thesis
    using assms by (simp add: nth_append)
qed

lemma inter_found:
  assumes "length xs = length ss + 1" "p < length ss"
  shows "inter xs (ss[p := s])
       = (inter_l (take p xs) (take p ss) @ xs ! p) @ s
         # xs ! Suc p @ inter_r (drop (Suc p) ss) (drop (Suc (Suc p)) xs)"
proof -
  have "drop p (ss[p := s]) = s # drop (Suc p) ss"
    using assms by (simp add: drop_update_swap Cons_nth_drop_Suc[symmetric])
  moreover have "drop (Suc p) xs = xs ! Suc p # drop (Suc (Suc p)) xs"
    using assms by (simp add: Cons_nth_drop_Suc)
  ultimately show ?thesis
    using inter_split[of xs "ss[p := s]" p] assms by simp
qed

lemma inter_halves:
  assumes "length xs = length ss + 1" "p < length ss"
  shows "inter (take (Suc p) xs) (take p ss) @ ss ! p # inter (drop (Suc p) xs) (drop (Suc p) ss)
       = inter xs ss"
proof -
  have 1: "inter (take (Suc p) xs) (take p ss) = inter_l (take p xs) (take p ss) @ xs ! p"
    using inter_split[of "take (Suc p) xs" "take p ss" p] assms by (simp add: min_def)
  have "drop (Suc p) xs \<noteq> []" using assms by simp
  then have 2: "inter_r (drop p ss) (drop (Suc p) xs)
      = ss ! p # inter (drop (Suc p) xs) (drop (Suc p) ss)"
    using assms by (simp add: Cons_nth_drop_Suc[symmetric] inter_r_Cons inter_def)
  show ?thesis
    using inter_split[of xs ss p] assms 1 2 by simp
qed

lemma route_left:
  fixes k :: "'k::linorder"
  assumes "length xs = length ss" "sorted_wrt (<) (map fst (inter_l xs ss))"
    "\<forall>j < length ss. fst (ss ! j) < k"
  shows "\<forall>x \<in> set (inter_l xs ss). fst x < k"
proof (cases "ss = []")
  case True
  then show ?thesis using assms(1) by simp
next
  case False
  then have "inter_l xs ss \<noteq> []" "last (inter_l xs ss) = last ss"
    using inter_l_last[OF assms(1)] by simp_all
  moreover have "fst (last ss) < k"
    using assms(3) False by (simp add: last_conv_nth)
  ultimately show ?thesis
    using sorted_last_all[OF assms(2)] by simp
qed

lemma route_right:
  fixes k :: "'k::linorder"
  assumes "length xs = length ss" "ss \<noteq> [] \<Longrightarrow> k < fst (hd ss)"
  shows "inter_r ss xs = [] \<or> k < fst (hd (inter_r ss xs))"
  using assms by (cases ss; cases xs) auto

subsection \<open>Reading the arrays of a cell\<close>

lemma rd_take:
  assumes "take m xs = map f ys" "length ys = m" "i < m"
  shows "rd xs i = f (ys ! i)"
proof -
  have "length (take m xs) = m"
    using assms by simp
  then have "m \<le> length xs" by simp
  moreover have "xs ! i = take m xs ! i"
    using assms(3) by simp
  ultimately show ?thesis
    using assms by (simp add: rd_def)
qed

lemma pos_le: "pos k kvs \<le> length kvs"
  by (simp add: pos_def length_takeWhile_le)

lemma pos_Cons: "pos k (x # xs) = (if fst x < k then Suc (pos k xs) else 0)"
  by (simp add: pos_def)

lemma pos_before: "j < pos k kvs \<Longrightarrow> fst (kvs ! j) < k"
  unfolding pos_def using nth_length_takeWhile takeWhile_nth
  by (metis (no_types, lifting) nth_mem set_takeWhileD)

lemma pos_at: "pos k kvs < length kvs \<Longrightarrow> \<not> fst (kvs ! pos k kvs) < k"
  unfolding pos_def by (rule nth_length_takeWhile)

lemma linear_search_from_eq:
  assumes "three_way cmp" "usage n = length kvs"
    "take (length kvs) (keys n) = map (\<lambda>kv. Some (fst kv)) kvs"
  shows "i \<le> length kvs \<Longrightarrow>
    linear_search_from cmp n key i =
      Some (let p = i + pos key (drop i kvs)
            in if p < length kvs \<and> fst (kvs ! p) = key then FOUND OR p else GO_DOWN OR p)"
proof (induction "length kvs - i" arbitrary: i)
  case 0
  then have "i = length kvs" by simp
  then show ?case
    using assms(2) by (subst linear_search_from.simps) (simp add: pos_def)
next
  case (Suc d)
  then have lt: "i < length kvs" by simp
  then have rd: "rd (keys n) i = Some (fst (kvs ! i))"
    using rd_take[OF assms(3)] by simp
  have dr: "drop i kvs = kvs ! i # drop (Suc i) kvs"
    using lt by (simp add: Cons_nth_drop_Suc)
  have c1: "cmp key (fst (kvs ! i)) < 0 \<longleftrightarrow> key < fst (kvs ! i)"
   and c2: "cmp key (fst (kvs ! i)) = 0 \<longleftrightarrow> key = fst (kvs ! i)"
    using assms(1) by (simp_all add: three_way_def)
  consider "key < fst (kvs ! i)" | "key = fst (kvs ! i)" | "fst (kvs ! i) < key"
    using less_linear by blast
  then show ?case
  proof cases
    case 1
    then show ?thesis
      using lt rd c1 assms(2)
      by (subst linear_search_from.simps) (auto simp: dr pos_Cons Let_def)
  next
    case 2
    then show ?thesis
      using lt rd c1 c2 assms(2)
      by (subst linear_search_from.simps) (auto simp: dr pos_Cons Let_def)
  next
    case 3
    then have "\<not> cmp key (fst (kvs ! i)) < 0" "cmp key (fst (kvs ! i)) \<noteq> 0"
      using c1 c2 by auto
    moreover have "linear_search_from cmp n key (Suc i) =
      Some (let p = Suc i + pos key (drop (Suc i) kvs)
            in if p < length kvs \<and> fst (kvs ! p) = key then FOUND OR p else GO_DOWN OR p)"
      using Suc.hyps(1)[of "Suc i"] Suc.hyps(2) lt by simp
    ultimately show ?thesis
      using lt rd assms(2) 3
      by (subst linear_search_from.simps) (simp add: dr pos_Cons Let_def)
  qed
qed

lemma linear_search_eq:
  assumes "three_way cmp" "usage n = length kvs"
    "take (length kvs) (keys n) = map (\<lambda>kv. Some (fst kv)) kvs" "length kvs < 2 * B"
  shows "linear_search B cmp n key =
      Some (let p = pos key kvs
            in if p < length kvs \<and> fst (kvs ! p) = key then FOUND OR p else GO_DOWN OR p)"
  using linear_search_from_eq[OF assms(1-3), of 0 key] assms(2,4)
  by (simp add: linear_search_def)

subsection \<open>Stores, allocation and destruction\<close>

lemma upd_Some: "heap st a = Some n \<Longrightarrow> upd st a f = Some (st\<lparr> heap := (heap st)(a \<mapsto> f n) \<rparr>)"
  by (simp add: upd_def)

lemma delete_flat:
  "heap st a = Some n \<Longrightarrow> \<not> IsInternal n \<or> usage n = 0
   \<Longrightarrow> delete st a = Some (st\<lparr> heap := (heap st)(a := None) \<rparr>)"
  unfolding delete_def by (subst destroy.simps) auto

lemma u16_id: "x < 65536 \<Longrightarrow> u16 x = x"
  by (simp add: u16_def)

text \<open>The loop of \<^verbatim>\<open>adopt\<close> over the children from index \<open>i\<close> on.\<close>

lemma restamp_from_spec:
  assumes "heap st a = Some n" "take (usage n + 2) (children n) = map Some cs"
    "length cs = usage n + 2" "distinct cs" "a \<notin> set cs" "\<forall>c \<in> set cs. heap st c \<noteq> None"
    "usage n + 2 < 65536"
  shows "\<exists>st'. restamp_from st a i = Some st'
      \<and> next_addr st' = next_addr st \<and> root st' = root st
      \<and> (\<forall>j. i \<le> j \<and> j < length cs \<longrightarrow>
            heap st' (cs ! j) = map_option (\<lambda>m. m\<lparr> parent_idx := j \<rparr>) (heap st (cs ! j)))
      \<and> (\<forall>x. x \<notin> set (drop i cs) \<longrightarrow> heap st' x = heap st x)"
  using assms
proof (induction "usage n + 2 - i" arbitrary: i st)
  case 0
  then show ?case
    by (subst restamp_from.simps) auto
next
  case (Suc d)
  then have lt: "i < usage n + 2" by simp
  then have rdc: "rd (children n) i = Some (cs ! i)"
    using rd_take[OF Suc.prems(2), of i] Suc.prems(3) by simp
  have ci: "cs ! i \<in> set cs" using lt Suc.prems(3) by simp
  then obtain m where m: "heap st (cs ! i) = Some m"
    using Suc.prems(6) by auto
  define st1 where "st1 = st\<lparr> heap := (heap st)(cs ! i \<mapsto> m\<lparr> parent_idx := u16 i \<rparr>) \<rparr>"
  have ne: "cs ! i \<noteq> a" using ci Suc.prems(5) by auto
  have a1: "heap st1 a = Some n" using ne Suc.prems(1) by (simp add: st1_def)
  have ex1: "\<forall>c \<in> set cs. heap st1 c \<noteq> None"
    using Suc.prems(6) by (simp add: st1_def)
  have step: "restamp_from st a i = restamp_from st1 a (Suc i)"
    using Suc.prems(1) lt rdc m by (subst restamp_from.simps) (simp add: upd_def st1_def)
  have "d = usage n + 2 - Suc i" using Suc.hyps(2) by simp
  from Suc.hyps(1)[OF this a1 Suc.prems(2,3,4,5) ex1 Suc.prems(7)]
  obtain st' where st': "restamp_from st1 a (Suc i) = Some st'"
      "next_addr st' = next_addr st1" "root st' = root st1"
      "\<forall>j. Suc i \<le> j \<and> j < length cs \<longrightarrow>
            heap st' (cs ! j) = map_option (\<lambda>m. m\<lparr> parent_idx := j \<rparr>) (heap st1 (cs ! j))"
      "\<forall>x. x \<notin> set (drop (Suc i) cs) \<longrightarrow> heap st' x = heap st1 x"
    by blast
  have notin: "cs ! i \<notin> set (drop (Suc i) cs)"
    using Suc.prems(4) lt Suc.prems(3)
    by (metis Cons_nth_drop_Suc distinct.simps(2) distinct_drop)
  have i16: "u16 i = i" using lt Suc.prems(7) by (simp add: u16_id)
  have dr: "drop i cs = cs ! i # drop (Suc i) cs"
    using lt Suc.prems(3) by (simp add: Cons_nth_drop_Suc)
  have "heap st' (cs ! j) = map_option (\<lambda>m. m\<lparr> parent_idx := j \<rparr>) (heap st (cs ! j))"
    if "i \<le> j" "j < length cs" for j
  proof (cases "j = i")
    case True
    then show ?thesis
      using st'(5) notin m i16 by (simp add: st1_def)
  next
    case False
    then have "Suc i \<le> j" using that by simp
    moreover have "cs ! j \<noteq> cs ! i"
      using False that lt Suc.prems(3,4) by (simp add: nth_eq_iff_index_eq)
    ultimately show ?thesis
      using st'(4) that by (simp add: st1_def)
  qed
  moreover have "heap st' x = heap st x" if "x \<notin> set (drop i cs)" for x
    using that st'(5) by (simp add: dr st1_def)
  ultimately show ?case
    using step st' by (simp add: st1_def)
qed

text \<open>The loop of \<^verbatim>\<open>split\<close> over the children of the two halves.\<close>

lemma restamp_halves_spec:
  assumes "heap st l = Some nl" "heap st r = Some nr"
    "take B (children nl) = map Some cl" "length cl = B"
    "take B (children nr) = map Some cr" "length cr = B"
    "distinct (cl @ cr)" "l \<notin> set (cl @ cr)" "r \<notin> set (cl @ cr)"
    "\<forall>c \<in> set (cl @ cr). heap st c \<noteq> None" "B < 65536"
  shows "\<exists>st'. restamp_halves st l r [i..<B] = Some st'
      \<and> next_addr st' = next_addr st \<and> root st' = root st
      \<and> (\<forall>j. i \<le> j \<and> j < B \<longrightarrow>
            heap st' (cl ! j) = map_option (\<lambda>m. m\<lparr> parent := Some l, parent_idx := j \<rparr>) (heap st (cl ! j))
          \<and> heap st' (cr ! j) = map_option (\<lambda>m. m\<lparr> parent := Some r, parent_idx := j \<rparr>) (heap st (cr ! j)))
      \<and> (\<forall>x. x \<notin> set (drop i cl) \<union> set (drop i cr) \<longrightarrow> heap st' x = heap st x)"
  using assms(1,2,10)
proof (induction "B - i" arbitrary: i st)
  case 0
  then show ?case by auto
next
  case (Suc d)
  then have lt: "i < B" by simp
  have rdl: "rd (children nl) i = Some (cl ! i)"
    using rd_take[OF assms(3), of i] assms(4) lt by simp
  have rdr: "rd (children nr) i = Some (cr ! i)"
    using rd_take[OF assms(5), of i] assms(6) lt by simp
  have cli: "cl ! i \<in> set cl" and cri: "cr ! i \<in> set cr"
    using lt assms(4,6) by simp_all
  obtain ml mr where ml: "heap st (cl ! i) = Some ml" and mr: "heap st (cr ! i) = Some mr"
    using Suc.prems(3) cli cri by (metis Un_iff not_Some_eq set_append)
  have ne: "cl ! i \<noteq> l" "cl ! i \<noteq> r" "cr ! i \<noteq> l" "cr ! i \<noteq> r" "cl ! i \<noteq> cr ! i"
    using cli cri assms(7,8,9) by auto
  define st4 where "st4 = st\<lparr> heap := (heap st)
      (cl ! i \<mapsto> ml\<lparr> parent := Some l, parent_idx := u16 i \<rparr>,
       cr ! i \<mapsto> mr\<lparr> parent := Some r, parent_idx := u16 i \<rparr>) \<rparr>"
  have step: "restamp_halves st l r [i..<B] = restamp_halves st4 l r [Suc i..<B]"
    using lt Suc.prems(1,2) rdl rdr ml mr ne
    by (simp add: upt_conv_Cons upd_def st4_def fun_upd_twist)
  have l4: "heap st4 l = Some nl" and r4: "heap st4 r = Some nr"
    using Suc.prems(1,2) ne by (simp_all add: st4_def)
  have ex4: "\<forall>c \<in> set (cl @ cr). heap st4 c \<noteq> None"
    using Suc.prems(3) by (simp add: st4_def)
  have "d = B - Suc i" using Suc.hyps(2) by simp
  from Suc.hyps(1)[OF this l4 r4 ex4]
  obtain st' where st': "restamp_halves st4 l r [Suc i..<B] = Some st'"
      "next_addr st' = next_addr st4" "root st' = root st4"
      "\<forall>j. Suc i \<le> j \<and> j < B \<longrightarrow>
            heap st' (cl ! j) = map_option (\<lambda>m. m\<lparr> parent := Some l, parent_idx := j \<rparr>) (heap st4 (cl ! j))
          \<and> heap st' (cr ! j) = map_option (\<lambda>m. m\<lparr> parent := Some r, parent_idx := j \<rparr>) (heap st4 (cr ! j))"
      "\<forall>x. x \<notin> set (drop (Suc i) cl) \<union> set (drop (Suc i) cr) \<longrightarrow> heap st' x = heap st4 x"
    by blast
  have drl: "drop i cl = cl ! i # drop (Suc i) cl" and drr: "drop i cr = cr ! i # drop (Suc i) cr"
    using lt assms(4,6) by (simp_all add: Cons_nth_drop_Suc)
  have dl: "distinct cl" and dr: "distinct cr" and disj: "set cl \<inter> set cr = {}"
    using assms(7) by auto
  have notin: "cl ! i \<notin> set (drop (Suc i) cl)" "cr ! i \<notin> set (drop (Suc i) cr)"
    using dl dr drl drr by (metis distinct.simps(2) distinct_drop)+
  have notin2: "cl ! i \<notin> set (drop (Suc i) cr)" "cr ! i \<notin> set (drop (Suc i) cl)"
    using disj cli cri by (meson disjoint_iff in_set_dropD)+
  have i16: "u16 i = i" using lt assms(11) by (simp add: u16_id)
  have "heap st' (cl ! j) = map_option (\<lambda>m. m\<lparr> parent := Some l, parent_idx := j \<rparr>) (heap st (cl ! j))
      \<and> heap st' (cr ! j) = map_option (\<lambda>m. m\<lparr> parent := Some r, parent_idx := j \<rparr>) (heap st (cr ! j))"
    if "i \<le> j" "j < B" for j
  proof (cases "j = i")
    case True
    then show ?thesis
      using st'(5) notin notin2 ml mr i16 ne by (simp add: st4_def)
  next
    case False
    then have "Suc i \<le> j" using that by simp
    moreover have "cl ! j \<noteq> cl ! i" "cr ! j \<noteq> cr ! i"
      using False that lt assms(4,6) dl dr by (simp_all add: nth_eq_iff_index_eq)
    moreover have "cl ! j \<noteq> cr ! i" "cr ! j \<noteq> cl ! i"
      using disj cli cri that assms(4,6) by (metis disjoint_iff nth_mem)+
    ultimately show ?thesis
      using st'(4) that by (simp add: st4_def)
  qed
  moreover have "heap st' x = heap st x" if "x \<notin> set (drop i cl) \<union> set (drop i cr)" for x
    using that st'(5) by (simp add: drl drr st4_def)
  ultimately show ?case
    using step st' by (simp add: st4_def)
qed

subsection \<open>\<^verbatim>\<open>split\<close>\<close>

lemma take_map_take: "take m xs = map f ys \<Longrightarrow> j \<le> m \<Longrightarrow> take j xs = map f (take j ys)"
  by (metis min.absorb_iff2 take_map take_take min.commute)

lemma take_map_drop:
  "take m xs = map f ys \<Longrightarrow> j \<le> m \<Longrightarrow> take (m - j) (drop j xs) = map f (drop j ys)"
  by (metis drop_map drop_take)

lemma take_map_length: "take m xs = map f ys \<Longrightarrow> length ys = m \<Longrightarrow> m \<le> length xs"
  by (metis length_map length_take min.cobounded1 min.commute)

lemma split_node_leaf:
  assumes cfg: "1 \<le> B" "2 * B < 65536"
    and a: "heap st a = Some n" and ok: "cell_ok B n kvs []" and len: "length kvs = 2 * B - 1"
    and fresh: "\<forall>x \<ge> next_addr st. heap st x = None"
  shows "\<exists>st' nl nr. split_node B st a =
        Some (st', next_addr st, next_addr st + 1, fst (kvs ! (B - 1)), snd (kvs ! (B - 1)))
      \<and> next_addr st' = next_addr st + 2 \<and> root st' = root st
      \<and> heap st' a = Some (n\<lparr> usage := 0 \<rparr>)
      \<and> heap st' (next_addr st) = Some nl \<and> cell_ok B nl (take (B - 1) kvs) []
      \<and> parent nl = parent n
      \<and> heap st' (next_addr st + 1) = Some nr \<and> cell_ok B nr (drop B kvs) []
      \<and> parent nr = parent n
      \<and> (\<forall>x. x \<notin> {a, next_addr st, next_addr st + 1} \<longrightarrow> heap st' x = heap st x)"
proof -
  have alt: "a < next_addr st"
    using a fresh by (metis not_le option.distinct(1))
  have u: "usage n = 2 * B - 1" "\<not> IsInternal n" "length (keys n) = 2 * B - 1"
    "length (vals n) = 2 * B - 1"
    using ok len by (simp_all add: cell_ok_def)
  have tk: "take (2 * B - 1) (keys n) = map (\<lambda>kv. Some (fst kv)) kvs"
   and tv: "take (2 * B - 1) (vals n) = map (\<lambda>kv. Some (snd kv)) kvs"
    using ok len by (simp_all add: cell_ok_def)
  have rk: "rd (keys n) (B - 1) = Some (fst (kvs ! (B - 1)))"
    using rd_take[OF tk len, of "B - 1"] cfg by simp
  have rv: "rd (vals n) (B - 1) = Some (snd (kvs ! (B - 1)))"
    using rd_take[OF tv len, of "B - 1"] cfg by simp
  have k1: "take (B - 1) (keys n) = map (\<lambda>kv. Some (fst kv)) (take (B - 1) kvs)"
    using take_map_take[OF tk, of "B - 1"] by simp
  have v1: "take (B - 1) (vals n) = map (\<lambda>kv. Some (snd kv)) (take (B - 1) kvs)"
    using take_map_take[OF tv, of "B - 1"] by simp
  have k2: "take (B - 1) (drop B (keys n)) = map (\<lambda>kv. Some (fst kv)) (drop B kvs)"
    using take_map_drop[OF tk, of B] cfg by (simp add: algebra_simps)
  have v2: "take (B - 1) (drop B (vals n)) = map (\<lambda>kv. Some (snd kv)) (drop B kvs)"
    using take_map_drop[OF tv, of B] cfg by (simp add: algebra_simps)
  have b16: "u16 (B - 1) = B - 1" using cfg by (simp add: u16_id)
  have arith: "2 * B - 1 - B = B - 1" "B - 1 \<le> 2 * B - 1" "B \<le> 2 * B - 1"
    using cfg by simp_all
  show ?thesis
    using a alt u rk rv cfg b16 arith k1 v1 k2 v2
    by (simp add: split_node_def new_node_def upd_def blank_def copy_range_def cell_ok_def len
        mult_2)
qed

lemma split_node_internal_pre:
  assumes cfg: "1 \<le> B" "2 * B < 65536"
    and a: "heap st a = Some n" and ok: "cell_ok B n kvs cs" and len: "length kvs = 2 * B - 1"
    and lcs: "length cs = 2 * B"
    and fresh: "\<forall>x \<ge> next_addr st. heap st x = None"
  shows "\<exists>stm nl nr. split_node B st a =
        do { st' \<leftarrow> restamp_halves stm (next_addr st) (next_addr st + 1) [0..<B];
             Some (st', next_addr st, next_addr st + 1, fst (kvs ! (B - 1)), snd (kvs ! (B - 1))) }
      \<and> next_addr stm = next_addr st + 2 \<and> root stm = root st
      \<and> heap stm a = Some (n\<lparr> usage := 0 \<rparr>)
      \<and> heap stm (next_addr st) = Some nl \<and> cell_ok B nl (take (B - 1) kvs) (take B cs)
      \<and> parent nl = parent n
      \<and> heap stm (next_addr st + 1) = Some nr \<and> cell_ok B nr (drop B kvs) (drop B cs)
      \<and> parent nr = parent n
      \<and> (\<forall>x. x \<notin> {a, next_addr st, next_addr st + 1} \<longrightarrow> heap stm x = heap st x)"
proof -
  have alt: "a < next_addr st"
    using a fresh by (metis not_le option.distinct(1))
  have u: "usage n = 2 * B - 1" "IsInternal n" "length (keys n) = 2 * B - 1"
    "length (vals n) = 2 * B - 1" "length (children n) = 2 * B"
    using ok len lcs cfg by (auto simp add: cell_ok_def)
  have tk: "take (2 * B - 1) (keys n) = map (\<lambda>kv. Some (fst kv)) kvs"
   and tv: "take (2 * B - 1) (vals n) = map (\<lambda>kv. Some (snd kv)) kvs"
   and tc: "take (2 * B) (children n) = map Some cs"
    using ok len lcs by (simp_all add: cell_ok_def)
  have rk: "rd (keys n) (B - 1) = Some (fst (kvs ! (B - 1)))"
    using rd_take[OF tk len, of "B - 1"] cfg by simp
  have rv: "rd (vals n) (B - 1) = Some (snd (kvs ! (B - 1)))"
    using rd_take[OF tv len, of "B - 1"] cfg by simp
  have k1: "take (B - 1) (keys n) = map (\<lambda>kv. Some (fst kv)) (take (B - 1) kvs)"
    using take_map_take[OF tk, of "B - 1"] by simp
  have v1: "take (B - 1) (vals n) = map (\<lambda>kv. Some (snd kv)) (take (B - 1) kvs)"
    using take_map_take[OF tv, of "B - 1"] by simp
  have k2: "take (B - 1) (drop B (keys n)) = map (\<lambda>kv. Some (fst kv)) (drop B kvs)"
    using take_map_drop[OF tk, of B] cfg by (simp add: algebra_simps)
  have v2: "take (B - 1) (drop B (vals n)) = map (\<lambda>kv. Some (snd kv)) (drop B kvs)"
    using take_map_drop[OF tv, of B] cfg by (simp add: algebra_simps)
  have c1: "take B (children n) = map Some (take B cs)"
    using take_map_take[OF tc, of B] by simp
  have c2: "take B (drop B (children n)) = map Some (drop B cs)"
    using take_map_drop[OF tc, of B] by simp
  have b16: "u16 (B - 1) = B - 1" using cfg by (simp add: u16_id)
  have arith: "2 * B - 1 - B = B - 1" "B - 1 \<le> 2 * B - 1" "B \<le> 2 * B - 1"
    using cfg by simp_all
  have ne: "cs \<noteq> []" using lcs cfg by auto
  show ?thesis
    using a alt u rk rv cfg b16 arith k1 v1 k2 v2 c1 c2 ne
    apply (simp add: split_node_def new_node_def upd_def blank_def copy_range_def len
        mult_2)
    apply (rule exI)
    apply (rule conjI)
     apply (rule refl)
    apply (simp add: cell_ok_def lcs len min_def mult_2)
    done
qed

lemma split_node_spec:
  assumes cfg: "1 \<le> B" "2 * B < 65536"
    and a: "heap st a = Some n" and ok: "cell_ok B n kvs cs" and len: "length kvs = 2 * B - 1"
    and lcs: "cs = [] \<or> length cs = 2 * B"
    and fresh: "\<forall>x \<ge> next_addr st. heap st x = None"
    and dist: "distinct cs" "a \<notin> set cs" and ex: "\<forall>c \<in> set cs. heap st c \<noteq> None"
  shows "\<exists>st' nl nr. split_node B st a =
        Some (st', next_addr st, next_addr st + 1, fst (kvs ! (B - 1)), snd (kvs ! (B - 1)))
      \<and> next_addr st' = next_addr st + 2 \<and> root st' = root st
      \<and> heap st' a = Some (n\<lparr> usage := 0 \<rparr>)
      \<and> heap st' (next_addr st) = Some nl \<and> cell_ok B nl (take (B - 1) kvs) (take B cs)
      \<and> parent nl = parent n
      \<and> heap st' (next_addr st + 1) = Some nr \<and> cell_ok B nr (drop B kvs) (drop B cs)
      \<and> parent nr = parent n
      \<and> (\<forall>j. j < B \<and> cs \<noteq> [] \<longrightarrow>
            heap st' (cs ! j) = map_option (\<lambda>m. m\<lparr> parent := Some (next_addr st), parent_idx := j \<rparr>)
                                  (heap st (cs ! j))
          \<and> heap st' (cs ! (B + j)) = map_option (\<lambda>m. m\<lparr> parent := Some (next_addr st + 1), parent_idx := j \<rparr>)
                                  (heap st (cs ! (B + j))))
      \<and> (\<forall>x. x \<notin> {a, next_addr st, next_addr st + 1} \<union> set cs \<longrightarrow> heap st' x = heap st x)"
proof (cases "cs = []")
  case True
  then show ?thesis
    using split_node_leaf[OF cfg a _ len fresh] ok by simp
next
  case False
  then have lcs': "length cs = 2 * B" using lcs by simp
  define l where "l = next_addr st"
  define r where "r = next_addr st + 1"
  from split_node_internal_pre[OF cfg a ok len lcs' fresh]
  obtain stm nl nr where stm: "split_node B st a =
        do { st' \<leftarrow> restamp_halves stm l r [0..<B];
             Some (st', l, r, fst (kvs ! (B - 1)), snd (kvs ! (B - 1))) }"
      "next_addr stm = next_addr st + 2" "root stm = root st"
      "heap stm a = Some (n\<lparr> usage := 0 \<rparr>)"
      "heap stm l = Some nl" "cell_ok B nl (take (B - 1) kvs) (take B cs)"
      "parent nl = parent n"
      "heap stm r = Some nr" "cell_ok B nr (drop B kvs) (drop B cs)"
      "parent nr = parent n"
      "\<forall>x. x \<notin> {a, l, r} \<longrightarrow> heap stm x = heap st x"
    unfolding l_def r_def by blast
  have old: "c < next_addr st" if "c \<in> set cs" for c
    using that ex fresh by (metis not_le)
  have nin: "l \<notin> set cs" "r \<notin> set cs"
    using old[of l] old[of r] by (auto simp: l_def r_def)
  have tl: "take B (children nl) = map Some (take B cs)"
    using stm(6) lcs' by (simp add: cell_ok_def)
  have tr: "take B (children nr) = map Some (drop B cs)"
    using stm(9) lcs' by (simp add: cell_ok_def)
  have exm: "\<forall>c \<in> set (take B cs @ drop B cs). heap stm c \<noteq> None"
    using ex stm(11) nin dist(2) by auto
  have "B < 65536" using cfg by simp
  from restamp_halves_spec[OF stm(5) stm(8) tl _ tr _ _ _ _ exm this, of 0]
  obtain st' where st': "restamp_halves stm l r [0..<B] = Some st'"
      "next_addr st' = next_addr stm" "root st' = root stm"
      "\<forall>j. j < B \<longrightarrow>
            heap st' (take B cs ! j) = map_option (\<lambda>m. m\<lparr> parent := Some l, parent_idx := j \<rparr>) (heap stm (take B cs ! j))
          \<and> heap st' (drop B cs ! j) = map_option (\<lambda>m. m\<lparr> parent := Some r, parent_idx := j \<rparr>) (heap stm (drop B cs ! j))"
      "\<forall>x. x \<notin> set (take B cs) \<union> set (drop B cs) \<longrightarrow> heap st' x = heap stm x"
    using lcs' dist nin by auto
  have sets: "set (take B cs) \<union> set (drop B cs) = set cs"
    by (metis append_take_drop_id set_append)
  have same: "heap stm c = heap st c" if "c \<in> set cs" for c
    using that stm(11) nin dist(2) by auto
  have "heap st' (cs ! j) = map_option (\<lambda>m. m\<lparr> parent := Some l, parent_idx := j \<rparr>) (heap st (cs ! j))
      \<and> heap st' (cs ! (B + j)) = map_option (\<lambda>m. m\<lparr> parent := Some r, parent_idx := j \<rparr>) (heap st (cs ! (B + j)))"
    if "j < B" for j
    using st'(4) that lcs' same by simp
  moreover have "heap st' x = heap st x" if "x \<notin> {a, l, r} \<union> set cs" for x
    using that st'(5) stm(11) sets by simp
  moreover have "heap st' a = Some (n\<lparr> usage := 0 \<rparr>)" "heap st' l = Some nl" "heap st' r = Some nr"
    using st'(5) sets stm(4,5,8) nin dist(2) by simp_all
  ultimately show ?thesis
    using stm st' unfolding l_def r_def by simp
qed

subsection \<open>Shifting an array\<close>

lemma move_backward_shiftr:
  "p \<le> u \<Longrightarrow> u < length xs \<Longrightarrow> move_backward xs p u (u + 1) = Some (shiftr xs p u)"
  by (simp add: move_backward_def shiftr_def)

lemma memmove_shiftr:
  "p \<le> m \<Longrightarrow> m < length xs \<Longrightarrow> memmove xs (p + 1) p (m - p) = Some (shiftr xs p m)"
  by (simp add: memmove_def shiftr_def)

lemma length_shiftr: "p \<le> m \<Longrightarrow> m < length xs \<Longrightarrow> length (shiftr xs p m) = length xs"
  by (simp add: shiftr_def)

lemma shiftr_nth_same: "p \<le> m \<Longrightarrow> m < length xs \<Longrightarrow> shiftr xs p m ! p = xs ! p"
  by (simp add: shiftr_def nth_append)

lemma take_shiftr_upd:
  assumes "p \<le> m" "m < length xs"
  shows "take (Suc m) ((shiftr xs p m)[p := y]) = take p (take m xs) @ y # drop p (take m xs)"
proof -
  have "(shiftr xs p m)[p := y] = take p xs @ y # take (m - p) (drop p xs) @ drop (Suc m) xs"
    using assms by (simp add: shiftr_def list_update_append take_Suc_conv_app_nth)
  moreover have "take (m - p) (drop p xs) = drop p (take m xs)"
    by (simp add: drop_take)
  ultimately have "(shiftr xs p m)[p := y]
      = (take p (take m xs) @ y # drop p (take m xs)) @ drop (Suc m) xs"
    using assms by simp
  moreover have "length (take p (take m xs) @ y # drop p (take m xs)) = Suc m"
    using assms by simp
  ultimately show ?thesis
    by (metis append_eq_conv_conj)
qed

lemma take_shiftr_upd2:
  assumes "p < m" "m < length xs"
  shows "take (Suc m) ((shiftr xs p m)[p := y, Suc p := z])
       = take p (take m xs) @ y # z # drop (Suc p) (take m xs)"
proof -
  have "take (Suc m) ((shiftr xs p m)[p := y, Suc p := z])
      = (take (Suc m) ((shiftr xs p m)[p := y]))[Suc p := z]"
    by (simp add: take_update_swap)
  also have "\<dots> = (take p (take m xs) @ y # drop p (take m xs))[Suc p := z]"
    using take_shiftr_upd[of p m xs y] assms by simp
  also have "\<dots> = take p (take m xs) @ y # (drop p (take m xs))[0 := z]"
    using assms by (simp add: list_update_append)
  also have "drop p (take m xs) = take m xs ! p # drop (Suc p) (take m xs)"
    using assms by (metis Cons_nth_drop_Suc length_take min.absorb4)
  finally show ?thesis by simp
qed

subsection \<open>\<^verbatim>\<open>adopt\<close> and \<^verbatim>\<open>insert\<close> in phases\<close>

lemma bind_if: "Option.bind (if c then x else y) f = (if c then Option.bind x f else Option.bind y f)"
  by simp

lemma adopt_eq:
  "adopt B st a l r key value position =
     do { st \<leftarrow> adopt_fill st a l r key value position; overflow B st a }"
  by (subst adopt.simps)
     (simp add: adopt_fill_def overflow_def propagate_def split_def
           cong: Option.bind_cong if_cong)

lemma key_ref_vals:
  "heap st a = Some n \<Longrightarrow>
   key_ref (st\<lparr> heap := (heap st)(a \<mapsto> n\<lparr> vals := vs \<rparr>) \<rparr>) r = key_ref st r"
  by (cases r) (auto simp: key_ref_def key_at_def)

lemma leaf_phases:
  "leaf_shift st a p \<bind> (\<lambda>s. leaf_store s a k v p) = leaf_fill st a k v p"
proof (cases "heap st a")
  case None
  then show ?thesis by (simp add: leaf_shift_def leaf_fill_def)
next
  case (Some n)
  show ?thesis
  proof (cases "move_backward (vals n) p (usage n) (usage n + 1)")
    case None
    then show ?thesis using Some by (simp add: leaf_shift_def leaf_fill_def)
  next
    case vs: (Some vs)
    show ?thesis
    proof (cases "move_backward (keys n) p (usage n) (usage n + 1)")
      case None
      then show ?thesis using Some vs by (simp add: leaf_shift_def leaf_fill_def upd_def)
    next
      case ks: (Some ks)
      show ?thesis
        using Some vs ks
        by (cases "wr vs p v"; cases "wr ks p k")
           (simp_all add: leaf_shift_def leaf_store_def leaf_fill_def upd_def)
    qed
  qed
qed

lemma leaf_phases_bind:
  "leaf_shift st a p \<bind> (\<lambda>s. leaf_store s a k v p \<bind> f) = leaf_fill st a k v p \<bind> f"
  by (simp add: leaf_phases[symmetric])

text \<open>\<^verbatim>\<open>insert\<close> on a node, by its phases.\<close>

lemma insert_node_eq:
  "insert_node B cmp st a key value =
     do { n \<leftarrow> heap st a;
          k \<leftarrow> key_ref st key;
          res \<leftarrow> linear_search B cmp n k;
          if res AND FOUND \<noteq> 0
          then do {
            original \<leftarrow> rd (vals n) (res AND FOUND_MASK);
            v \<leftarrow> val_ref st value;
            vs \<leftarrow> wr (vals n) (res AND FOUND_MASK) v;
            st \<leftarrow> upd st a (\<lambda>m. m\<lparr> vals := vs \<rparr>);
            Some (st, Some original) }
          else if IsInternal n
          then do { c \<leftarrow> rd (children n) (res AND GO_DOWN_MASK);
                    insert_node B cmp st c key value }
          else do { st1 \<leftarrow> leaf_shift st a (res AND GO_DOWN_MASK);
                    v \<leftarrow> val_ref st1 value;
                    k' \<leftarrow> key_ref st1 key;
                    st2 \<leftarrow> leaf_store st1 a k' v (res AND GO_DOWN_MASK);
                    st3 \<leftarrow> overflow B st2 a;
                    Some (st3, None) } }"
proof (cases "heap st a")
  case None
  then show ?thesis by (subst insert_node.simps) simp
next
  case (Some n)
  show ?thesis
  proof (cases "key_ref st key")
    case None
    then show ?thesis using Some by (subst insert_node.simps) simp
  next
    case k: (Some k)
    show ?thesis
    proof (cases "linear_search B cmp n k")
      case None
      then show ?thesis using Some k by (subst insert_node.simps) simp
    next
      case res: (Some res)
      show ?thesis
      proof (cases "res AND FOUND \<noteq> 0 \<or> IsInternal n")
        case True
        then show ?thesis using Some k res by (subst insert_node.simps) auto
      next
        case False
        define p where "p = res AND GO_DOWN_MASK"
        have lhs: "insert_node B cmp st a key value =
            do { vs \<leftarrow> move_backward (vals n) p (usage n) (usage n + 1);
                 st \<leftarrow> upd st a (\<lambda>m. m\<lparr> vals := vs \<rparr>);
                 n \<leftarrow> heap st a;
                 ks \<leftarrow> move_backward (keys n) p (usage n) (usage n + 1);
                 st \<leftarrow> upd st a (\<lambda>m. m\<lparr> keys := ks \<rparr>);
                 v \<leftarrow> val_ref st value;
                 n \<leftarrow> heap st a;
                 vs \<leftarrow> wr (vals n) p v;
                 st \<leftarrow> upd st a (\<lambda>m. m\<lparr> vals := vs \<rparr>);
                 k \<leftarrow> key_ref st key;
                 n \<leftarrow> heap st a;
                 ks \<leftarrow> wr (keys n) p k;
                 st \<leftarrow> upd st a (\<lambda>m. m\<lparr> keys := ks \<rparr>);
                 st \<leftarrow> upd st a (\<lambda>m. m\<lparr> usage := u16 (usage m + 1) \<rparr>);
                 st \<leftarrow> overflow B st a;
                 Some (st, None) }"
          using Some k res False
          by (subst insert_node.simps)
             (simp add: p_def overflow_def propagate_def split_def bind_if Let_def
                cong: Option.bind_cong if_cong)
        show ?thesis
        proof (cases "leaf_shift st a p")
          case None
          then show ?thesis
            using Some k res False lhs
            by (auto simp: p_def leaf_shift_def upd_def split: bind_splits)
        next
          case s1: (Some st1)
          then obtain n1 where n1: "heap st1 a = Some n1"
            using Some by (auto simp: leaf_shift_def upd_def split: bind_splits)
          show ?thesis
          proof (cases "val_ref st1 value")
            case None
            then show ?thesis
              using Some k res False lhs s1
              by (auto simp: p_def leaf_shift_def upd_def split: bind_splits)
          next
            case v: (Some v)
            have kr: "key_ref (st1\<lparr> heap := (heap st1)(a \<mapsto> n1\<lparr> vals := vs \<rparr>) \<rparr>) key
                = key_ref st1 key" for vs
              using key_ref_vals[OF n1] .
            show ?thesis
              using Some k res False lhs s1 v n1 kr
              by (cases "key_ref st1 key")
                 (auto simp: p_def leaf_shift_def leaf_store_def upd_def wr_def
                       split: bind_splits if_splits)
          qed
        qed
      qed
    qed
  qed
qed

text \<open>The same for arguments that are no slots of the tree.\<close>

lemma insert_node_temp:
  "insert_node B cmp st a (Temp key) (Temp value) =
     do { n \<leftarrow> heap st a;
          res \<leftarrow> linear_search B cmp n key;
          if res AND FOUND \<noteq> 0
          then do {
            original \<leftarrow> rd (vals n) (res AND FOUND_MASK);
            vs \<leftarrow> wr (vals n) (res AND FOUND_MASK) value;
            st \<leftarrow> upd st a (\<lambda>m. m\<lparr> vals := vs \<rparr>);
            Some (st, Some original) }
          else if IsInternal n
          then do { c \<leftarrow> rd (children n) (res AND GO_DOWN_MASK);
                    insert_node B cmp st c (Temp key) (Temp value) }
          else do { st \<leftarrow> leaf_fill st a key value (res AND GO_DOWN_MASK);
                    st \<leftarrow> overflow B st a;
                    Some (st, None) } }"
  by (subst insert_node_eq)
     (simp add: key_ref_def val_ref_def leaf_phases_bind cong: Option.bind_cong if_cong)

subsection \<open>Filling a slot\<close>

lemma leaf_fill_spec:
  assumes cfg: "2 \<le> B" "2 * B < 65536"
    and a: "heap st a = Some n" and ok: "cell_ok B n kvs cs" and len: "length kvs \<le> 2 * B - 2"
    and p: "p \<le> length kvs"
  shows "\<exists>n'. leaf_fill st a k v p = Some (st\<lparr> heap := (heap st)(a \<mapsto> n') \<rparr>)
      \<and> cell_ok B n' (take p kvs @ (k, v) # drop p kvs) cs
      \<and> parent n' = parent n \<and> parent_idx n' = parent_idx n"
proof -
  define u where "u = length kvs"
  have u: "usage n = u" "length (keys n) = 2 * B - 1" "length (vals n) = 2 * B - 1"
    using ok by (simp_all add: cell_ok_def u_def)
  have ult: "u < length (keys n)" "u < length (vals n)" "p \<le> u" "p < length (keys n)"
    "p < length (vals n)"
    using len p cfg u by (simp_all add: u_def)
  have tk: "take u (keys n) = map (\<lambda>kv. Some (fst kv)) kvs"
   and tv: "take u (vals n) = map (\<lambda>kv. Some (snd kv)) kvs"
    using ok by (simp_all add: cell_ok_def u_def)
  define n' where "n' = n\<lparr> vals := (shiftr (vals n) p u)[p := Some v],
      keys := (shiftr (keys n) p u)[p := Some k], usage := u + 1 \<rparr>"
  have u16: "u16 (u + 1) = u + 1"
    using len cfg by (simp add: u16_id u_def)
  have "leaf_fill st a k v p = Some (st\<lparr> heap := (heap st)(a \<mapsto> n') \<rparr>)"
    using a u ult u16
    by (simp add: leaf_fill_def move_backward_shiftr[simplified] wr_def length_shiftr upd_def n'_def)
  moreover have "cell_ok B n' (take p kvs @ (k, v) # drop p kvs) cs"
    using ok ult u take_shiftr_upd[OF ult(3,1), of "Some k"] take_shiftr_upd[OF ult(3,2), of "Some v"]
      tk tv p
    by (auto simp add: cell_ok_def n'_def length_shiftr u_def take_map drop_map min_def)
  ultimately show ?thesis
    by (auto simp: n'_def)
qed

lemma adopt_fill_pre:
  assumes cfg: "2 \<le> B" "2 * B < 65536"
    and a: "heap st a = Some n" and ok: "cell_ok B n kvs cs" and lcs: "length cs = length kvs + 1"
    and len: "length kvs \<le> 2 * B - 2" and p: "p \<le> length kvs"
    and stale: "heap st (cs ! p) = Some m" "\<not> IsInternal m \<or> usage m = 0"
    and lr: "heap st l = Some ml" "heap st r = Some mr"
    and dist: "distinct (a # l # r # cs)"
  shows "\<exists>stm. adopt_fill st a l r k v p =
        do { st \<leftarrow> restamp_from stm a p;
             n \<leftarrow> heap st a;
             vs \<leftarrow> wr (vals n) p v;
             ks \<leftarrow> wr (keys n) p k;
             upd st a (\<lambda>m. m\<lparr> vals := vs, keys := ks, usage := u16 (usage m + 1) \<rparr>) }
      \<and> next_addr stm = next_addr st \<and> root stm = root st
      \<and> heap stm a = Some (n\<lparr> vals := shiftr (vals n) p (length kvs),
                                keys := shiftr (keys n) p (length kvs),
                                children := (shiftr (children n) p (length cs))
                                              [p := Some l, Suc p := Some r] \<rparr>)
      \<and> heap stm (cs ! p) = None
      \<and> heap stm l = Some (ml\<lparr> parent := Some a \<rparr>)
      \<and> heap stm r = Some (mr\<lparr> parent := Some a \<rparr>)
      \<and> (\<forall>x. x \<notin> {a, cs ! p, l, r} \<longrightarrow> heap stm x = heap st x)"
proof -
  define u where "u = length kvs"
  have u: "usage n = u" "length (keys n) = 2 * B - 1" "length (vals n) = 2 * B - 1"
    "length (children n) = 2 * B" "length cs = Suc u"
    using ok lcs by (auto simp add: cell_ok_def u_def)
  have ult: "u < length (keys n)" "u < length (vals n)" "p \<le> u" "Suc u < length (children n)"
    "p \<le> Suc u" "p < length (children n)" "Suc p < length (children n)"
    using len p cfg u by (simp_all add: u_def)
  have tc: "take (Suc u) (children n) = map Some cs"
    using ok lcs by (simp add: cell_ok_def u_def)
  have cp: "children n ! p = Some (cs ! p)"
    using rd_take[OF tc, of p] u ult by (simp add: rd_def)
  have mm: "memmove (children n) (Suc p) p (Suc u - p) = Some (shiftr (children n) p (Suc u))"
    using memmove_shiftr[OF ult(5,4)] by simp
  have cpin: "cs ! p \<in> set cs" using u ult by simp
  have ne: "cs ! p \<noteq> a" "cs ! p \<noteq> l" "cs ! p \<noteq> r" "a \<noteq> l" "a \<noteq> r" "l \<noteq> r"
    using dist cpin by auto
  show ?thesis
    using a u ult stale lr ne
    apply (simp add: adopt_fill_def move_backward_shiftr[simplified] mm upd_def rd_def wr_def
        length_shiftr shiftr_nth_same cp delete_flat)
    apply (rule exI)
    apply (rule conjI)
     apply (rule refl)
    apply (auto simp add: u_def)
    done
qed

lemma distinct_take_drop:
  assumes "distinct xs" "i \<le> j"
  shows "set (take i xs) \<inter> set (drop j xs) = {}"
proof -
  have "distinct (take i xs @ drop i xs)" using assms(1) by simp
  then have "set (take i xs) \<inter> set (drop i xs) = {}" by (simp only: distinct_append)
  moreover have "set (drop j xs) \<subseteq> set (drop i xs)"
    using assms(2) by (rule set_drop_subset_set_drop)
  ultimately show ?thesis by blast
qed

lemma adopt_fill_spec:
  assumes cfg: "2 \<le> B" "2 * B < 65536"
    and a: "heap st a = Some n" and ok: "cell_ok B n kvs cs" and lcs: "length cs = length kvs + 1"
    and len: "length kvs \<le> 2 * B - 2" and p: "p \<le> length kvs"
    and stale: "heap st (cs ! p) = Some m" "\<not> IsInternal m \<or> usage m = 0"
    and lr: "heap st l = Some ml" "heap st r = Some mr"
    and dist: "distinct (a # l # r # cs)" and ex: "\<forall>c \<in> set cs. heap st c \<noteq> None"
  shows "\<exists>st' n'. adopt_fill st a l r k v p = Some st'
      \<and> next_addr st' = next_addr st \<and> root st' = root st
      \<and> heap st' a = Some n'
      \<and> cell_ok B n' (take p kvs @ (k, v) # drop p kvs) (take p cs @ l # r # drop (Suc p) cs)
      \<and> parent n' = parent n \<and> parent_idx n' = parent_idx n
      \<and> heap st' (cs ! p) = None
      \<and> heap st' l = Some (ml\<lparr> parent := Some a, parent_idx := p \<rparr>)
      \<and> heap st' r = Some (mr\<lparr> parent := Some a, parent_idx := Suc p \<rparr>)
      \<and> (\<forall>j. Suc p \<le> j \<and> j < length cs \<longrightarrow>
            heap st' (cs ! j) = map_option (\<lambda>m. m\<lparr> parent_idx := Suc j \<rparr>) (heap st (cs ! j)))
      \<and> (\<forall>x. x \<notin> {a, l, r} \<union> set (drop p cs) \<longrightarrow> heap st' x = heap st x)"
proof -
  define u where "u = length kvs"
  define cs' where "cs' = take p cs @ l # r # drop (Suc p) cs"
  define n2 where "n2 = n\<lparr> vals := shiftr (vals n) p (length kvs),
                            keys := shiftr (keys n) p (length kvs),
                            children := (shiftr (children n) p (length cs))
                                          [p := Some l, Suc p := Some r] \<rparr>"
  from adopt_fill_pre[OF cfg a ok lcs len p stale lr dist, of k v]
  obtain stm where stm: "adopt_fill st a l r k v p =
        do { st \<leftarrow> restamp_from stm a p;
             n \<leftarrow> heap st a;
             vs \<leftarrow> wr (vals n) p v;
             ks \<leftarrow> wr (keys n) p k;
             upd st a (\<lambda>m. m\<lparr> vals := vs, keys := ks, usage := u16 (usage m + 1) \<rparr>) }"
      "next_addr stm = next_addr st" "root stm = root st"
      "heap stm a = Some n2" "heap stm (cs ! p) = None"
      "heap stm l = Some (ml\<lparr> parent := Some a \<rparr>)"
      "heap stm r = Some (mr\<lparr> parent := Some a \<rparr>)"
      "\<forall>x. x \<notin> {a, cs ! p, l, r} \<longrightarrow> heap stm x = heap st x"
    unfolding n2_def by blast
  have u: "usage n = u" "length (keys n) = 2 * B - 1" "length (vals n) = 2 * B - 1"
    "length (children n) = 2 * B" "length cs = Suc u"
    using ok lcs by (auto simp add: cell_ok_def u_def)
  have ult: "u < length (keys n)" "u < length (vals n)" "p \<le> u" "Suc u < length (children n)"
    "p < Suc u" "p < length (keys n)" "p < length (vals n)"
    using len p cfg u by (simp_all add: u_def)
  have tk: "take u (keys n) = map (\<lambda>kv. Some (fst kv)) kvs"
   and tv: "take u (vals n) = map (\<lambda>kv. Some (snd kv)) kvs"
   and tc: "take (Suc u) (children n) = map Some cs"
    using ok lcs by (simp_all add: cell_ok_def u_def)
  have un2: "usage n2 = u" by (simp add: n2_def u)
  have tc2: "take (usage n2 + 2) (children n2) = map Some cs'"
    using take_shiftr_upd2[OF ult(5,4), of "Some l" "Some r"] tc u
    by (simp add: n2_def cs'_def take_map drop_map)
  have lcs': "length cs' = usage n2 + 2"
    using u ult by (simp add: cs'_def un2)
  have dcs': "distinct cs'" "a \<notin> set cs'"
    using dist distinct_take_drop[of cs p "Suc p"]
    by (auto simp: cs'_def dest: in_set_takeD in_set_dropD)
  have cpin: "cs ! p \<in> set cs" using u ult by simp
  have cpnot: "cs ! p \<notin> set (take p cs)" "cs ! p \<notin> set (drop (Suc p) cs)"
    using dist u ult
    by (metis (no_types, lifting) Cons_nth_drop_Suc append_take_drop_id distinct.simps(2)
        distinct_append UnI2 disjoint_iff list.set_intros(1) set_append)+
  have exm: "\<forall>c \<in> set cs'. heap stm c \<noteq> None"
  proof
    fix c assume c: "c \<in> set cs'"
    then consider "c = l" | "c = r" | "c \<in> set (take p cs) \<union> set (drop (Suc p) cs)"
      by (auto simp: cs'_def)
    then show "heap stm c \<noteq> None"
    proof cases
      case 3
      then have "c \<in> set cs" "c \<noteq> cs ! p"
        using cpnot by (auto dest: in_set_takeD in_set_dropD)
      then have "heap stm c = heap st c"
        using stm(8) dist by auto
      then show ?thesis using ex \<open>c \<in> set cs\<close> by simp
    qed (simp_all add: stm)
  qed
  have small: "usage n2 + 2 < 65536" using un2 len cfg by (simp add: u_def)
  from restamp_from_spec[OF stm(4) tc2 lcs' dcs' exm small, of p]
  obtain st3 where st3: "restamp_from stm a p = Some st3"
      "next_addr st3 = next_addr stm" "root st3 = root stm"
      "\<forall>j. p \<le> j \<and> j < length cs' \<longrightarrow>
            heap st3 (cs' ! j) = map_option (\<lambda>m. m\<lparr> parent_idx := j \<rparr>) (heap stm (cs' ! j))"
      "\<forall>x. x \<notin> set (drop p cs') \<longrightarrow> heap st3 x = heap stm x"
    by blast
  have dr: "drop p cs' = l # r # drop (Suc p) cs"
    using u ult by (simp add: cs'_def)
  have a3: "heap st3 a = Some n2"
    using st3(5) dcs'(2) stm(4) by (metis in_set_dropD)
  define n' where "n' = n2\<lparr> vals := (vals n2)[p := Some v], keys := (keys n2)[p := Some k],
      usage := u + 1 \<rparr>"
  define st' where "st' = st3\<lparr> heap := (heap st3)(a \<mapsto> n') \<rparr>"
  have u16: "u16 (u + 1) = u + 1"
    using len cfg by (simp add: u16_id u_def)
  have fin: "adopt_fill st a l r k v p = Some st'"
    using stm(1) st3(1) a3 ult u un2 u16
    by (simp add: wr_def upd_def n'_def st'_def n2_def length_shiftr u_def)
  have cok: "cell_ok B n' (take p kvs @ (k, v) # drop p kvs) cs'"
    using ok ult u take_shiftr_upd[OF ult(3,1), of "Some k"] take_shiftr_upd[OF ult(3,2), of "Some v"]
      tk tv p tc2 lcs' un2
    by (auto simp add: cell_ok_def n'_def n2_def length_shiftr u_def take_map drop_map cs'_def)
  have nth_l: "cs' ! p = l" and nth_r: "cs' ! Suc p = r"
    using u ult by (simp_all add: cs'_def nth_append)
  have hl: "heap st' l = Some (ml\<lparr> parent := Some a, parent_idx := p \<rparr>)"
    using st3(4)[rule_format, of p] lcs' un2 ult nth_l stm(6) dist by (simp add: st'_def)
  have hr: "heap st' r = Some (mr\<lparr> parent := Some a, parent_idx := Suc p \<rparr>)"
    using st3(4)[rule_format, of "Suc p"] lcs' un2 ult nth_r stm(7) dist by (simp add: st'_def)
  have hj: "heap st' (cs ! j) = map_option (\<lambda>m. m\<lparr> parent_idx := Suc j \<rparr>) (heap st (cs ! j))"
    if "Suc p \<le> j" "j < length cs" for j
  proof -
    have nth: "cs' ! Suc j = cs ! j"
      using that u ult by (simp add: cs'_def nth_append min_def)
    have cj: "cs ! j \<in> set cs" using that by simp
    have "cs ! j \<noteq> cs ! p"
      using that dist u ult by (simp add: nth_eq_iff_index_eq)
    then have "heap stm (cs ! j) = heap st (cs ! j)"
      using stm(8) cj dist by auto
    then show ?thesis
      using st3(4)[rule_format, of "Suc j"] that lcs' un2 u nth cj dist by (auto simp add: st'_def)
  qed
  have hx: "heap st' x = heap st x" if "x \<notin> {a, l, r} \<union> set (drop p cs)" for x
  proof -
    have "drop p cs = cs ! p # drop (Suc p) cs"
      using u ult by (simp add: Cons_nth_drop_Suc)
    then have "x \<notin> set (drop p cs')" "x \<notin> {a, cs ! p, l, r}"
      using that by (auto simp: dr)
    then show ?thesis
      using st3(5) stm(8) that by (simp add: st'_def)
  qed
  have hp: "heap st' (cs ! p) = None"
    using st3(5) stm(5) cpnot dist cpin by (auto simp add: st'_def dr)
  show ?thesis
    using fin cok hl hr hj hx hp st3 stm
    by (auto simp add: st'_def n'_def n2_def cs'_def)
qed

subsection \<open>A new root\<close>

lemma take_replicate_upd1:
  "0 < m \<Longrightarrow> take (Suc 0) ((replicate m x)[0 := y]) = [y]"
  by (cases m) simp_all

lemma take_replicate_upd2:
  "Suc 0 < m \<Longrightarrow> take (Suc (Suc 0)) ((replicate m x)[0 := y, Suc 0 := z]) = [y, z]"
  by (cases m; cases "m - 1") simp_all

lemma new_root_spec:
  assumes cfg: "2 \<le> B" "2 * B < 65536"
    and rt: "root st = Some a" and a: "heap st a = Some n" "\<not> IsInternal n \<or> usage n = 0"
    and lr: "heap st l = Some ml" "heap st r = Some mr" and ne: "a \<noteq> l" "a \<noteq> r" "l \<noteq> r"
    and fresh: "\<forall>x \<ge> next_addr st. heap st x = None"
  shows "\<exists>st' ns. propagate B st None pidx l r k v = Some st'
      \<and> next_addr st' = next_addr st + 1 \<and> root st' = Some (next_addr st)
      \<and> heap st' (next_addr st) = Some ns \<and> cell_ok B ns [(k, v)] [l, r] \<and> parent ns = None
      \<and> parent_idx ns = 0
      \<and> heap st' a = None
      \<and> heap st' l = Some (ml\<lparr> parent := Some (next_addr st), parent_idx := 0 \<rparr>)
      \<and> heap st' r = Some (mr\<lparr> parent := Some (next_addr st), parent_idx := 1 \<rparr>)
      \<and> (\<forall>x. x \<notin> {a, l, r, next_addr st} \<longrightarrow> heap st' x = heap st x)"
proof -
  have old: "a < next_addr st" "l < next_addr st" "r < next_addr st"
    using a lr fresh by (metis not_le option.distinct(1))+
  have pos: "0 < 2 * B - Suc 0" "Suc 0 < 2 * B" "0 < 2 * B"
    using cfg by simp_all
  show ?thesis
    using rt a lr ne old pos cfg
    by (simp add: propagate_def singleton_def delete_flat new_node_def upd_def blank_def wr_def
        cell_ok_def take_replicate_upd1 take_replicate_upd2)
qed

subsection \<open>Representation and unchanged cells\<close>

lemma addr_of_in_addrs [simp]: "addr_of t \<in> set (addrs t)"
  by (cases t) simp

lemma cell_ok_links [simp]:
  "cell_ok B (n\<lparr> parent := q \<rparr>) kvs cs = cell_ok B n kvs cs"
  "cell_ok B (n\<lparr> parent_idx := i \<rparr>) kvs cs = cell_ok B n kvs cs"
  by (simp_all add: cell_ok_def)

lemma subtree_addrs: "t \<in> set ts \<Longrightarrow> set (addrs t) \<subseteq> set (concat (map addrs ts))"
  by auto

lemma repr_frame: "repr B h t \<Longrightarrow> \<forall>x \<in> set (addrs t). h' x = h x \<Longrightarrow> repr B h' t"
proof (induction t)
  case (T a kvs ts)
  have "repr B h' t" if "t \<in> set ts" for t
    using T.IH[OF that] T.prems that by auto
  moreover have "linked h' (addr_of (ts ! i)) (Some a) i" if "i < length ts" for i
  proof -
    have "addr_of (ts ! i) \<in> set (addrs (T a kvs ts))"
      using that by (auto intro!: bexI[of _ "ts ! i"])
    from T.prems(2)[rule_format, OF this]
    have "h' (addr_of (ts ! i)) = h (addr_of (ts ! i))" .
    then show ?thesis
      using T.prems(1) that by (simp add: linked_def)
  qed
  ultimately show ?case
    using T.prems by simp
qed

lemma repr_cell: "repr B h (T a kvs ts) \<Longrightarrow> \<exists>n. h a = Some n \<and> cell_ok B n kvs (map addr_of ts)"
  by (auto split: option.splits)

lemma repr_live: "repr B h t \<Longrightarrow> x \<in> set (addrs t) \<Longrightarrow> h x \<noteq> None"
proof (induction t)
  case (T a kvs ts)
  then show ?case by (auto split: option.splits)
qed

lemma repr_moved:
  assumes "repr B h t" "distinct (addrs t)" "h (addr_of t) = Some m"
    "h' (addr_of t) = Some (m\<lparr> parent := q, parent_idx := i \<rparr>)"
    "\<forall>x \<in> set (addrs t). x \<noteq> addr_of t \<longrightarrow> h' x = h x"
  shows "repr B h' t \<and> linked h' (addr_of t) q i"
proof (cases t)
  case (T a kvs ts)
  have sub: "h' x = h x" if "t' \<in> set ts" "x \<in> set (addrs t')" for t' x
  proof -
    have "x \<in> set (concat (map addrs ts))" using that by auto
    then have "x \<noteq> a" "x \<in> set (addrs t)"
      using assms(2) T by auto
    then show ?thesis using assms(5)[rule_format, of x] T by simp
  qed
  have "repr B h' t'" if "t' \<in> set ts" for t'
    using repr_frame[of B h t' h'] sub[OF that] assms(1) T that by auto
  moreover have "linked h' (addr_of (ts ! j)) (Some a) j" if "j < length ts" for j
    using sub[of "ts ! j" "addr_of (ts ! j)"] that assms(1) T by (simp add: linked_def)
  ultimately show ?thesis
    using assms T by (auto simp: linked_def)
qed

lemma repr_same:
  assumes "repr B h t" "distinct (addrs t)" "linked h (addr_of t) q i"
    "\<forall>x \<in> set (addrs t). h' x = h x"
  shows "repr B h' t \<and> linked h' (addr_of t) q i"
  using repr_frame[OF assms(1,4)] assms(3,4) by (simp add: linked_def)

subsection \<open>Addresses of the subtrees\<close>

lemma concat_unique:
  "distinct (concat xss) \<Longrightarrow> xs \<in> set xss \<Longrightarrow> ys \<in> set xss \<Longrightarrow> x \<in> set xs \<Longrightarrow> x \<in> set ys
   \<Longrightarrow> xs = ys"
  by (induction xss) auto

lemma addrs_hd: "hd (addrs t) = addr_of t"
  by (cases t) simp

lemma subtree_unique:
  assumes "distinct (concat (map addrs ts))" "t \<in> set ts" "t' \<in> set ts"
    "x \<in> set (addrs t)" "x \<in> set (addrs t')"
  shows "addr_of t = addr_of t'"
proof -
  have "addrs t = addrs t'"
    using concat_unique[OF assms(1), of "addrs t" "addrs t'" x] assms(2-5) by auto
  then show ?thesis by (metis addrs_hd)
qed

lemma inner_not_root:
  assumes "distinct (concat (map addrs ts))" "t \<in> set ts" "x \<in> set (addrs t)" "x \<noteq> addr_of t"
  shows "x \<notin> set (map addr_of ts)"
proof
  assume "x \<in> set (map addr_of ts)"
  then obtain t' where t': "t' \<in> set ts" "x = addr_of t'" by auto
  then have "x \<in> set (addrs t')" by simp
  from subtree_unique[OF assms(1,2) t'(1) assms(3) this] t'(2) assms(4)
  show False by simp
qed

lemma roots_distinct:
  "distinct (concat (map addrs ts)) \<Longrightarrow> distinct (map addr_of ts)"
proof (induction ts)
  case Nil
  then show ?case by simp
next
  case (Cons t ts)
  have "addr_of t \<notin> set (map addr_of ts)"
  proof
    assume "addr_of t \<in> set (map addr_of ts)"
    then obtain t' where "t' \<in> set ts" "addr_of t = addr_of t'" by auto
    then have "addr_of t \<in> set (addrs t')" by (metis addr_of_in_addrs)
    then have "addr_of t \<in> set (concat (map addrs ts))"
      using \<open>t' \<in> set ts\<close> by auto
    moreover have "set (addrs t) \<inter> set (concat (map addrs ts)) = {}"
      using Cons.prems by simp
    moreover have "addr_of t \<in> set (addrs t)" by simp
    ultimately show False by blast
  qed
  then show ?case using Cons by simp
qed

lemma roots_subset: "set (map addr_of ts) \<subseteq> set (concat (map addrs ts))"
  by auto

subsection \<open>Evolution of states\<close>

lemma evolves_trans:
  assumes "evolves st A st1 A1" "evolves st1 A1 st2 A2"
  shows "evolves st A st2 A2"
  unfolding evolves_def
proof (intro conjI allI impI)
  show "next_addr st \<le> next_addr st2" "root st2 = root st"
    using assms by (simp_all add: evolves_def)
  show "A2 \<subseteq> A \<union> {next_addr st..<next_addr st2}"
    using assms by (fastforce simp: evolves_def)
next
  fix x assume x: "x \<notin> A \<and> x < next_addr st"
  then have "x \<notin> A1" "x < next_addr st1"
    using assms(1) by (auto simp: evolves_def)
  then show "heap st2 x = heap st x"
    using assms x by (simp add: evolves_def)
next
  fix x assume x: "(x \<in> A \<or> next_addr st \<le> x) \<and> x \<notin> A2"
  show "heap st2 x = None"
  proof (cases "x \<in> A1 \<or> next_addr st1 \<le> x")
    case True
    then show ?thesis using assms(2) x by (simp add: evolves_def)
  next
    case False
    then have "heap st1 x = None" "heap st2 x = heap st1 x"
      using assms x by (simp_all add: evolves_def)
    then show ?thesis by simp
  qed
qed

lemma evolves_lift:
  assumes "evolves st A st' A'" "A \<subseteq> C"
  shows "evolves st C st' ((C - A) \<union> A')"
  using assms unfolding evolves_def by (intro conjI allI impI) auto

lemma evolves_alloc:
  assumes "alloc_ok st" "evolves st A st' A'" "A \<subseteq> {..<next_addr st}"
  shows "alloc_ok st'" "A' \<subseteq> {..<next_addr st'}"
proof -
  show 1: "A' \<subseteq> {..<next_addr st'}"
    using assms(2,3) by (fastforce simp: evolves_def)
  show "alloc_ok st'"
    unfolding alloc_ok_def
  proof (intro allI impI)
    fix x assume "next_addr st' \<le> x"
    then have "x \<notin> A'" "next_addr st \<le> x"
      using 1 assms(2) by (auto simp: evolves_def)
    then show "heap st' x = None"
      using assms(2) by (simp add: evolves_def)
  qed
qed

subsection \<open>A full node is split\<close>

lemma overflow_stay: "heap st a = Some n \<Longrightarrow> usage n \<noteq> 2 * B - 1 \<Longrightarrow> overflow B st a = Some st"
  by (simp add: overflow_def)

lemma bal_children: "bal h (T a kvs ts) \<Longrightarrow> ts' \<noteq> [] \<Longrightarrow> set ts' \<subseteq> set ts \<Longrightarrow> bal h (T b kvs' ts')"
  by (cases h) auto

lemma bal_leaf: "bal h (T a kvs []) \<Longrightarrow> bal h (T b kvs' [])"
  by (cases h) auto

lemma overflow_split:
  assumes cfg: "2 \<le> B" "2 * B < 65536"
    and at: "tree_at B st (T a kvs ts) h"
    and sz: "\<forall>t \<in> set ts. sized B t" and len: "length kvs = 2 * B - 1"
    and lts: "ts \<noteq> [] \<longrightarrow> length ts = 2 * B"
    and lk: "linked (heap st) a par pidx"
  shows "\<exists>st1 sl sr. overflow B st a =
        propagate B st1 par pidx (addr_of sl) (addr_of sr) (fst (kvs ! (B - 1))) (snd (kvs ! (B - 1)))
      \<and> splits B st (T a kvs ts) st1 sl sr h par pidx
      \<and> inorder sl @ kvs ! (B - 1) # inorder sr = inorder (T a kvs ts)
      \<and> sl = T (next_addr st) (take (B - 1) kvs) (take B ts)
      \<and> sr = T (next_addr st + 1) (drop B kvs) (drop B ts)"
proof -
  define cs where "cs = map addr_of ts"
  define l where "l = next_addr st"
  define r where "r = next_addr st + 1"
  have al: "alloc_ok st" and rp: "repr B (heap st) (T a kvs ts)"
    and di: "distinct (addrs (T a kvs ts))" and sub: "set (addrs (T a kvs ts)) \<subseteq> {..<next_addr st}"
    and bl: "bal h (T a kvs ts)"
    using at by (simp_all add: tree_at_def)
  obtain n where n: "heap st a = Some n" "cell_ok B n kvs cs"
    using repr_cell[OF rp] by (auto simp: cs_def)
  have dc: "distinct (concat (map addrs ts))" and anc: "a \<notin> set (concat (map addrs ts))"
    using di by simp_all
  have dcs: "distinct cs" using roots_distinct[OF dc] by (simp add: cs_def)
  have acs: "a \<notin> set cs" using anc roots_subset[of ts] by (auto simp: cs_def)
  have live: "\<forall>c \<in> set cs. heap st c \<noteq> None"
  proof
    fix c assume "c \<in> set cs"
    then have "c \<in> set (addrs (T a kvs ts))" using roots_subset[of ts] by (auto simp: cs_def)
    then show "heap st c \<noteq> None" using repr_live[OF rp] by blast
  qed
  have lcs: "cs = [] \<or> length cs = 2 * B" using lts by (auto simp: cs_def)
  have fresh: "\<forall>x \<ge> next_addr st. heap st x = None" using al by (simp add: alloc_ok_def)
  have cfg1: "1 \<le> B" using cfg by simp
  from split_node_spec[OF cfg1 cfg(2) n len lcs fresh dcs acs live]
  obtain st1 nl nr where st1:
      "split_node B st a = Some (st1, l, r, fst (kvs ! (B - 1)), snd (kvs ! (B - 1)))"
      "next_addr st1 = next_addr st + 2" "root st1 = root st"
      "heap st1 a = Some (n\<lparr> usage := 0 \<rparr>)"
      "heap st1 l = Some nl" "cell_ok B nl (take (B - 1) kvs) (take B cs)" "parent nl = parent n"
      "heap st1 r = Some nr" "cell_ok B nr (drop B kvs) (drop B cs)" "parent nr = parent n"
      "\<forall>j. j < B \<and> cs \<noteq> [] \<longrightarrow>
            heap st1 (cs ! j) = map_option (\<lambda>m. m\<lparr> parent := Some l, parent_idx := j \<rparr>) (heap st (cs ! j))
          \<and> heap st1 (cs ! (B + j)) = map_option (\<lambda>m. m\<lparr> parent := Some r, parent_idx := j \<rparr>) (heap st (cs ! (B + j)))"
      "\<forall>x. x \<notin> {a, l, r} \<union> set cs \<longrightarrow> heap st1 x = heap st x"
    unfolding l_def r_def by blast
  define sl where "sl = T l (take (B - 1) kvs) (take B ts)"
  define sr where "sr = T r (drop B kvs) (drop B ts)"
  have old: "x < next_addr st" if "x \<in> set (addrs (T a kvs ts))" for x
    using sub that by auto
  have lr: "l \<notin> set (addrs (T a kvs ts))" "r \<notin> set (addrs (T a kvs ts))" "l \<noteq> r"
    using old[of l] old[of r] by (auto simp: l_def r_def)
  have par: "parent n = par" "parent_idx n = pidx"
    using lk n by (simp_all add: linked_def)
  have un: "usage n = 2 * B - 1" using n(2) len by (simp add: cell_ok_def)
  have eq: "overflow B st a =
        propagate B st1 par pidx (addr_of sl) (addr_of sr) (fst (kvs ! (B - 1))) (snd (kvs ! (B - 1)))"
    using n(1) un st1(1,4) par by (simp add: overflow_def sl_def sr_def split_def)
  \<comment> \<open>the moved children\<close>
  have inner: "heap st1 x = heap st x"
    if "t \<in> set ts" "x \<in> set (addrs t)" "x \<noteq> addr_of t" for t x
  proof -
    have "x \<in> set (concat (map addrs ts))" using that by auto
    then have "x \<noteq> a" "x \<noteq> l" "x \<noteq> r"
      using anc lr by auto
    moreover have "x \<notin> set cs"
      using inner_not_root[OF dc that] by (simp add: cs_def)
    ultimately show ?thesis using st1(12) by simp
  qed
  have moved: "repr B (heap st1) (ts ! i)
      \<and> linked (heap st1) (addr_of (ts ! i)) (Some (if i < B then l else r)) (if i < B then i else i - B)"
    if i: "i < length ts" for i
  proof -
    have ne: "ts \<noteq> []" "cs \<noteq> []" "length ts = 2 * B" "length cs = 2 * B"
      using i lts by (auto simp: cs_def)
    have tin: "ts ! i \<in> set ts" using i by simp
    have r0: "repr B (heap st) (ts ! i)" using rp tin by simp
    have d0: "distinct (addrs (ts ! i))" using dc tin by (auto simp: distinct_concat_iff)
    have ci: "cs ! i = addr_of (ts ! i)" using i by (simp add: cs_def)
    obtain m where m: "heap st (addr_of (ts ! i)) = Some m"
      using repr_live[OF r0, of "addr_of (ts ! i)"] by auto
    have "heap st1 (addr_of (ts ! i))
        = Some (m\<lparr> parent := Some (if i < B then l else r), parent_idx := (if i < B then i else i - B) \<rparr>)"
    proof (cases "i < B")
      case True
      then show ?thesis using st1(11)[rule_format, of i] ne ci m by simp
    next
      case False
      then have "i - B < B" "B + (i - B) = i" using i ne by simp_all
      then show ?thesis using st1(11)[rule_format, of "i - B"] ne ci m False by simp
    qed
    from repr_moved[of B "heap st" "ts ! i" m "heap st1", OF r0 d0 m this] inner[OF tin]
    show ?thesis by blast
  qed
  have map_take: "map addr_of (take B ts) = take B cs" "map addr_of (drop B ts) = drop B cs"
    by (simp_all add: cs_def take_map drop_map)
  have repr_l: "repr B (heap st1) sl"
  proof -
    have "repr B (heap st1) t" if "t \<in> set (take B ts)" for t
      using that moved by (metis in_set_conv_nth in_set_takeD)
    moreover have "linked (heap st1) (addr_of (take B ts ! i)) (Some l) i" if "i < length (take B ts)" for i
      using that moved[of i] by simp
    ultimately show ?thesis
      using st1(5,6) by (simp add: sl_def map_take)
  qed
  have repr_r: "repr B (heap st1) sr"
  proof -
    have "repr B (heap st1) t" if "t \<in> set (drop B ts)" for t
      using that moved by (metis in_set_conv_nth in_set_dropD)
    moreover have "linked (heap st1) (addr_of (drop B ts ! i)) (Some r) i" if "i < length (drop B ts)" for i
    proof -
      have "B + i < length ts" "length ts = 2 * B" using that lts by auto
      then show ?thesis using moved[of "B + i"] by simp
    qed
    ultimately show ?thesis
      using st1(8,9) by (simp add: sr_def map_take)
  qed
  have al1: "alloc_ok st1"
    unfolding alloc_ok_def
  proof (intro allI impI)
    fix x assume "next_addr st1 \<le> x"
    then have x: "next_addr st + 2 \<le> x" using st1(2) by simp
    have "x \<notin> set (addrs (T a kvs ts))"
      using old[of x] x by auto
    then have "x \<noteq> a" "x \<notin> set cs"
      using roots_subset[of ts] by (auto simp: cs_def)
    moreover have "x \<noteq> l" "x \<noteq> r"
      using x by (simp_all add: l_def r_def)
    ultimately have "x \<notin> {a, l, r} \<union> set cs" by simp
    then show "heap st1 x = None" using st1(12) fresh x by simp
  qed
  have cat: "set (concat (map addrs (take B ts))) \<union> set (concat (map addrs (drop B ts)))
      = set (concat (map addrs ts))"
    by (metis append_take_drop_id concat_append map_append set_append)
  have dcat: "distinct (concat (map addrs (take B ts)) @ concat (map addrs (drop B ts)))"
    using dc by (metis append_take_drop_id concat_append map_append)
  have di_l: "distinct (addrs sl)" and di_r: "distinct (addrs sr)"
    and disj: "set (addrs sl) \<inter> set (addrs sr) = {}"
    and ain: "a \<notin> set (addrs sl) \<union> set (addrs sr)"
    using dcat lr anc cat by (auto simp: sl_def sr_def)
  have oldc: "y < next_addr st1" if "y \<in> set (concat (map addrs ts))" for y
    using old[of y] that st1(2) by simp
  have sub_l: "set (addrs sl) \<subseteq> {..<next_addr st1}" and sub_r: "set (addrs sr) \<subseteq> {..<next_addr st1}"
  proof -
    have "set (concat (map addrs (take B ts))) \<subseteq> {..<next_addr st1}"
      "set (concat (map addrs (drop B ts))) \<subseteq> {..<next_addr st1}"
      using cat oldc by blast+
    then show "set (addrs sl) \<subseteq> {..<next_addr st1}" "set (addrs sr) \<subseteq> {..<next_addr st1}"
      using st1(2) by (simp_all add: sl_def sr_def l_def r_def)
  qed
  have bal_l: "bal h sl" and bal_r: "bal h sr"
  proof -
    show "bal h sl"
    proof (cases "ts = []")
      case True
      then show ?thesis using bl bal_leaf by (simp add: sl_def)
    next
      case False
      then have "take B ts \<noteq> []" using lts cfg by auto
      then show ?thesis using bal_children[OF bl, of "take B ts"] by (auto simp: sl_def dest: in_set_takeD)
    qed
    show "bal h sr"
    proof (cases "ts = []")
      case True
      then show ?thesis using bl bal_leaf by (simp add: sr_def)
    next
      case False
      then have "drop B ts \<noteq> []" using lts cfg by auto
      then show ?thesis using bal_children[OF bl, of "drop B ts"] by (auto simp: sr_def dest: in_set_dropD)
    qed
  qed
  have sz_l: "sized B sl" and sz_r: "sized B sr"
    using sz len lts cfg by (auto simp: sl_def sr_def dest: in_set_takeD in_set_dropD)
  have ev: "evolves st (set (addrs (T a kvs ts))) st1
      (insert (addr_of (T a kvs ts)) (set (addrs sl) \<union> set (addrs sr)))"
    unfolding evolves_def
  proof (intro conjI allI impI)
    show "next_addr st \<le> next_addr st1" "root st1 = root st"
      using st1 by simp_all
    show "insert (addr_of (T a kvs ts)) (set (addrs sl) \<union> set (addrs sr))
        \<subseteq> set (addrs (T a kvs ts)) \<union> {next_addr st..<next_addr st1}"
      using cat st1(2) by (auto simp: sl_def sr_def l_def r_def)
  next
    fix x assume "x \<notin> set (addrs (T a kvs ts)) \<and> x < next_addr st"
    then have "x \<notin> {a, l, r} \<union> set cs"
      using roots_subset[of ts] by (auto simp: l_def r_def cs_def)
    then show "heap st1 x = heap st x" using st1(12) by simp
  next
    fix x assume x: "(x \<in> set (addrs (T a kvs ts)) \<or> next_addr st \<le> x)
        \<and> x \<notin> insert (addr_of (T a kvs ts)) (set (addrs sl) \<union> set (addrs sr))"
    then have "x \<notin> set (addrs (T a kvs ts))" "x \<noteq> l" "x \<noteq> r"
      using cat by (auto simp: sl_def sr_def)
    then have "next_addr st1 \<le> x" using x st1(2) by (auto simp: l_def r_def)
    then show "heap st1 x = None" using al1 by (simp add: alloc_ok_def)
  qed
  have stale: "\<exists>n'. heap st1 (addr_of (T a kvs ts)) = Some n' \<and> usage n' = 0 \<and> parent n' = par
      \<and> parent_idx n' = pidx"
    using st1(4) par by simp
  have sp: "splits B st (T a kvs ts) st1 sl sr h par pidx"
    unfolding splits_def tree_at_def
    using al1 repr_l repr_r di_l di_r sub_l sub_r bal_l bal_r sz_l sz_r disj ain ev stale
    by simp
  have io: "inorder sl @ kvs ! (B - 1) # inorder sr = inorder (T a kvs ts)"
  proof (cases "ts = []")
    case True
    have "take (B - 1) kvs @ kvs ! (B - 1) # drop B kvs = kvs"
      using id_take_nth_drop[of "B - 1" kvs] len cfg by simp
    then show ?thesis using True by (simp add: sl_def sr_def)
  next
    case False
    then have "length (map inorder ts) = length kvs + 1" "B - 1 < length kvs"
      using lts len cfg by auto
    from inter_halves[OF this] show ?thesis
      using cfg by (simp add: sl_def sr_def take_map drop_map)
  qed
  have "sl = T (next_addr st) (take (B - 1) kvs) (take B ts)"
    "sr = T (next_addr st + 1) (drop B kvs) (drop B ts)"
    by (simp_all add: sl_def sr_def l_def r_def)
  then show ?thesis
    using eq sp io by blast
qed

subsection \<open>A subtree changed in place\<close>

lemma child_stays:
  assumes at: "tree_at B st (T a kvs (ls @ c # rs)) (Suc h)"
    and sz: "sized B (T a kvs (ls @ c # rs))"
    and st: "stays B st c st' c' h (Some a) (length ls)"
    and lk: "linked (heap st) a par pidx"
  shows "stays B st (T a kvs (ls @ c # rs)) st' (T a kvs (ls @ c' # rs)) (Suc h) par pidx"
proof -
  let ?s = "T a kvs (ls @ c # rs)" and ?s' = "T a kvs (ls @ c' # rs)"
  define AL where "AL = set (concat (map addrs ls))"
  define AR where "AR = set (concat (map addrs rs))"
  have al: "alloc_ok st" and rp: "repr B (heap st) ?s"
    and di: "distinct (addrs ?s)" and sub: "set (addrs ?s) \<subseteq> {..<next_addr st}"
    and bl: "bal (Suc h) ?s"
    using at by (simp_all add: tree_at_def)
  have c'a: "addr_of c' = addr_of c" and at': "tree_at B st' c' h" and sz': "sized B c'"
    and ev: "evolves st (set (addrs c)) st' (set (addrs c'))"
    and lk': "linked (heap st') (addr_of c) (Some a) (length ls)"
    using st by (simp_all add: stays_def)
  have al': "alloc_ok st'" and rp': "repr B (heap st') c'"
    and di': "distinct (addrs c')" and sub': "set (addrs c') \<subseteq> {..<next_addr st'}"
    and bl': "bal h c'"
    using at' by (simp_all add: tree_at_def)
  have sets: "set (addrs ?s) = insert a (AL \<union> set (addrs c) \<union> AR)"
    "set (addrs ?s') = insert a (AL \<union> set (addrs c') \<union> AR)"
    by (auto simp: AL_def AR_def)
  have dis: "a \<notin> AL" "a \<notin> AR" "a \<notin> set (addrs c)" "AL \<inter> set (addrs c) = {}"
    "AR \<inter> set (addrs c) = {}" "AL \<inter> AR = {}"
    "distinct (concat (map addrs ls))" "distinct (concat (map addrs rs))"
    using di by (auto simp: AL_def AR_def)
  have old: "x < next_addr st" if "x \<in> insert a (AL \<union> set (addrs c) \<union> AR)" for x
    using sub[unfolded sets(1)] that by blast
  have new: "set (addrs c') \<subseteq> set (addrs c) \<union> {next_addr st..<next_addr st'}"
    and mono: "next_addr st \<le> next_addr st'"
    and same: "\<And>x. x \<notin> set (addrs c) \<Longrightarrow> x < next_addr st \<Longrightarrow> heap st' x = heap st x"
    using ev by (simp_all add: evolves_def)
  have dis': "a \<notin> set (addrs c')" "AL \<inter> set (addrs c') = {}" "AR \<inter> set (addrs c') = {}"
    using new dis old by fastforce+
  have keep: "heap st' x = heap st x" if "x \<in> insert a (AL \<union> AR)" for x
    using same[of x] that dis old[of x] by auto
  obtain n where n: "heap st a = Some n" "cell_ok B n kvs (map addr_of (ls @ c # rs))"
    using repr_cell[OF rp] by auto
  have cell': "heap st' a = Some n" using keep[of a] n by simp
  have sib: "repr B (heap st') t" if "t \<in> set ls \<union> set rs" for t
  proof -
    have "repr B (heap st) t" using rp that by auto
    moreover have "\<forall>x \<in> set (addrs t). heap st' x = heap st x"
      using that keep by (auto simp: AL_def AR_def)
    ultimately show ?thesis by (rule repr_frame)
  qed
  have lnk: "linked (heap st') (addr_of ((ls @ c' # rs) ! i)) (Some a) i"
    if i: "i < length (ls @ c' # rs)" for i
  proof -
    have l0: "linked (heap st) (addr_of ((ls @ c # rs) ! i)) (Some a) i"
      using rp i by simp
    consider "i < length ls" | "i = length ls" | "i > length ls" by linarith
    then show ?thesis
    proof cases
      case 1
      then have "addr_of (ls ! i) \<in> AL"
        by (auto simp: AL_def intro!: bexI[of _ "ls ! i"])
      then show ?thesis using l0 1 keep[of "addr_of (ls ! i)"] by (simp add: nth_append linked_def)
    next
      case 2
      then show ?thesis using lk' c'a by (simp add: nth_append)
    next
      case 3
      then have j: "i - length ls - 1 < length rs" using i by auto
      then have "addr_of (rs ! (i - length ls - 1)) \<in> AR"
        by (auto simp: AR_def intro!: bexI[of _ "rs ! (i - length ls - 1)"])
      moreover have "(ls @ c # rs) ! i = rs ! (i - length ls - 1)"
        "(ls @ c' # rs) ! i = rs ! (i - length ls - 1)"
        using 3 by (simp_all add: nth_append)
      ultimately show ?thesis
        using l0 keep[of "addr_of (rs ! (i - length ls - 1))"] by (simp add: linked_def)
    qed
  qed
  have rep: "repr B (heap st') ?s'"
    using cell' n(2) c'a rp' sib lnk by auto
  have dist: "distinct (addrs ?s')"
    using dis dis' di' by (auto simp: AL_def AR_def)
  have subs: "set (addrs ?s') \<subseteq> {..<next_addr st'}"
    using sub' old mono unfolding sets by fastforce
  have bal': "bal (Suc h) ?s'"
    using bl bl' by auto
  have tat: "tree_at B st' ?s' (Suc h)"
    using al' rep dist subs bal' by (simp add: tree_at_def)
  have szs: "sized B ?s'"
    using sz sz' by auto
  have "evolves st (set (addrs ?s)) st' ((set (addrs ?s) - set (addrs c)) \<union> set (addrs c'))"
    using evolves_lift[OF ev] sets by auto
  moreover have "(set (addrs ?s) - set (addrs c)) \<union> set (addrs c') = set (addrs ?s')"
    unfolding sets using dis by auto
  ultimately have evs: "evolves st (set (addrs ?s)) st' (set (addrs ?s'))"
    by simp
  have lka: "linked (heap st') a par pidx"
    using lk cell' n(1) by (simp add: linked_def)
  show ?thesis
    unfolding stays_def using tat szs evs lka by simp
qed

subsection \<open>A subtree was split: the parent adopts the halves\<close>

lemma relink_same: "parent m = q \<Longrightarrow> m\<lparr> parent_idx := i \<rparr> = m\<lparr> parent := q, parent_idx := i \<rparr>"
  by simp

lemma child_splits:
  assumes cfg: "2 \<le> B" "2 * B < 65536"
    and at: "tree_at B st (T a kvs (ls @ c # rs)) (Suc h)"
    and sz: "sized B (T a kvs (ls @ c # rs))"
    and sp: "splits B st c st1 sl sr h (Some a) (length ls)"
    and lk: "linked (heap st) a par pidx"
  shows "\<exists>st2. adopt_fill st1 a (addr_of sl) (addr_of sr) mk mv (length ls) = Some st2
      \<and> tree_at B st2 (T a (take (length ls) kvs @ (mk, mv) # drop (length ls) kvs)
                           (ls @ sl # sr # rs)) (Suc h)
      \<and> evolves st (set (addrs (T a kvs (ls @ c # rs)))) st2
           (set (addrs (T a (take (length ls) kvs @ (mk, mv) # drop (length ls) kvs)
                           (ls @ sl # sr # rs))))
      \<and> linked (heap st2) a par pidx"
proof -
  let ?s = "T a kvs (ls @ c # rs)"
  define kvs' where "kvs' = take (length ls) kvs @ (mk, mv) # drop (length ls) kvs"
  define s' where "s' = T a kvs' (ls @ sl # sr # rs)"
  define p where "p = length ls"
  define cs where "cs = map addr_of (ls @ c # rs)"
  define l where "l = addr_of sl"
  define r where "r = addr_of sr"
  define AL where "AL = set (concat (map addrs ls))"
  define AR where "AR = set (concat (map addrs rs))"
  define Ac where "Ac = set (addrs c)"
  define Al where "Al = set (addrs sl)"
  define Ar where "Ar = set (addrs sr)"
  have al: "alloc_ok st" and rp: "repr B (heap st) ?s"
    and di: "distinct (addrs ?s)" and sub: "set (addrs ?s) \<subseteq> {..<next_addr st}"
    and bl: "bal (Suc h) ?s"
    using at by (simp_all add: tree_at_def)
  have atl: "tree_at B st1 sl h" and atr: "tree_at B st1 sr h"
    and dlr: "Al \<inter> Ar = {}" and cnot: "addr_of c \<notin> Al \<union> Ar"
    and ev: "evolves st Ac st1 (insert (addr_of c) (Al \<union> Ar))"
    using sp by (simp_all add: splits_def Al_def Ar_def Ac_def)
  obtain m where m: "heap st1 (addr_of c) = Some m" "usage m = 0"
    using sp by (auto simp: splits_def)
  have al1: "alloc_ok st1" and rpl: "repr B (heap st1) sl" and rpr: "repr B (heap st1) sr"
    and dil: "distinct (addrs sl)" and dir: "distinct (addrs sr)"
    and bll: "bal h sl" and blr: "bal h sr"
    using atl atr by (simp_all add: tree_at_def)
  have sets: "set (addrs ?s) = insert a (AL \<union> Ac \<union> AR)"
    "set (addrs s') = insert a (AL \<union> (Al \<union> Ar) \<union> AR)"
    by (auto simp: AL_def AR_def Ac_def Al_def Ar_def s'_def)
  have dis: "a \<notin> AL" "a \<notin> AR" "a \<notin> Ac" "AL \<inter> Ac = {}"
    "AR \<inter> Ac = {}" "AL \<inter> AR = {}"
    "distinct (concat (map addrs ls))" "distinct (concat (map addrs rs))"
    using di by (auto simp: AL_def AR_def Ac_def)
  have old: "x < next_addr st" if "x \<in> insert a (AL \<union> Ac \<union> AR)" for x
    using sub[unfolded sets(1)] that by blast
  have new: "insert (addr_of c) (Al \<union> Ar) \<subseteq> Ac \<union> {next_addr st..<next_addr st1}"
    and mono: "next_addr st \<le> next_addr st1" and rt1: "root st1 = root st"
    and same1: "\<And>x. x \<notin> Ac \<Longrightarrow> x < next_addr st \<Longrightarrow> heap st1 x = heap st x"
    and none1: "\<And>x. x \<in> Ac \<or> next_addr st \<le> x \<Longrightarrow> x \<notin> insert (addr_of c) (Al \<union> Ar)
                  \<Longrightarrow> heap st1 x = None"
    using ev by (simp_all add: evolves_def)
  have lin: "l \<in> Al" and rin: "r \<in> Ar" by (simp_all add: l_def r_def Al_def Ar_def)
  have cin: "addr_of c \<in> Ac" by (simp add: Ac_def)
  have nw: "y \<in> Ac \<or> next_addr st \<le> y" if "y \<in> Al \<union> Ar" for y
    using new that by auto
  have dis2: "a \<notin> Al \<union> Ar" "AL \<inter> (Al \<union> Ar) = {}" "AR \<inter> (Al \<union> Ar) = {}"
  proof -
    show "a \<notin> Al \<union> Ar"
    proof
      assume "a \<in> Al \<union> Ar"
      from nw[OF this] dis(3) old[of a] show False by auto
    qed
    have "y \<notin> AL \<and> y \<notin> AR" if "y \<in> Al \<union> Ar" for y
      using nw[OF that] dis(4,5) old[of y] by auto
    then show "AL \<inter> (Al \<union> Ar) = {}" "AR \<inter> (Al \<union> Ar) = {}"
      by blast+
  qed
  have rootsL: "set (map addr_of ls) \<subseteq> AL" and rootsR: "set (map addr_of rs) \<subseteq> AR"
    using roots_subset by (auto simp: AL_def AR_def)
  have keep1: "heap st1 x = heap st x" if "x \<in> insert a (AL \<union> AR)" for x
    using same1[of x] that dis old[of x] by auto
  obtain n where n: "heap st a = Some n" "cell_ok B n kvs cs"
    using repr_cell[OF rp] by (auto simp: cs_def)
  have n1: "heap st1 a = Some n" using keep1[of a] n by simp
  have lcs: "length cs = length kvs + 1" and len: "length kvs \<le> 2 * B - 2" and ple: "p \<le> length kvs"
    using sz by (auto simp: cs_def p_def)
  have csp: "cs ! p = addr_of c" "take p cs = map addr_of ls" "drop (Suc p) cs = map addr_of rs"
    "drop p cs = addr_of c # map addr_of rs"
    by (simp_all add: cs_def p_def nth_append)
  obtain ml mr where ml: "heap st1 l = Some ml" and mr: "heap st1 r = Some mr"
    using repr_live[OF rpl, of l] repr_live[OF rpr, of r] by (auto simp: l_def r_def)
  have dcs: "distinct cs"
    using roots_distinct[of "ls @ c # rs"] di by (simp add: cs_def)
  have csin: "set cs \<subseteq> AL \<union> Ac \<union> AR"
    using rootsL rootsR cin by (auto simp: cs_def)
  have lrnot: "l \<notin> set cs" "r \<notin> set cs" "a \<notin> set cs" "a \<noteq> l" "a \<noteq> r" "l \<noteq> r"
  proof -
    have "l \<noteq> addr_of c" "r \<noteq> addr_of c" using cnot lin rin by auto
    moreover have "l \<notin> AL \<union> AR" "r \<notin> AL \<union> AR" using dis2 lin rin by auto
    ultimately show "l \<notin> set cs" "r \<notin> set cs"
      using rootsL rootsR by (auto simp: cs_def)
    show "a \<notin> set cs" using csin dis by auto
    show "a \<noteq> l" "a \<noteq> r" using dis2 lin rin by auto
    show "l \<noteq> r" using dlr lin rin by auto
  qed
  have dist4: "distinct (a # l # r # cs)" using lrnot dcs by simp
  have live: "\<forall>x \<in> set cs. heap st1 x \<noteq> None"
  proof
    fix x assume x: "x \<in> set cs"
    show "heap st1 x \<noteq> None"
    proof (cases "x = addr_of c")
      case True
      then show ?thesis using m by simp
    next
      case False
      then have "x \<in> AL \<union> AR" using x rootsL rootsR by (auto simp: cs_def)
      then have "heap st1 x = heap st x" using keep1 by simp
      moreover have "x \<in> set (addrs ?s)" using \<open>x \<in> AL \<union> AR\<close> unfolding sets(1) by blast
      ultimately show ?thesis using repr_live[OF rp] by metis
    qed
  qed
  have stale: "heap st1 (cs ! p) = Some m" "\<not> IsInternal m \<or> usage m = 0"
    using m csp by simp_all
  from adopt_fill_spec[OF cfg n1 n(2) lcs len ple stale ml mr dist4 live, of mk mv]
  obtain st2 n' where st2': "adopt_fill st1 a l r mk mv p = Some st2"
      "next_addr st2 = next_addr st1" "root st2 = root st1"
      "heap st2 a = Some n'"
      "cell_ok B n' (take p kvs @ (mk, mv) # drop p kvs) (take p cs @ l # r # drop (Suc p) cs)"
      "parent n' = parent n" "parent_idx n' = parent_idx n"
      "heap st2 (cs ! p) = None"
      "heap st2 l = Some (ml\<lparr> parent := Some a, parent_idx := p \<rparr>)"
      "heap st2 r = Some (mr\<lparr> parent := Some a, parent_idx := Suc p \<rparr>)"
      "\<forall>j. Suc p \<le> j \<and> j < length cs \<longrightarrow>
            heap st2 (cs ! j) = map_option (\<lambda>m. m\<lparr> parent_idx := Suc j \<rparr>) (heap st1 (cs ! j))"
      "\<forall>x. x \<notin> {a, l, r} \<union> set (drop p cs) \<longrightarrow> heap st2 x = heap st1 x"
    by blast
  have st2: "adopt_fill st1 a l r mk mv p = Some st2"
      "next_addr st2 = next_addr st1" "root st2 = root st1"
      "heap st2 a = Some n'"
      "cell_ok B n' kvs' (map addr_of (ls @ sl # sr # rs))"
      "parent n' = parent n" "parent_idx n' = parent_idx n"
      "heap st2 (addr_of c) = None"
      "heap st2 l = Some (ml\<lparr> parent := Some a, parent_idx := p \<rparr>)"
      "heap st2 r = Some (mr\<lparr> parent := Some a, parent_idx := Suc p \<rparr>)"
      "\<forall>j. Suc p \<le> j \<and> j < length cs \<longrightarrow>
            heap st2 (cs ! j) = map_option (\<lambda>m. m\<lparr> parent_idx := Suc j \<rparr>) (heap st1 (cs ! j))"
      "\<forall>x. x \<notin> {a, l, r} \<union> set (drop p cs) \<longrightarrow> heap st2 x = heap st1 x"
    using st2' csp by (simp_all add: kvs'_def p_def l_def r_def)
  have keep2: "heap st2 x = heap st1 x"
    if "x \<noteq> a" "x \<noteq> l" "x \<noteq> r" "x \<noteq> addr_of c" "x \<notin> set (map addr_of rs)" for x
    using st2(12) that csp by simp
  \<comment> \<open>the children\<close>
  have links: "\<forall>i < length (ls @ c # rs). linked (heap st) (addr_of ((ls @ c # rs) ! i)) (Some a) i"
    using rp by simp
  have left: "repr B (heap st2) t \<and> linked (heap st2) (addr_of t) (Some a) i"
    if "i < length ls" "t = ls ! i" for i t
  proof -
    have tin: "t \<in> set ls" using that by simp
    have "repr B (heap st) t" using rp tin by simp
    moreover have "distinct (addrs t)" using dis(7) tin by (auto simp: distinct_concat_iff)
    moreover have "linked (heap st) (addr_of t) (Some a) i"
      using links[rule_format, of i] that by (simp add: nth_append)
    moreover have "\<forall>x \<in> set (addrs t). heap st2 x = heap st x"
    proof
      fix x assume "x \<in> set (addrs t)"
      then have x: "x \<in> AL" using tin by (auto simp: AL_def)
      then have "x \<noteq> a" "x \<noteq> l" "x \<noteq> r" "x \<noteq> addr_of c" "x \<notin> set (map addr_of rs)"
        using dis dis2 lin rin cin rootsR by auto
      then show "heap st2 x = heap st x" using keep2 keep1 x by simp
    qed
    ultimately show ?thesis by (rule repr_same)
  qed
  have mid_l: "repr B (heap st2) sl \<and> linked (heap st2) (addr_of sl) (Some a) p"
  proof -
    have "\<forall>x \<in> set (addrs sl). x \<noteq> addr_of sl \<longrightarrow> heap st2 x = heap st1 x"
    proof (intro ballI impI)
      fix x assume "x \<in> set (addrs sl)" "x \<noteq> addr_of sl"
      then have x: "x \<in> Al" "x \<noteq> l" by (simp_all add: Al_def l_def)
      then have "x \<noteq> a" "x \<noteq> r" "x \<noteq> addr_of c" "x \<notin> set (map addr_of rs)"
        using dis2 dlr rin cnot rootsR by auto
      then show "heap st2 x = heap st1 x" using keep2 x by simp
    qed
    from repr_moved[of B "heap st1" sl ml "heap st2", OF rpl dil _ _ this] ml st2(9)
    show ?thesis by (simp add: l_def)
  qed
  have mid_r: "repr B (heap st2) sr \<and> linked (heap st2) (addr_of sr) (Some a) (Suc p)"
  proof -
    have "\<forall>x \<in> set (addrs sr). x \<noteq> addr_of sr \<longrightarrow> heap st2 x = heap st1 x"
    proof (intro ballI impI)
      fix x assume "x \<in> set (addrs sr)" "x \<noteq> addr_of sr"
      then have x: "x \<in> Ar" "x \<noteq> r" by (simp_all add: Ar_def r_def)
      then have "x \<noteq> a" "x \<noteq> l" "x \<noteq> addr_of c" "x \<notin> set (map addr_of rs)"
        using dis2 dlr lin cnot rootsR by auto
      then show "heap st2 x = heap st1 x" using keep2 x by simp
    qed
    from repr_moved[of B "heap st1" sr mr "heap st2", OF rpr dir _ _ this] mr st2(10)
    show ?thesis by (simp add: r_def)
  qed
  have right: "repr B (heap st2) t \<and> linked (heap st2) (addr_of t) (Some a) (Suc (Suc (p + i)))"
    if "i < length rs" "t = rs ! i" for i t
  proof -
    have tin: "t \<in> set rs" using that by simp
    have r0: "repr B (heap st) t" using rp tin by simp
    have d0: "distinct (addrs t)" using dis(8) tin by (auto simp: distinct_concat_iff)
    have "linked (heap st) (addr_of ((ls @ c # rs) ! (Suc (p + i)))) (Some a) (Suc (p + i))"
      using links[rule_format, of "Suc (p + i)"] that by (simp add: p_def)
    then have l0: "linked (heap st) (addr_of t) (Some a) (Suc (p + i))"
      using that by (simp add: nth_append p_def)
    then obtain m0 where m0: "heap st (addr_of t) = Some m0" "parent m0 = Some a"
      by (auto simp: linked_def split: option.splits)
    have rin': "addr_of t \<in> AR" using tin by (auto simp: AR_def intro!: bexI[of _ t])
    have cj: "cs ! Suc (p + i) = addr_of t" "Suc (p + i) < length cs"
      using that by (simp_all add: cs_def p_def nth_append)
    have "heap st2 (addr_of t) = map_option (\<lambda>m. m\<lparr> parent_idx := Suc (Suc (p + i)) \<rparr>) (heap st1 (addr_of t))"
      using st2(11)[rule_format, of "Suc (p + i)"] cj by simp
    then have root': "heap st2 (addr_of t)
        = Some (m0\<lparr> parent := Some a, parent_idx := Suc (Suc (p + i)) \<rparr>)"
      using keep1[of "addr_of t"] rin' m0 by simp
    have "\<forall>x \<in> set (addrs t). x \<noteq> addr_of t \<longrightarrow> heap st2 x = heap st x"
    proof (intro ballI impI)
      fix x assume xs: "x \<in> set (addrs t)" "x \<noteq> addr_of t"
      then have x: "x \<in> AR" using tin by (auto simp: AR_def)
      have "x \<notin> set (map addr_of rs)" using inner_not_root[OF dis(8) tin xs] .
      moreover have "x \<noteq> a" "x \<noteq> l" "x \<noteq> r" "x \<noteq> addr_of c"
        using x dis dis2 lin rin cin by auto
      ultimately show "heap st2 x = heap st x" using keep2 keep1 x by simp
    qed
    from repr_moved[of B "heap st" t m0 "heap st2", OF r0 d0 m0(1) root' this]
    show ?thesis .
  qed
  have kids: "repr B (heap st2) t" if "t \<in> set (ls @ sl # sr # rs)" for t
  proof -
    from that consider "t \<in> set ls" | "t = sl" | "t = sr" | "t \<in> set rs" by auto
    then show ?thesis
      using left right mid_l mid_r by cases (metis in_set_conv_nth)+
  qed
  have lnk: "linked (heap st2) (addr_of ((ls @ sl # sr # rs) ! i)) (Some a) i"
    if i: "i < length (ls @ sl # sr # rs)" for i
  proof -
    consider "i < p" | "i = p" | "i = Suc p" | "Suc (Suc p) \<le> i" by linarith
    then show ?thesis
    proof cases
      case 1
      then show ?thesis using left[of i] by (simp add: nth_append p_def)
    next
      case 2
      then show ?thesis using mid_l by (simp add: nth_append p_def)
    next
      case 3
      then show ?thesis using mid_r by (simp add: nth_append p_def)
    next
      case 4
      then obtain j where j: "i = Suc (Suc (p + j))" "j < length rs"
        using i by (metis add_Suc_right add_Suc_shift le_Suc_ex length_Cons length_append
            nat_add_left_cancel_less p_def)
      then have "(ls @ sl # sr # rs) ! i = rs ! j" by (simp add: nth_append p_def)
      then show ?thesis using right[of j] j by simp
    qed
  qed
  have rep: "repr B (heap st2) s'"
    using st2(4,5) kids lnk by (simp add: s'_def)
  have dist: "distinct (addrs s')"
  proof -
    note f = dis dis2 dil dir dlr
    have "distinct (a # concat (map addrs ls) @ addrs sl @ addrs sr @ concat (map addrs rs))"
      unfolding distinct.simps distinct_append set_append
      using f unfolding AL_def AR_def Al_def Ar_def Ac_def by blast
    then show ?thesis by (simp add: s'_def)
  qed
  have al2: "alloc_ok st2"
    unfolding alloc_ok_def
  proof (intro allI impI)
    fix x assume x: "next_addr st2 \<le> x"
    then have x1: "next_addr st1 \<le> x" "next_addr st \<le> x" using st2(2) mono by simp_all
    have "l < next_addr st1" "r < next_addr st1"
      using atl atr lin rin by (auto simp: tree_at_def Al_def Ar_def)
    moreover have "y < next_addr st1" if "y \<in> insert a (AL \<union> Ac \<union> AR)" for y
      using old[OF that] mono by simp
    moreover have "x \<notin> set cs"
    proof
      assume "x \<in> set cs"
      then have "x \<in> insert a (AL \<union> Ac \<union> AR)" using csin by blast
      from old[OF this] x1 show False by simp
    qed
    moreover have "a < next_addr st" using old[of a] by simp
    ultimately have "x \<notin> {a, l, r} \<union> set (drop p cs)"
      using x1 by (auto dest: in_set_dropD)
    then show "heap st2 x = None"
      using st2(12) al1 x1 by (simp add: alloc_ok_def)
  qed
  have subs: "set (addrs s') \<subseteq> {..<next_addr st2}"
  proof -
    have "Al \<subseteq> {..<next_addr st1}" "Ar \<subseteq> {..<next_addr st1}"
      using atl atr by (simp_all add: tree_at_def Al_def Ar_def)
    moreover have "y < next_addr st1" if "y \<in> insert a (AL \<union> AR)" for y
      using old[of y] that mono by auto
    then have "insert a (AL \<union> AR) \<subseteq> {..<next_addr st1}"
      by (auto simp: subset_iff)
    ultimately show ?thesis unfolding sets st2(2) by (simp add: subset_iff)
  qed
  have bal': "bal (Suc h) s'"
    using bl bll blr by (auto simp: s'_def)
  have tat: "tree_at B st2 s' (Suc h)"
    using al2 rep dist subs bal' by (simp add: tree_at_def)
  have evs: "evolves st (set (addrs ?s)) st2 (set (addrs s'))"
    unfolding evolves_def
  proof (intro conjI allI impI)
    show "next_addr st \<le> next_addr st2" "root st2 = root st"
      using mono st2(2,3) rt1 by simp_all
    show "set (addrs s') \<subseteq> set (addrs ?s) \<union> {next_addr st..<next_addr st2}"
      unfolding sets st2(2) using new by blast
  next
    fix x assume x: "x \<notin> set (addrs ?s) \<and> x < next_addr st"
    then have x': "x \<noteq> a" "x \<notin> AL" "x \<notin> Ac" "x \<notin> AR" unfolding sets by auto
    then have "x \<notin> Al \<union> Ar" using nw[of x] x by auto
    then have "x \<noteq> l" "x \<noteq> r" using lin rin by auto
    moreover have "x \<noteq> addr_of c" "x \<notin> set (map addr_of rs)"
      using x' cin rootsR by auto
    ultimately have "heap st2 x = heap st1 x" using keep2 x' by simp
    then show "heap st2 x = heap st x" using same1[of x] x x' by simp
  next
    fix x assume x: "(x \<in> set (addrs ?s) \<or> next_addr st \<le> x) \<and> x \<notin> set (addrs s')"
    then have x': "x \<noteq> a" "x \<notin> AL" "x \<notin> AR" "x \<notin> Al \<union> Ar" unfolding sets by auto
    show "heap st2 x = None"
    proof (cases "x = addr_of c")
      case True
      then show ?thesis using st2(8) by simp
    next
      case False
      have "x \<in> Ac \<or> next_addr st \<le> x" using x x' unfolding sets by auto
      then have "heap st1 x = None" using none1[of x] False x' by simp
      moreover have "x \<noteq> l" "x \<noteq> r" "x \<notin> set (map addr_of rs)"
        using x' lin rin rootsR by auto
      ultimately show ?thesis using keep2[of x] x' False by simp
    qed
  qed
  have lka: "linked (heap st2) a par pidx"
    using lk n(1) st2(4,6,7) by (simp add: linked_def)
  show ?thesis
    using st2(1) tat evs lka unfolding s'_def kvs'_def l_def r_def p_def by blast
qed

subsection \<open>Routing by key: the order of the pairs\<close>

lemma found_pure:
  fixes k :: "'k::linorder"
  assumes lts: "ts \<noteq> [] \<longrightarrow> length ts = length kvs + 1"
    and p: "p < length kvs" "fst (kvs ! p) = k"
    and so: "sorted_wrt (<) (map fst (inorder (T a kvs ts)))"
  shows "inorder (T a (kvs[p := (k, v)]) ts) = upsert k v (inorder (T a kvs ts))"
    and "map_of (inorder (T a kvs ts)) k = Some (snd (kvs ! p))"
proof -
  obtain L R where io: "inorder (T a kvs ts) = L @ kvs ! p # R"
    and io': "inorder (T a (kvs[p := (k, v)]) ts) = L @ (k, v) # R"
  proof (cases "ts = []")
    case True
    have "kvs = take p kvs @ kvs ! p # drop (Suc p) kvs"
      using p(1) by (simp add: id_take_nth_drop[symmetric])
    moreover have "kvs[p := (k, v)] = take p kvs @ (k, v) # drop (Suc p) kvs"
      using p(1) by (simp add: upd_conv_take_nth_drop)
    ultimately show ?thesis using that[of "take p kvs" "drop (Suc p) kvs"] True by simp
  next
    case False
    then have len: "length (map inorder ts) = length kvs + 1" using lts by simp
    from inter_found[OF len p(1), of "kvs ! p"] inter_found[OF len p(1), of "(k, v)"]
    show ?thesis
      using that[of "inter_l (take p (map inorder ts)) (take p kvs) @ map inorder ts ! p"
          "map inorder ts ! Suc p @ inter_r (drop (Suc p) kvs) (drop (Suc (Suc p)) (map inorder ts))"]
        False by simp
  qed
  have kp: "kvs ! p = (k, snd (kvs ! p))" using p(2) by (metis prod.collapse)
  have "\<forall>x \<in> set L. fst x < k"
    using so[unfolded io] p(2) by (simp add: sorted_wrt_append)
  then have "upsert k v (L @ kvs ! p # R) = L @ (k, v) # R"
    and "map_of (L @ kvs ! p # R) k = Some (snd (kvs ! p))"
    using upsert_found[of L k v "snd (kvs ! p)" R] map_of_found[of L k "snd (kvs ! p)" R] kp
    by metis+
  then show "inorder (T a (kvs[p := (k, v)]) ts) = upsert k v (inorder (T a kvs ts))"
    and "map_of (inorder (T a kvs ts)) k = Some (snd (kvs ! p))"
    unfolding io io' by simp_all
qed

lemma leaf_pure:
  fixes k :: "'k::linorder"
  assumes nf: "\<not> (pos k kvs < length kvs \<and> fst (kvs ! pos k kvs) = k)"
    and so: "sorted_wrt (<) (map fst kvs)"
  shows "take (pos k kvs) kvs @ (k, v) # drop (pos k kvs) kvs = upsert k v kvs"
    and "map_of kvs k = None"
proof -
  define p where "p = pos k kvs"
  have L: "\<forall>x \<in> set (take p kvs). fst x < k"
  proof
    fix x assume "x \<in> set (take p kvs)"
    then obtain j where "j < length (take p kvs)" "x = take p kvs ! j"
      by (metis in_set_conv_nth)
    then have "j < pos k kvs" "x = kvs ! j" by (simp_all add: p_def)
    then show "fst x < k" using pos_before[of j k kvs] by simp
  qed
  have R: "drop p kvs = [] \<or> k < fst (hd (drop p kvs))"
  proof (cases "p < length kvs")
    case True
    then have "hd (drop p kvs) = kvs ! p" by (simp add: hd_drop_conv_nth)
    moreover have "\<not> fst (kvs ! p) < k" "fst (kvs ! p) \<noteq> k"
      using pos_at[of k kvs] nf True by (auto simp: p_def)
    ultimately show ?thesis by auto
  next
    case False
    then show ?thesis by simp
  qed
  show "take (pos k kvs) kvs @ (k, v) # drop (pos k kvs) kvs = upsert k v kvs"
    using upsert_at[OF L R, of v] by (simp add: p_def)
  have "sorted_wrt (<) (map fst (drop p kvs))"
    using so by (metis drop_map sorted_wrt_drop)
  from sorted_hd_all[OF this R] have "\<forall>x \<in> set (drop p kvs). k < fst x" .
  with L have "map_of (take p kvs @ [] @ drop p kvs) k = map_of [] k"
    by (rule map_of_mid)
  then show "map_of kvs k = None" by simp
qed

lemma descend_pure:
  fixes k :: "'k::linorder"
  assumes lts: "length ts = length kvs + 1"
    and nf: "\<not> (pos k kvs < length kvs \<and> fst (kvs ! pos k kvs) = k)"
    and so: "sorted_wrt (<) (map fst (inorder (T a kvs ts)))"
  defines "p \<equiv> pos k kvs"
  defines "L \<equiv> inter_l (map inorder (take p ts)) (take p kvs)"
  defines "R \<equiv> inter_r (drop p kvs) (map inorder (drop (Suc p) ts))"
  shows "inorder (T a kvs ts) = L @ inorder (ts ! p) @ R"
    and "\<forall>x \<in> set L. fst x < k" and "R = [] \<or> k < fst (hd R)" and "\<forall>x \<in> set R. k < fst x"
    and "sorted_wrt (<) (map fst (inorder (ts ! p)))"
proof -
  have ple: "p \<le> length kvs" by (simp add: p_def pos_le)
  have len: "length (map inorder ts) = length kvs + 1" using lts by simp
  show io: "inorder (T a kvs ts) = L @ inorder (ts ! p) @ R"
    using inter_split[OF len ple] ple lts by (simp add: L_def R_def take_map drop_map)
  have sL: "sorted_wrt (<) (map fst L)" and sM: "sorted_wrt (<) (map fst (inorder (ts ! p)))"
    and sR: "sorted_wrt (<) (map fst R)"
    using so[unfolded io] by (simp_all add: sorted_wrt_append)
  show "sorted_wrt (<) (map fst (inorder (ts ! p)))" by (rule sM)
  have "\<forall>j < length (take p kvs). fst (take p kvs ! j) < k"
    using pos_before[of _ k kvs] by (simp add: p_def)
  moreover have "length (map inorder (take p ts)) = length (take p kvs)"
    using ple lts by simp
  ultimately show "\<forall>x \<in> set L. fst x < k"
    using route_left[of "map inorder (take p ts)" "take p kvs" k] sL by (simp add: L_def)
  have "k < fst (hd (drop p kvs))" if "drop p kvs \<noteq> []"
  proof -
    have "p < length kvs" using that by simp
    then have "hd (drop p kvs) = kvs ! p" by (simp add: hd_drop_conv_nth)
    moreover have "\<not> fst (kvs ! p) < k" "fst (kvs ! p) \<noteq> k"
      using pos_at[of k kvs] nf \<open>p < length kvs\<close> by (auto simp: p_def)
    ultimately show ?thesis by auto
  qed
  moreover have "length (map inorder (drop (Suc p) ts)) = length (drop p kvs)"
    using lts by simp
  ultimately show R: "R = [] \<or> k < fst (hd R)"
    using route_right[of "map inorder (drop (Suc p) ts)" "drop p kvs" k] by (simp add: R_def)
  show "\<forall>x \<in> set R. k < fst x"
    using sorted_hd_all[OF sR R] .
qed

lemma adopt_pure:
  assumes "length ts = length kvs + 1" "p \<le> length kvs"
  shows "inorder (T a (take p kvs @ s # drop p kvs) (take p ts @ y # z # drop (Suc p) ts))
       = inter_l (map inorder (take p ts)) (take p kvs) @ (inorder y @ s # inorder z)
         @ inter_r (drop p kvs) (map inorder (drop (Suc p) ts))"
  using inter_adopt[of "map inorder ts" kvs p "inorder y" "inorder z" s] assms
  by (simp add: take_map drop_map)

lemma replace_pure:
  assumes "length ts = length kvs + 1" "p \<le> length kvs"
  shows "inorder (T a kvs (take p ts @ y # drop (Suc p) ts))
       = inter_l (map inorder (take p ts)) (take p kvs) @ inorder y
         @ inter_r (drop p kvs) (map inorder (drop (Suc p) ts))"
proof -
  have "take p ts @ y # drop (Suc p) ts = ts[p := y]"
    using assms by (simp add: upd_conv_take_nth_drop)
  then show ?thesis
    using inter_update[of "map inorder ts" kvs p "inorder y"] assms
    by (simp add: take_map drop_map map_update)
qed

subsection \<open>After a slot was filled\<close>

lemma overflow_cases:
  assumes cfg: "2 \<le> B" "2 * B < 65536"
    and at: "tree_at B st (T a kvs ts) h"
    and sz: "\<forall>t \<in> set ts. sized B t" and len: "1 \<le> length kvs" "length kvs \<le> 2 * B - 1"
    and lts: "ts \<noteq> [] \<longrightarrow> length ts = length kvs + 1"
    and lk: "linked (heap st) a par pidx"
  shows "(overflow B st a = Some st \<and> sized B (T a kvs ts))
     \<or> (\<exists>st1 sl sr mk mv. overflow B st a = propagate B st1 par pidx (addr_of sl) (addr_of sr) mk mv
          \<and> splits B st (T a kvs ts) st1 sl sr h par pidx
          \<and> inorder sl @ (mk, mv) # inorder sr = inorder (T a kvs ts))"
proof (cases "length kvs = 2 * B - 1")
  case True
  then have "ts \<noteq> [] \<longrightarrow> length ts = 2 * B" using lts cfg by auto
  from overflow_split[OF cfg at sz True this lk]
  obtain st1 sl sr where "overflow B st a =
        propagate B st1 par pidx (addr_of sl) (addr_of sr) (fst (kvs ! (B - 1))) (snd (kvs ! (B - 1)))"
      "splits B st (T a kvs ts) st1 sl sr h par pidx"
      "inorder sl @ (fst (kvs ! (B - 1)), snd (kvs ! (B - 1))) # inorder sr = inorder (T a kvs ts)"
    unfolding prod.collapse by blast
  then show ?thesis by blast
next
  case False
  obtain n where n: "heap st a = Some n" "cell_ok B n kvs (map addr_of ts)"
    using repr_cell[of B "heap st" a kvs ts] at by (auto simp: tree_at_def)
  then have "usage n \<noteq> 2 * B - 1" using False by (simp add: cell_ok_def)
  then have "overflow B st a = Some st" using n(1) by (rule overflow_stay[rotated])
  moreover have "sized B (T a kvs ts)" using sz len lts False by auto
  ultimately show ?thesis by simp
qed

lemma splits_trans:
  assumes "evolves st (set (addrs s)) st2 (set (addrs s'))" "addr_of s' = addr_of s"
    and "splits B st2 s' st3 sl sr h par pidx"
  shows "splits B st s st3 sl sr h par pidx"
proof -
  have "evolves st2 (set (addrs s')) st3 (insert (addr_of s) (set (addrs sl) \<union> set (addrs sr)))"
    using assms(2,3) by (simp add: splits_def)
  from evolves_trans[OF assms(1) this] show ?thesis
    using assms(2,3) by (simp add: splits_def)
qed

lemma evolves_cell:
  assumes "alloc_ok st" "a \<in> A"
  shows "evolves st A (st\<lparr> heap := (heap st)(a \<mapsto> n') \<rparr>) A"
  using assms by (auto simp: evolves_def alloc_ok_def)

text \<open>One cell of a node is rewritten; its subtrees are not touched.\<close>

lemma node_rewrite:
  assumes at: "tree_at B st (T a kvs ts) h" and lk: "linked (heap st) a par pidx"
    and n: "heap st a = Some n" and ok: "cell_ok B n' kvs' (map addr_of ts)"
    and pn: "parent n' = parent n" "parent_idx n' = parent_idx n"
  defines "st' \<equiv> st\<lparr> heap := (heap st)(a \<mapsto> n') \<rparr>"
  shows "tree_at B st' (T a kvs' ts) h"
    and "evolves st (set (addrs (T a kvs ts))) st' (set (addrs (T a kvs' ts)))"
    and "linked (heap st') a par pidx"
proof -
  have al: "alloc_ok st" and rp: "repr B (heap st) (T a kvs ts)"
    and di: "distinct (addrs (T a kvs ts))" and sub: "set (addrs (T a kvs ts)) \<subseteq> {..<next_addr st}"
    and bl: "bal h (T a kvs ts)"
    using at by (simp_all add: tree_at_def)
  have anc: "a \<notin> set (concat (map addrs ts))" using di by simp
  have same: "heap st' x = heap st x" if "x \<in> set (concat (map addrs ts))" for x
    using that anc by (auto simp: st'_def)
  have kids: "repr B (heap st') t" if "t \<in> set ts" for t
  proof -
    have "repr B (heap st) t" using rp that by simp
    moreover have "\<forall>x \<in> set (addrs t). heap st' x = heap st x"
      using same that by auto
    ultimately show ?thesis by (rule repr_frame)
  qed
  have lnk: "linked (heap st') (addr_of (ts ! i)) (Some a) i" if "i < length ts" for i
  proof -
    have "addr_of (ts ! i) \<in> set (concat (map addrs ts))"
      using that by (auto intro!: bexI[of _ "ts ! i"])
    from same[OF this] have "heap st' (addr_of (ts ! i)) = heap st (addr_of (ts ! i))" .
    moreover have "linked (heap st) (addr_of (ts ! i)) (Some a) i" using rp that by simp
    ultimately show ?thesis by (simp add: linked_def)
  qed
  have "repr B (heap st') (T a kvs' ts)"
    using ok kids lnk by (simp add: st'_def)
  moreover have "alloc_ok st'"
    using al sub by (auto simp: alloc_ok_def st'_def)
  moreover have "bal h (T a kvs' ts)" using bl by (cases h) auto
  ultimately show "tree_at B st' (T a kvs' ts) h"
    using di sub by (simp add: tree_at_def st'_def)
  show "evolves st (set (addrs (T a kvs ts))) st' (set (addrs (T a kvs' ts)))"
    using evolves_cell[OF al, of a "set (addrs (T a kvs ts))" n'] by (simp add: st'_def)
  show "linked (heap st') a par pidx"
    using lk n pn by (simp add: linked_def st'_def)
qed

subsection \<open>Insertion below a node\<close>

lemma insert_node_sub:
  fixes k :: "'k::linorder"
  assumes cfg: "2 \<le> B" "2 * B < 65536" and cmp: "three_way cmp"
  shows "tree_at B st s h \<Longrightarrow> sized B s \<Longrightarrow> sorted_wrt (<) (map fst (inorder s))
    \<Longrightarrow> linked (heap st) (addr_of s) par pidx
    \<Longrightarrow> (\<exists>st' s'. insert_node B cmp st (addr_of s) (Temp k) (Temp v) = Some (st', map_of (inorder s) k)
            \<and> stays B st s st' s' h par pidx \<and> inorder s' = upsert k v (inorder s))
      \<or> (\<exists>st1 sl sr mk mv. insert_node B cmp st (addr_of s) (Temp k) (Temp v)
              = propagate B st1 par pidx (addr_of sl) (addr_of sr) mk mv \<bind> (\<lambda>st'. Some (st', None))
            \<and> map_of (inorder s) k = None
            \<and> splits B st s st1 sl sr h par pidx
            \<and> inorder sl @ (mk, mv) # inorder sr = upsert k v (inorder s))"
proof (induction s arbitrary: st h par pidx)
  case (T a kvs ts)
  let ?s = "T a kvs ts"
  note at = T.prems(1) and sz = T.prems(2) and so = T.prems(3)
  have lk: "linked (heap st) a par pidx" using T.prems(4) by simp
  define p where "p = pos k kvs"
  have al: "alloc_ok st" and rp: "repr B (heap st) ?s"
    and di: "distinct (addrs ?s)" and sub: "set (addrs ?s) \<subseteq> {..<next_addr st}"
    and bl: "bal h ?s"
    using at by (simp_all add: tree_at_def)
  obtain n where n: "heap st a = Some n" "cell_ok B n kvs (map addr_of ts)"
    using repr_cell[OF rp] by auto
  have len: "1 \<le> length kvs" "length kvs \<le> 2 * B - 2"
    and lts: "ts \<noteq> [] \<longrightarrow> length ts = length kvs + 1"
    and szk: "\<forall>t \<in> set ts. sized B t"
    using sz by auto
  have un: "usage n = length kvs" "length (vals n) = 2 * B - 1" "IsInternal n = (ts \<noteq> [])"
    and tk: "take (length kvs) (keys n) = map (\<lambda>kv. Some (fst kv)) kvs"
    and tv: "take (length kvs) (vals n) = map (\<lambda>kv. Some (snd kv)) kvs"
    and tc: "take (length ts) (children n) = map Some (map addr_of ts)"
    using n(2) by (simp_all add: cell_ok_def)
  have ple: "p \<le> length kvs" by (simp add: p_def pos_le)
  then have p16: "p < 65536" using len cfg by simp
  have ls: "linear_search B cmp n k
      = Some (if p < length kvs \<and> fst (kvs ! p) = k then FOUND OR p else GO_DOWN OR p)"
    using linear_search_eq[OF cmp un(1) tk, of B k] len cfg by (simp add: p_def Let_def)
  show ?case
  proof (cases "p < length kvs \<and> fst (kvs ! p) = k")
    case True
    define n' where "n' = n\<lparr> vals := (vals n)[p := Some v] \<rparr>"
    define st' where "st' = st\<lparr> heap := (heap st)(a \<mapsto> n') \<rparr>"
    have rv: "rd (vals n) p = Some (snd (kvs ! p))"
      using rd_take[OF tv, of p] True by simp
    have pl: "p < length (vals n)" using True len un cfg by auto
    have eq: "insert_node B cmp st a (Temp k) (Temp v) = Some (st', Some (snd (kvs ! p)))"
      using n(1) ls True flag_found[OF p16] rv pl
      by (subst insert_node_temp) (simp add: wr_def upd_def st'_def n'_def)
    have "map (\<lambda>kv. Some (fst kv)) (kvs[p := (k, v)]) = map (\<lambda>kv. Some (fst kv)) kvs"
      using True by (simp add: map_update list_update_same_conv)
    moreover have "take (length kvs) ((vals n)[p := Some v]) = map (\<lambda>kv. Some (snd kv)) (kvs[p := (k, v)])"
      using tv by (simp add: take_update_swap map_update)
    ultimately have ok': "cell_ok B n' (kvs[p := (k, v)]) (map addr_of ts)"
      using n(2) by (simp add: cell_ok_def n'_def)
    have pn: "parent n' = parent n" "parent_idx n' = parent_idx n" by (simp_all add: n'_def)
    from node_rewrite[OF at lk n(1) ok' pn]
    have "tree_at B st' (T a (kvs[p := (k, v)]) ts) h"
      "evolves st (set (addrs ?s)) st' (set (addrs (T a (kvs[p := (k, v)]) ts)))"
      "linked (heap st') a par pidx"
      by (simp_all add: st'_def)
    moreover have "sized B (T a (kvs[p := (k, v)]) ts)" using sz by simp
    ultimately have "stays B st ?s st' (T a (kvs[p := (k, v)]) ts) h par pidx"
      by (simp add: stays_def)
    moreover from found_pure(1)[OF lts _ _ so, where p = p and k = k and v = v]
      found_pure(2)[OF lts _ _ so, where p = p and k = k] True
    have "inorder (T a (kvs[p := (k, v)]) ts) = upsert k v (inorder ?s)"
      "map_of (inorder ?s) k = Some (snd (kvs ! p))"
      by simp_all
    ultimately show ?thesis using eq by (metis addr_of.simps)
  next
    case nf: False
    then have nf': "\<not> (pos k kvs < length kvs \<and> fst (kvs ! pos k kvs) = k)" by (simp add: p_def)
    have fl: "(GO_DOWN OR p) AND FOUND = 0" "(GO_DOWN OR p) AND GO_DOWN_MASK = p"
      using flag_down[OF p16] by simp_all
    show ?thesis
    proof (cases "ts = []")
      case True
      then have leaf: "\<not> IsInternal n" using un by simp
      define kvs' where "kvs' = take p kvs @ (k, v) # drop p kvs"
      have n0: "cell_ok B n kvs []" using n(2) True by simp
      from leaf_fill_spec[OF cfg n(1) n0 len(2) ple, where k = k and v = v]
      obtain n' where n': "leaf_fill st a k v p = Some (st\<lparr> heap := (heap st)(a \<mapsto> n') \<rparr>)"
          "cell_ok B n' kvs' []" "parent n' = parent n" "parent_idx n' = parent_idx n"
        by (auto simp: kvs'_def)
      define st2 where "st2 = st\<lparr> heap := (heap st)(a \<mapsto> n') \<rparr>"
      have eq: "insert_node B cmp st a (Temp k) (Temp v) = overflow B st2 a \<bind> (\<lambda>st'. Some (st', None))"
        using n(1) ls nf fl leaf n'(1)
        by (subst insert_node_temp) (simp add: st2_def)
      have at0: "tree_at B st (T a kvs []) h" using at True by simp
      have ok2: "cell_ok B n' kvs' (map addr_of [])" using n'(2) by simp
      from node_rewrite[OF at0 lk n(1) ok2 n'(3,4)]
      have at2: "tree_at B st2 (T a kvs' []) h"
        and ev2: "evolves st (set (addrs ?s)) st2 (set (addrs (T a kvs' [])))"
        and lk2: "linked (heap st2) a par pidx"
        using True by (simp_all add: st2_def)
      have pure: "kvs' = upsert k v (inorder ?s)" "map_of (inorder ?s) k = None"
        using leaf_pure(1)[OF nf', where v = v] leaf_pure(2)[OF nf'] so True by (simp_all add: kvs'_def p_def)
      have l2: "1 \<le> length kvs'" "length kvs' \<le> 2 * B - 1"
        using len ple cfg by (simp_all add: kvs'_def)
      from overflow_cases[OF cfg at2 _ l2 _ lk2]
      consider (stay) "overflow B st2 a = Some st2" "sized B (T a kvs' [])"
        | (split) st3 sl sr mk mv where
          "overflow B st2 a = propagate B st3 par pidx (addr_of sl) (addr_of sr) mk mv"
          "splits B st2 (T a kvs' []) st3 sl sr h par pidx"
          "inorder sl @ (mk, mv) # inorder sr = inorder (T a kvs' [])"
        by auto
      then show ?thesis
      proof cases
        case stay
        then have "stays B st ?s st2 (T a kvs' []) h par pidx"
          using at2 ev2 lk2 by (simp add: stays_def)
        moreover have "insert_node B cmp st a (Temp k) (Temp v) = Some (st2, map_of (inorder ?s) k)"
          using eq stay(1) pure(2) by simp
        moreover have "inorder (T a kvs' []) = upsert k v (inorder ?s)"
          using pure(1) by simp
        ultimately show ?thesis by (metis addr_of.simps)
      next
        case split
        have "splits B st ?s st3 sl sr h par pidx"
          using splits_trans[OF ev2 _ split(2)] by simp
        moreover have "inorder sl @ (mk, mv) # inorder sr = upsert k v (inorder ?s)"
          using split(3) pure(1) by simp
        ultimately show ?thesis using eq split(1) pure(2) by (metis addr_of.simps)
      qed
    next
      case False
      then obtain h' where h: "h = Suc h'" using bl by (cases h) auto
      have int: "IsInternal n" using un False by simp
      have lt: "length ts = length kvs + 1" using lts False by simp
      then have plt: "p < length ts" using ple by simp
      define c where "c = ts ! p"
      define ls where "ls = take p ts"
      define rs where "rs = drop (Suc p) ts"
      have ts: "ts = ls @ c # rs" and lls: "length ls = p"
        using plt by (simp_all add: ls_def rs_def c_def id_take_nth_drop[symmetric])
      have cin: "c \<in> set ts" using plt by (simp add: c_def)
      have rc: "rd (children n) p = Some (addr_of c)"
        using rd_take[OF tc _ plt] plt by (simp add: c_def)
      have eq0: "insert_node B cmp st a (Temp k) (Temp v) = insert_node B cmp st (addr_of c) (Temp k) (Temp v)"
        using n(1) ls nf fl int rc by (subst insert_node_temp) simp
      define L where "L = inter_l (map inorder (take p ts)) (take p kvs)"
      define R where "R = inter_r (drop p kvs) (map inorder (drop (Suc p) ts))"
      from descend_pure[OF lt nf' so]
      have io: "inorder ?s = L @ inorder c @ R"
        and Lk: "\<forall>x \<in> set L. fst x < k" and Rk: "R = [] \<or> k < fst (hd R)"
        and Rk': "\<forall>x \<in> set R. k < fst x"
        and soc: "sorted_wrt (<) (map fst (inorder c))"
        by (simp_all add: L_def R_def c_def p_def)
      have ret: "map_of (inorder ?s) k = map_of (inorder c) k"
        unfolding io using map_of_mid[OF Lk Rk'] .
      have ups: "upsert k v (inorder ?s) = L @ upsert k v (inorder c) @ R"
        unfolding io using upsert_mid[OF Lk Rk] .
      have atc: "tree_at B st c h'"
        using al rp di sub bl cin h by (auto simp: tree_at_def distinct_concat_iff)
      have szc: "sized B c" using szk cin by simp
      have lkc: "linked (heap st) (addr_of c) (Some a) p"
        using rp plt by (simp add: c_def)
      have ats: "tree_at B st (T a kvs (ls @ c # rs)) (Suc h')" using at ts h by simp
      have szs: "sized B (T a kvs (ls @ c # rs))" using sz ts by simp
      from T.IH[OF cin atc szc soc lkc]
      consider (stay) st' c' where
          "insert_node B cmp st (addr_of c) (Temp k) (Temp v) = Some (st', map_of (inorder c) k)"
          "stays B st c st' c' h' (Some a) p" "inorder c' = upsert k v (inorder c)"
        | (split) st1 sl sr mk mv where
          "insert_node B cmp st (addr_of c) (Temp k) (Temp v)
              = propagate B st1 (Some a) p (addr_of sl) (addr_of sr) mk mv \<bind> (\<lambda>st'. Some (st', None))"
          "map_of (inorder c) k = None"
          "splits B st c st1 sl sr h' (Some a) p"
          "inorder sl @ (mk, mv) # inorder sr = upsert k v (inorder c)"
        by blast
      then show ?thesis
      proof cases
        case stay
        have "stays B st (T a kvs (ls @ c # rs)) st' (T a kvs (ls @ c' # rs)) (Suc h') par pidx"
          using child_stays[OF ats szs _ lk] stay(2) lls by simp
        then have 1: "stays B st ?s st' (T a kvs (ls @ c' # rs)) h par pidx"
          using ts h by simp
        have "inorder (T a kvs (ls @ c' # rs)) = L @ inorder c' @ R"
          using replace_pure[OF lt ple, where a = a and y = c'] by (simp add: ls_def rs_def L_def R_def)
        then have 2: "inorder (T a kvs (ls @ c' # rs)) = upsert k v (inorder ?s)"
          using ups stay(3) by simp
        have 3: "insert_node B cmp st a (Temp k) (Temp v) = Some (st', map_of (inorder ?s) k)"
          using eq0 stay(1) ret by simp
        show ?thesis using 1 2 3 by (metis addr_of.simps)
      next
        case split
        define kvs' where "kvs' = take p kvs @ (mk, mv) # drop p kvs"
        define s2 where "s2 = T a kvs' (ls @ sl # sr # rs)"
        from child_splits[OF cfg ats szs _ lk, where ?st1.0 = st1 and sl = sl and sr = sr and mk = mk and mv = mv]
        split(3) lls
        obtain st2 where st2: "adopt_fill st1 a (addr_of sl) (addr_of sr) mk mv p = Some st2"
            "tree_at B st2 s2 (Suc h')"
            "evolves st (set (addrs (T a kvs (ls @ c # rs)))) st2 (set (addrs s2))"
            "linked (heap st2) a par pidx"
          by (auto simp: s2_def kvs'_def)
        have ev2: "evolves st (set (addrs ?s)) st2 (set (addrs s2))" using st2(3) ts by simp
        have eq: "insert_node B cmp st a (Temp k) (Temp v) = overflow B st2 a \<bind> (\<lambda>st'. Some (st', None))"
          using eq0 split(1) st2(1) by (simp add: propagate_def adopt_eq)
        have io2: "inorder s2 = upsert k v (inorder ?s)"
          using adopt_pure[OF lt ple, where a = a and s = "(mk, mv)" and y = sl and z = sr] ups split(4)
          by (simp add: s2_def kvs'_def ls_def rs_def L_def R_def)
        have none: "map_of (inorder ?s) k = None" using ret split(2) by simp
        have szl: "sized B sl" "sized B sr" using split(3) by (simp_all add: splits_def)
        have kids: "\<forall>t \<in> set (ls @ sl # sr # rs). sized B t"
          using szk szl ts by auto
        have l2: "1 \<le> length kvs'" "length kvs' \<le> 2 * B - 1"
          using len ple cfg by (simp_all add: kvs'_def)
        have lt2: "ls @ sl # sr # rs \<noteq> [] \<longrightarrow> length (ls @ sl # sr # rs) = length kvs' + 1"
          using lt ts ple by (simp add: kvs'_def)
        from overflow_cases[OF cfg st2(2)[unfolded s2_def] kids l2 lt2 st2(4)]
        consider (stay2) "overflow B st2 a = Some st2" "sized B s2"
          | (split2) st3 sl' sr' mk' mv' where
            "overflow B st2 a = propagate B st3 par pidx (addr_of sl') (addr_of sr') mk' mv'"
            "splits B st2 s2 st3 sl' sr' (Suc h') par pidx"
            "inorder sl' @ (mk', mv') # inorder sr' = inorder s2"
          unfolding s2_def[symmetric] by auto
        then show ?thesis
        proof cases
          case stay2
          have "stays B st ?s st2 s2 h par pidx"
            using st2(2,4) ev2 stay2(2) h by (simp add: stays_def s2_def)
          moreover have "insert_node B cmp st a (Temp k) (Temp v) = Some (st2, map_of (inorder ?s) k)"
            using eq stay2(1) none by simp
          ultimately show ?thesis using io2 by (metis addr_of.simps)
        next
          case split2
          have "splits B st ?s st3 sl' sr' h par pidx"
            using splits_trans[OF ev2 _ split2(2)] h by (simp add: s2_def)
          moreover have "inorder sl' @ (mk', mv') # inorder sr' = upsert k v (inorder ?s)"
            using split2(3) io2 by simp
          ultimately show ?thesis using eq split2(1) none by (metis addr_of.simps)
        qed
      qed
    qed
  qed
qed

subsection \<open>Insertion below a node, for any comparator and any arguments\<close>

lemma linear_search_from_any:
  assumes "usage n = length kvs"
    "take (length kvs) (keys n) = map (\<lambda>kv. Some (fst kv)) kvs"
  shows "i \<le> length kvs \<Longrightarrow>
    \<exists>p. (linear_search_from cmp n key i = Some (FOUND OR p) \<and> p < length kvs)
       \<or> (linear_search_from cmp n key i = Some (GO_DOWN OR p) \<and> p \<le> length kvs)"
proof (induction "length kvs - i" arbitrary: i)
  case 0
  then have "i = length kvs" by simp
  then have "linear_search_from cmp n key i = Some (GO_DOWN OR length kvs)"
    using assms(1) by (subst linear_search_from.simps) simp
  then show ?case by blast
next
  case (Suc d)
  then have lt: "i < length kvs" by simp
  then have rd: "rd (keys n) i = Some (fst (kvs ! i))"
    using rd_take[OF assms(2)] by simp
  consider "cmp key (fst (kvs ! i)) < 0" | "cmp key (fst (kvs ! i)) = 0"
    | "\<not> cmp key (fst (kvs ! i)) < 0" "cmp key (fst (kvs ! i)) \<noteq> 0"
    by blast
  then show ?case
  proof cases
    case 1
    then have "linear_search_from cmp n key i = Some (GO_DOWN OR i)"
      using lt rd assms(1) by (subst linear_search_from.simps) simp
    then show ?thesis using lt by (intro exI[of _ i]) simp
  next
    case 2
    then have "linear_search_from cmp n key i = Some (FOUND OR i)"
      using lt rd assms(1) by (subst linear_search_from.simps) simp
    then show ?thesis using lt by (intro exI[of _ i]) simp
  next
    case 3
    then have "linear_search_from cmp n key i = linear_search_from cmp n key (Suc i)"
      using lt rd assms(1) by (subst linear_search_from.simps) simp
    then show ?thesis using Suc.hyps(1)[of "Suc i"] Suc.hyps(2) lt by simp
  qed
qed

lemma linear_search_any:
  assumes "usage n = length kvs"
    "take (length kvs) (keys n) = map (\<lambda>kv. Some (fst kv)) kvs" "length kvs < 2 * B"
  shows "\<exists>p. (linear_search B cmp n key = Some (FOUND OR p) \<and> p < length kvs)
       \<or> (linear_search B cmp n key = Some (GO_DOWN OR p) \<and> p \<le> length kvs)"
  using linear_search_from_any[OF assms(1,2), of 0 cmp key] assms(1,3)
  by (simp add: linear_search_def)

lemma key_ref_Temp [simp]: "key_ref st (Temp k) = Some k"
  by (simp add: key_ref_def)

lemma val_ref_Temp [simp]: "val_ref st (Temp v) = Some v"
  by (simp add: val_ref_def)

lemma insert_node_shape:
  assumes cfg: "2 \<le> B" "2 * B < 65536"
  shows "tree_at B st s h \<Longrightarrow> sized B s \<Longrightarrow> linked (heap st) (addr_of s) par pidx
    \<Longrightarrow> (insert_node B cmp st (addr_of s) key value = None
           \<and> \<not> (\<exists>k v. key = Temp k \<and> value = Temp v))
      \<or> (\<exists>st' s' old. insert_node B cmp st (addr_of s) key value = Some (st', old)
            \<and> stays B st s st' s' h par pidx)
      \<or> (\<exists>st1 sl sr mk mv. insert_node B cmp st (addr_of s) key value
              = propagate B st1 par pidx (addr_of sl) (addr_of sr) mk mv \<bind> (\<lambda>st'. Some (st', None))
            \<and> splits B st s st1 sl sr h par pidx)"
proof (induction s arbitrary: st h par pidx)
  case (T a kvs ts)
  let ?s = "T a kvs ts"
  note at = T.prems(1) and sz = T.prems(2)
  have lk: "linked (heap st) a par pidx" using T.prems(3) by simp
  have al: "alloc_ok st" and rp: "repr B (heap st) ?s"
    and di: "distinct (addrs ?s)" and sub: "set (addrs ?s) \<subseteq> {..<next_addr st}"
    and bl: "bal h ?s"
    using at by (simp_all add: tree_at_def)
  obtain n where n: "heap st a = Some n" "cell_ok B n kvs (map addr_of ts)"
    using repr_cell[OF rp] by auto
  have len: "1 \<le> length kvs" "length kvs \<le> 2 * B - 2"
    and lts: "ts \<noteq> [] \<longrightarrow> length ts = length kvs + 1"
    and szk: "\<forall>t \<in> set ts. sized B t"
    using sz by auto
  have un: "usage n = length kvs" "length (vals n) = 2 * B - 1" "IsInternal n = (ts \<noteq> [])"
    and tk: "take (length kvs) (keys n) = map (\<lambda>kv. Some (fst kv)) kvs"
    and tv: "take (length kvs) (vals n) = map (\<lambda>kv. Some (snd kv)) kvs"
    and tc: "take (length ts) (children n) = map Some (map addr_of ts)"
    using n(2) by (simp_all add: cell_ok_def)
  have lb: "length kvs < 2 * B" using len cfg by simp
  show ?case
  proof (cases "key_ref st key")
    case None
    then have "insert_node B cmp st a key value = None"
      using n(1) by (subst insert_node_eq) simp
    moreover have "\<not> (\<exists>k v. key = Temp k \<and> value = Temp v)" using None by auto
    ultimately show ?thesis by simp
  next
    case k: (Some k)
    from linear_search_any[OF un(1) tk lb, of cmp k]
    obtain p where p: "(linear_search B cmp n k = Some (FOUND OR p) \<and> p < length kvs)
        \<or> (linear_search B cmp n k = Some (GO_DOWN OR p) \<and> p \<le> length kvs)"
      by blast
    then have ple: "p \<le> length kvs" by auto
    then have p16: "p < 65536" using len cfg by simp
    from p show ?thesis
    proof
      assume f: "linear_search B cmp n k = Some (FOUND OR p) \<and> p < length kvs"
      then have plt: "p < length kvs" by simp
      have rv: "rd (vals n) p = Some (snd (kvs ! p))"
        using rd_take[OF tv, of p] plt by simp
      have pl: "p < length (vals n)" using plt len un cfg by auto
      show ?thesis
      proof (cases "val_ref st value")
        case None
        then have "insert_node B cmp st a key value = None"
          using n(1) k f flag_found[OF p16] rv by (subst insert_node_eq) simp
        moreover have "\<not> (\<exists>k v. key = Temp k \<and> value = Temp v)" using None by auto
        ultimately show ?thesis by simp
      next
        case v: (Some v)
        define kvs' where "kvs' = kvs[p := (fst (kvs ! p), v)]"
        define n' where "n' = n\<lparr> vals := (vals n)[p := Some v] \<rparr>"
        define st' where "st' = st\<lparr> heap := (heap st)(a \<mapsto> n') \<rparr>"
        have eq: "insert_node B cmp st a key value = Some (st', Some (snd (kvs ! p)))"
          using n(1) k f flag_found[OF p16] rv pl v
          by (subst insert_node_eq) (simp add: wr_def upd_def st'_def n'_def)
        have "map (\<lambda>kv. Some (fst kv)) kvs' = map (\<lambda>kv. Some (fst kv)) kvs"
          using plt by (simp add: kvs'_def map_update list_update_same_conv)
        moreover have "take (length kvs) ((vals n)[p := Some v]) = map (\<lambda>kv. Some (snd kv)) kvs'"
          using tv by (simp add: kvs'_def take_update_swap map_update)
        ultimately have ok': "cell_ok B n' kvs' (map addr_of ts)"
          using n(2) by (simp add: cell_ok_def n'_def kvs'_def)
        have pn: "parent n' = parent n" "parent_idx n' = parent_idx n" by (simp_all add: n'_def)
        from node_rewrite[OF at lk n(1) ok' pn]
        have "tree_at B st' (T a kvs' ts) h"
          "evolves st (set (addrs ?s)) st' (set (addrs (T a kvs' ts)))"
          "linked (heap st') a par pidx"
          by (simp_all add: st'_def)
        moreover have "sized B (T a kvs' ts)" using sz by (simp add: kvs'_def)
        ultimately have "stays B st ?s st' (T a kvs' ts) h par pidx"
          by (simp add: stays_def)
        then show ?thesis using eq by (metis addr_of.simps)
      qed
    next
      assume g: "linear_search B cmp n k = Some (GO_DOWN OR p) \<and> p \<le> length kvs"
      have fl: "(GO_DOWN OR p) AND FOUND = 0" "(GO_DOWN OR p) AND GO_DOWN_MASK = p"
        using flag_down[OF p16] by simp_all
      show ?thesis
      proof (cases "ts = []")
        case True
        then have leaf: "\<not> IsInternal n" using un by simp
        have n0: "cell_ok B n kvs []" using n(2) True by simp
        have fill: "\<exists>n'. leaf_fill st a k' v' p = Some (st\<lparr> heap := (heap st)(a \<mapsto> n') \<rparr>)
            \<and> cell_ok B n' (take p kvs @ (k', v') # drop p kvs) []
            \<and> parent n' = parent n \<and> parent_idx n' = parent_idx n" for k' v'
          using leaf_fill_spec[OF cfg n(1) n0 len(2) ple, where k = k' and v = v'] .
        obtain st1 where st1: "leaf_shift st a p = Some st1"
          using fill[of k "snd (kvs ! 0)"] leaf_phases[of st a p k "snd (kvs ! 0)"]
          by (cases "leaf_shift st a p") auto
        have store: "leaf_store st1 a k' v' p = leaf_fill st a k' v' p" for k' v'
          using leaf_phases[of st a p k' v'] st1 by simp
        have eq1: "insert_node B cmp st a key value =
            do { v \<leftarrow> val_ref st1 value;
                 k' \<leftarrow> key_ref st1 key;
                 st2 \<leftarrow> leaf_fill st a k' v p;
                 st3 \<leftarrow> overflow B st2 a;
                 Some (st3, None) }"
          using n(1) k g fl leaf st1 store by (subst insert_node_eq) simp
        show ?thesis
        proof (cases "val_ref st1 value")
          case None
          then have "insert_node B cmp st a key value = None" using eq1 by simp
          moreover have "\<not> (\<exists>k v. key = Temp k \<and> value = Temp v)" using None by auto
          ultimately show ?thesis by simp
        next
          case v: (Some v)
          show ?thesis
          proof (cases "key_ref st1 key")
            case None
            then have "insert_node B cmp st a key value = None" using eq1 v by simp
            moreover have "\<not> (\<exists>k v. key = Temp k \<and> value = Temp v)" using None by auto
            ultimately show ?thesis by simp
          next
            case k': (Some k')
            define kvs' where "kvs' = take p kvs @ (k', v) # drop p kvs"
            from fill[of k' v]
            obtain n' where n': "leaf_fill st a k' v p = Some (st\<lparr> heap := (heap st)(a \<mapsto> n') \<rparr>)"
                "cell_ok B n' kvs' []" "parent n' = parent n" "parent_idx n' = parent_idx n"
              by (auto simp: kvs'_def)
            define st2 where "st2 = st\<lparr> heap := (heap st)(a \<mapsto> n') \<rparr>"
            have eq: "insert_node B cmp st a key value
                = overflow B st2 a \<bind> (\<lambda>st'. Some (st', None))"
              using eq1 v k' n'(1) by (simp add: st2_def)
            have at0: "tree_at B st (T a kvs []) h" using at True by simp
            have ok2: "cell_ok B n' kvs' (map addr_of [])" using n'(2) by simp
            from node_rewrite[OF at0 lk n(1) ok2 n'(3,4)]
            have at2: "tree_at B st2 (T a kvs' []) h"
              and ev2: "evolves st (set (addrs ?s)) st2 (set (addrs (T a kvs' [])))"
              and lk2: "linked (heap st2) a par pidx"
              using True by (simp_all add: st2_def)
            have l2: "1 \<le> length kvs'" "length kvs' \<le> 2 * B - 1"
              using len ple cfg by (simp_all add: kvs'_def)
            from overflow_cases[OF cfg at2 _ l2 _ lk2]
            consider (stay) "overflow B st2 a = Some st2" "sized B (T a kvs' [])"
              | (split) st3 sl sr mk mv where
                "overflow B st2 a = propagate B st3 par pidx (addr_of sl) (addr_of sr) mk mv"
                "splits B st2 (T a kvs' []) st3 sl sr h par pidx"
              by auto
            then show ?thesis
            proof cases
              case stay
              then have "stays B st ?s st2 (T a kvs' []) h par pidx"
                using at2 ev2 lk2 by (simp add: stays_def)
              moreover have "insert_node B cmp st a key value = Some (st2, None)"
                using eq stay(1) by simp
              ultimately show ?thesis by (metis addr_of.simps)
            next
              case split
              have "splits B st ?s st3 sl sr h par pidx"
                using splits_trans[OF ev2 _ split(2)] by simp
              then show ?thesis using eq split(1) by (metis addr_of.simps)
            qed
          qed
        qed
      next
        case False
        then obtain h' where h: "h = Suc h'" using bl by (cases h) auto
        have int: "IsInternal n" using un False by simp
        have lt: "length ts = length kvs + 1" using lts False by simp
        then have plt: "p < length ts" using ple by simp
        define c where "c = ts ! p"
        define ls where "ls = take p ts"
        define rs where "rs = drop (Suc p) ts"
        have ts: "ts = ls @ c # rs" and lls: "length ls = p"
          using plt by (simp_all add: ls_def rs_def c_def id_take_nth_drop[symmetric])
        have cin: "c \<in> set ts" using plt by (simp add: c_def)
        have rc: "rd (children n) p = Some (addr_of c)"
          using rd_take[OF tc _ plt] plt by (simp add: c_def)
        have eq0: "insert_node B cmp st a key value = insert_node B cmp st (addr_of c) key value"
          using n(1) k g fl int rc by (subst insert_node_eq) simp
        have atc: "tree_at B st c h'"
          using al rp di sub bl cin h by (auto simp: tree_at_def distinct_concat_iff)
        have szc: "sized B c" using szk cin by simp
        have lkc: "linked (heap st) (addr_of c) (Some a) p"
          using rp plt by (simp add: c_def)
        have ats: "tree_at B st (T a kvs (ls @ c # rs)) (Suc h')" using at ts h by simp
        have szs: "sized B (T a kvs (ls @ c # rs))" using sz ts by simp
        from T.IH[OF cin atc szc lkc]
        consider (none) "insert_node B cmp st (addr_of c) key value = None"
            "\<not> (\<exists>k v. key = Temp k \<and> value = Temp v)"
          | (stay) st' c' old where
            "insert_node B cmp st (addr_of c) key value = Some (st', old)"
            "stays B st c st' c' h' (Some a) p"
          | (split) st1 sl sr mk mv where
            "insert_node B cmp st (addr_of c) key value
                = propagate B st1 (Some a) p (addr_of sl) (addr_of sr) mk mv \<bind> (\<lambda>st'. Some (st', None))"
            "splits B st c st1 sl sr h' (Some a) p"
          by (elim disjE exE conjE) blast+
        then show ?thesis
        proof cases
          case none
          then show ?thesis using eq0 by simp
        next
          case stay
          have "stays B st (T a kvs (ls @ c # rs)) st' (T a kvs (ls @ c' # rs)) (Suc h') par pidx"
            using child_stays[OF ats szs _ lk] stay(2) lls by simp
          then have "stays B st ?s st' (T a kvs (ls @ c' # rs)) h par pidx"
            using ts h by simp
          moreover have "insert_node B cmp st a key value = Some (st', old)"
            using eq0 stay(1) by simp
          ultimately show ?thesis by (metis addr_of.simps)
        next
          case split
          define kvs' where "kvs' = take p kvs @ (mk, mv) # drop p kvs"
          define s2 where "s2 = T a kvs' (ls @ sl # sr # rs)"
          from child_splits[OF cfg ats szs _ lk, where ?st1.0 = st1 and sl = sl and sr = sr and mk = mk and mv = mv]
          split(2) lls
          obtain st2 where st2: "adopt_fill st1 a (addr_of sl) (addr_of sr) mk mv p = Some st2"
              "tree_at B st2 s2 (Suc h')"
              "evolves st (set (addrs (T a kvs (ls @ c # rs)))) st2 (set (addrs s2))"
              "linked (heap st2) a par pidx"
            by (auto simp: s2_def kvs'_def)
          have ev2: "evolves st (set (addrs ?s)) st2 (set (addrs s2))" using st2(3) ts by simp
          have eq: "insert_node B cmp st a key value = overflow B st2 a \<bind> (\<lambda>st'. Some (st', None))"
            using eq0 split(1) st2(1) by (simp add: propagate_def adopt_eq)
          have szl: "sized B sl" "sized B sr" using split(2) by (simp_all add: splits_def)
          have kids: "\<forall>t \<in> set (ls @ sl # sr # rs). sized B t"
            using szk szl ts by auto
          have l2: "1 \<le> length kvs'" "length kvs' \<le> 2 * B - 1"
            using len ple cfg by (simp_all add: kvs'_def)
          have lt2: "ls @ sl # sr # rs \<noteq> [] \<longrightarrow> length (ls @ sl # sr # rs) = length kvs' + 1"
            using lt ts ple by (simp add: kvs'_def)
          from overflow_cases[OF cfg st2(2)[unfolded s2_def] kids l2 lt2 st2(4)]
          consider (stay2) "overflow B st2 a = Some st2" "sized B s2"
            | (split2) st3 sl' sr' mk' mv' where
              "overflow B st2 a = propagate B st3 par pidx (addr_of sl') (addr_of sr') mk' mv'"
              "splits B st2 s2 st3 sl' sr' (Suc h') par pidx"
            unfolding s2_def[symmetric] by auto
          then show ?thesis
          proof cases
            case stay2
            have "stays B st ?s st2 s2 h par pidx"
              using st2(2,4) ev2 stay2(2) h by (simp add: stays_def s2_def)
            moreover have "insert_node B cmp st a key value = Some (st2, None)"
              using eq stay2(1) by simp
            ultimately show ?thesis by (metis addr_of.simps)
          next
            case split2
            have "splits B st ?s st3 sl' sr' h par pidx"
              using splits_trans[OF ev2 _ split2(2)] h by (simp add: s2_def)
            then show ?thesis using eq split2(1) by (metis addr_of.simps)
          qed
        qed
      qed
    qed
  qed
qed

subsection \<open>The tree as a whole\<close>

lemma dom_evolves:
  assumes "evolves st A st' A'" "dom (heap st) = A" "x \<notin> A'"
  shows "heap st' x = None"
proof (cases "x \<in> A \<or> next_addr st \<le> x")
  case True
  then show ?thesis using assms(1,3) by (simp add: evolves_def)
next
  case False
  then have "heap st' x = heap st x" using assms(1) by (simp add: evolves_def)
  moreover have "heap st x = None" using False assms(2) by auto
  ultimately show ?thesis by simp
qed

lemma root_stays:
  assumes inv: "tree_inv B st t h" and st: "stays B st t st' t' h None 0"
    and io: "inorder t' = upsert k v (inorder t)"
  shows "tree_inv B st' t' h"
proof -
  have ev: "evolves st (set (addrs t)) st' (set (addrs t'))"
    and at': "tree_at B st' t' h"
    using st by (simp_all add: stays_def)
  have "dom (heap st') = set (addrs t')"
  proof (intro set_eqI iffI)
    fix x assume "x \<in> dom (heap st')"
    then have "heap st' x \<noteq> None" by auto
    moreover have "dom (heap st) = set (addrs t)" using inv by (simp add: tree_inv_def)
    ultimately show "x \<in> set (addrs t')"
      using dom_evolves[OF ev, of x] by (cases "x \<in> set (addrs t')") simp_all
  next
    fix x assume "x \<in> set (addrs t')"
    then show "x \<in> dom (heap st')"
      using repr_live[of B "heap st'" t' x] at' by (auto simp: tree_at_def)
  qed
  moreover have "root st' = Some (addr_of t')"
    using ev st inv by (simp add: evolves_def stays_def tree_inv_def)
  moreover have "sorted_wrt (<) (map fst (inorder t'))"
    using io sorted_upsert[of "inorder t" k v] inv by (simp add: tree_inv_def)
  ultimately show ?thesis
    using st by (simp add: tree_inv_def stays_def)
qed

lemma root_splits:
  assumes cfg: "2 \<le> B" "2 * B < 65536"
    and inv: "tree_inv B st t h" and sp: "splits B st t st1 sl sr h None 0"
    and io: "inorder sl @ (mk, mv) # inorder sr = upsert k v (inorder t)"
  shows "\<exists>st'. propagate B st1 None 0 (addr_of sl) (addr_of sr) mk mv = Some st'
      \<and> tree_inv B st' (T (next_addr st1) [(mk, mv)] [sl, sr]) (Suc h)
      \<and> heap st' (addr_of t) = None"
proof -
  define a where "a = addr_of t"
  define l where "l = addr_of sl"
  define r where "r = addr_of sr"
  define s where "s = next_addr st1"
  define Al where "Al = set (addrs sl)"
  define Ar where "Ar = set (addrs sr)"
  let ?t' = "T s [(mk, mv)] [sl, sr]"
  have atl: "tree_at B st1 sl h" and atr: "tree_at B st1 sr h"
    and szl: "sized B sl" and szr: "sized B sr"
    and dlr: "Al \<inter> Ar = {}" and anot: "a \<notin> Al \<union> Ar"
    and ev: "evolves st (set (addrs t)) st1 (insert a (Al \<union> Ar))"
    using sp by (simp_all add: splits_def Al_def Ar_def a_def)
  obtain n where n: "heap st1 a = Some n" "usage n = 0"
    using sp by (auto simp: splits_def a_def)
  have al1: "alloc_ok st1" and rpl: "repr B (heap st1) sl" and rpr: "repr B (heap st1) sr"
    and dil: "distinct (addrs sl)" and dir: "distinct (addrs sr)"
    and subl: "Al \<subseteq> {..<next_addr st1}" and subr: "Ar \<subseteq> {..<next_addr st1}"
    and bll: "bal h sl" and blr: "bal h sr"
    using atl atr by (simp_all add: tree_at_def Al_def Ar_def)
  have rt1: "root st1 = Some a"
    using ev inv by (simp add: evolves_def tree_inv_def a_def)
  have lin: "l \<in> Al" and rin: "r \<in> Ar" by (simp_all add: l_def r_def Al_def Ar_def)
  obtain ml mr where ml: "heap st1 l = Some ml" and mr: "heap st1 r = Some mr"
    using repr_live[OF rpl, of l] repr_live[OF rpr, of r] by (auto simp: l_def r_def)
  have ne: "a \<noteq> l" "a \<noteq> r" "l \<noteq> r"
    using anot dlr lin rin by auto
  have fresh: "\<forall>x \<ge> next_addr st1. heap st1 x = None"
    using al1 by (simp add: alloc_ok_def)
  from new_root_spec[OF cfg rt1 n(1) _ ml mr ne fresh, of 0 mk mv] n(2)
  obtain st' ns where st': "propagate B st1 None 0 l r mk mv = Some st'"
      "next_addr st' = next_addr st1 + 1" "root st' = Some s"
      "heap st' s = Some ns" "cell_ok B ns [(mk, mv)] [l, r]" "parent ns = None"
      "parent_idx ns = 0" "heap st' a = None"
      "heap st' l = Some (ml\<lparr> parent := Some s, parent_idx := 0 \<rparr>)"
      "heap st' r = Some (mr\<lparr> parent := Some s, parent_idx := 1 \<rparr>)"
      "\<forall>x. x \<notin> {a, l, r, s} \<longrightarrow> heap st' x = heap st1 x"
    unfolding s_def by auto
  have snot: "s \<notin> Al \<union> Ar" using subl subr by (auto simp: s_def)
  have keep: "heap st' x = heap st1 x" if "x \<noteq> a" "x \<noteq> l" "x \<noteq> r" "x \<noteq> s" for x
    using st'(11) that by simp
  have ml': "repr B (heap st') sl \<and> linked (heap st') (addr_of sl) (Some s) 0"
  proof -
    have "\<forall>x \<in> set (addrs sl). x \<noteq> addr_of sl \<longrightarrow> heap st' x = heap st1 x"
    proof (intro ballI impI)
      fix x assume "x \<in> set (addrs sl)" "x \<noteq> addr_of sl"
      then have x: "x \<in> Al" "x \<noteq> l" by (simp_all add: Al_def l_def)
      then have "x \<noteq> a" "x \<noteq> r" "x \<noteq> s" using anot dlr rin snot by auto
      then show "heap st' x = heap st1 x" using keep x by simp
    qed
    from repr_moved[of B "heap st1" sl ml "heap st'", OF rpl dil _ _ this] ml st'(9)
    show ?thesis by (simp add: l_def)
  qed
  have mr': "repr B (heap st') sr \<and> linked (heap st') (addr_of sr) (Some s) 1"
  proof -
    have "\<forall>x \<in> set (addrs sr). x \<noteq> addr_of sr \<longrightarrow> heap st' x = heap st1 x"
    proof (intro ballI impI)
      fix x assume "x \<in> set (addrs sr)" "x \<noteq> addr_of sr"
      then have x: "x \<in> Ar" "x \<noteq> r" by (simp_all add: Ar_def r_def)
      then have "x \<noteq> a" "x \<noteq> l" "x \<noteq> s" using anot dlr lin snot by auto
      then show "heap st' x = heap st1 x" using keep x by simp
    qed
    from repr_moved[of B "heap st1" sr mr "heap st'", OF rpr dir _ _ this] mr st'(10)
    show ?thesis by (simp add: r_def)
  qed
  have lnk: "linked (heap st') (addr_of ([sl, sr] ! i)) (Some s) i" if "i < length [sl, sr]" for i
    using that ml' mr' by (cases i) auto
  have rep: "repr B (heap st') ?t'"
    using st'(4,5) ml' mr' lnk by (simp add: l_def r_def)
  have dist: "distinct (addrs ?t')"
    using dil dir dlr snot by (auto simp: Al_def Ar_def)
  have subs: "set (addrs ?t') \<subseteq> {..<next_addr st'}"
    using subl subr st'(2) by (auto simp: s_def Al_def Ar_def)
  have al': "alloc_ok st'"
    unfolding alloc_ok_def
  proof (intro allI impI)
    fix x assume x: "next_addr st' \<le> x"
    then have "x \<noteq> s" "next_addr st1 \<le> x" using st'(2) by (simp_all add: s_def)
    moreover have "x \<noteq> a" "x \<noteq> l" "x \<noteq> r"
      using n(1) ml mr fresh \<open>next_addr st1 \<le> x\<close> by auto
    ultimately show "heap st' x = None" using keep fresh by simp
  qed
  have tat: "tree_at B st' ?t' (Suc h)"
    using al' rep dist subs bll blr by (simp add: tree_at_def)
  have sz: "sized B ?t'" using szl szr cfg by simp
  have so: "sorted_wrt (<) (map fst (inorder ?t'))"
  proof -
    have "inorder ?t' = upsert k v (inorder t)" using io by (simp add: inter_def)
    then show ?thesis using sorted_upsert[of "inorder t" k v] inv by (simp add: tree_inv_def)
  qed
  have dom: "dom (heap st') = set (addrs ?t')"
  proof (intro set_eqI iffI)
    fix x assume x: "x \<in> dom (heap st')"
    show "x \<in> set (addrs ?t')"
    proof (rule ccontr)
      assume nx: "x \<notin> set (addrs ?t')"
      then have x': "x \<noteq> s" "x \<notin> Al \<union> Ar" by (auto simp: Al_def Ar_def)
      then have "x \<noteq> l" "x \<noteq> r" using lin rin by auto
      moreover have "x \<noteq> a" using x st'(8) by auto
      ultimately have "heap st' x = heap st1 x" using keep x' by simp
      moreover have "heap st1 x = None"
        using dom_evolves[OF ev, of x] inv x' \<open>x \<noteq> a\<close> by (simp add: tree_inv_def)
      ultimately show False using x by auto
    qed
  next
    fix x assume "x \<in> set (addrs ?t')"
    then show "x \<in> dom (heap st')"
      using repr_live[OF rep, of x] by auto
  qed
  have "linked (heap st') s None 0" using st'(4,6,7) by (simp add: linked_def)
  then have "tree_inv B st' ?t' (Suc h)"
    using tat sz so st'(3) dom by (simp add: tree_inv_def)
  then show ?thesis using st'(1,8) by (auto simp: l_def r_def s_def a_def)
qed


lemma first_insert:
  fixes k :: "'k::linorder"
  assumes cfg: "2 \<le> B" and em: "root st = None" "\<forall>x. heap st x = None"
  shows "\<exists>st'. tree_insert B cmp st (Temp k) (Temp v) = Some (st', None)
      \<and> tree_inv B st' (T (next_addr st) [(k, v)] []) 0"
proof -
  have len: "0 < 2 * B - 1" using cfg by simp
  have len': "0 < 2 * B - Suc 0" using cfg by simp
  have sz: "Suc 0 \<le> 2 * B - 2" using cfg by simp
  show ?thesis
    using em len sz
    by (simp add: tree_insert_def new_node_def upd_def blank_def wr_def tree_inv_def
        key_ref_def val_ref_def
        tree_at_def alloc_ok_def cell_ok_def linked_def take_replicate_upd1[OF len']
        inter_def dom_def)
qed

lemma tree_insert_inv:
  fixes k :: "'k::linorder"
  assumes cfg: "2 \<le> B" "2 * B < 65536" and cmp: "three_way cmp"
    and inv: "tree_inv B st t h"
  shows "\<exists>st' t' h'. tree_insert B cmp st (Temp k) (Temp v) = Some (st', map_of (inorder t) k)
      \<and> tree_inv B st' t' h' \<and> inorder t' = upsert k v (inorder t)
      \<and> (h' = h \<and> addr_of t' = addr_of t
          \<or> h' = Suc h \<and> map_of (inorder t) k = None \<and> heap st' (addr_of t) = None
             \<and> (\<exists>a p l r. t' = T a [p] [l, r] \<and> a \<notin> set (addrs t)))"
proof -
  have rt: "root st = Some (addr_of t)" and at: "tree_at B st t h" and sz: "sized B t"
    and so: "sorted_wrt (<) (map fst (inorder t))"
    and ln: "linked (heap st) (addr_of t) None 0"
    using inv by (simp_all add: tree_inv_def)
  have ti: "tree_insert B cmp st (Temp k) (Temp v) = insert_node B cmp st (addr_of t) (Temp k) (Temp v)"
    using rt by (simp add: tree_insert_def)
  from insert_node_sub[OF cfg cmp at sz so ln, of k v]
  show ?thesis
  proof (elim disjE exE conjE)
    fix st' s'
    assume a: "insert_node B cmp st (addr_of t) (Temp k) (Temp v) = Some (st', map_of (inorder t) k)"
      "stays B st t st' s' h None 0" "inorder s' = upsert k v (inorder t)"
    have "tree_inv B st' s' h" using root_stays[OF inv a(2) a(3)] .
    moreover have "addr_of s' = addr_of t" using a(2) by (simp add: stays_def)
    ultimately show ?thesis using a(1,3) ti by auto
  next
    fix st1 sl sr mk mv
    assume a: "insert_node B cmp st (addr_of t) (Temp k) (Temp v)
        = propagate B st1 None 0 (addr_of sl) (addr_of sr) mk mv \<bind> (\<lambda>st'. Some (st', None))"
      "map_of (inorder t) k = None" "splits B st t st1 sl sr h None 0"
      "inorder sl @ (mk, mv) # inorder sr = upsert k v (inorder t)"
    from root_splits[OF cfg inv a(3) a(4)] obtain st' where
      st': "propagate B st1 None 0 (addr_of sl) (addr_of sr) mk mv = Some st'"
        "tree_inv B st' (T (next_addr st1) [(mk, mv)] [sl, sr]) (Suc h)"
        "heap st' (addr_of t) = None"
      by blast
    have "next_addr st \<le> next_addr st1" using a(3) by (simp add: splits_def evolves_def)
    moreover have "set (addrs t) \<subseteq> {..<next_addr st}" using at by (simp add: tree_at_def)
    ultimately have fr: "next_addr st1 \<notin> set (addrs t)" by auto
    have "inorder (T (next_addr st1) [(mk, mv)] [sl, sr]) = upsert k v (inorder t)"
      using a(4) by (simp add: inter_def)
    then have "tree_insert B cmp st (Temp k) (Temp v) = Some (st', map_of (inorder t) k)
      \<and> tree_inv B st' (T (next_addr st1) [(mk, mv)] [sl, sr]) (Suc h)
      \<and> inorder (T (next_addr st1) [(mk, mv)] [sl, sr]) = upsert k v (inorder t)
      \<and> (Suc h = h \<and> addr_of (T (next_addr st1) [(mk, mv)] [sl, sr]) = addr_of t
          \<or> Suc h = Suc h \<and> map_of (inorder t) k = None \<and> heap st' (addr_of t) = None
             \<and> (\<exists>a p l r. T (next_addr st1) [(mk, mv)] [sl, sr] = T a [p] [l, r]
                   \<and> a \<notin> set (addrs t)))"
      using st' a(1,2) ti fr by simp
    then show ?thesis by blast
  qed
qed

lemma rep_state_empty: "rep_state B empty_tree []"
  by (simp add: rep_state_def empty_tree_def)

lemma sized_nonempty: "sized B t \<Longrightarrow> inorder t \<noteq> []"
proof (cases t)
  case (T a kvs ts)
  assume sz: "sized B t"
  then obtain x kvs' where kvs: "kvs = x # kvs'" using T by (cases kvs) auto
  show ?thesis
  proof (cases ts)
    case Nil
    then show ?thesis using T kvs by (simp add: inter_def)
  next
    case (Cons z zs)
    then obtain y zs' where "zs = y # zs'" using sz T kvs by (cases zs) auto
    then show ?thesis using T kvs Cons by (simp add: inter_def)
  qed
qed

lemma rep_state_sorted: "rep_state B st xs \<Longrightarrow> sorted_wrt (<) (map fst xs)"
  by (auto simp: rep_state_def tree_inv_def)

lemma tree_insert_rep:
  fixes k :: "'k::linorder"
  assumes cfg: "2 \<le> B" "2 * B < 65536" and cmp: "three_way cmp"
    and rep: "rep_state B st xs"
  shows "\<exists>st'. tree_insert B cmp st (Temp k) (Temp v) = Some (st', map_of xs k)
      \<and> rep_state B st' (upsert k v xs)"
  using rep unfolding rep_state_def
proof (elim disjE exE conjE)
  assume "xs = []" "root st = None" "\<forall>x. heap st x = None"
  then show "\<exists>st'. tree_insert B cmp st (Temp k) (Temp v) = Some (st', map_of xs k)
      \<and> (upsert k v xs = [] \<and> root st' = None \<and> (\<forall>x. heap st' x = None)
         \<or> (\<exists>t h. tree_inv B st' t h \<and> inorder t = upsert k v xs))"
    using first_insert[OF cfg(1), where st = st and k = k and cmp = cmp and v = v]
      inorder.simps[of "next_addr st" "[(k, v)]" "[]"]
    by (auto simp: inter_def simp del: inorder.simps)
next
  fix t h assume "tree_inv B st t h" "inorder t = xs"
  then show "\<exists>st'. tree_insert B cmp st (Temp k) (Temp v) = Some (st', map_of xs k)
      \<and> (upsert k v xs = [] \<and> root st' = None \<and> (\<forall>x. heap st' x = None)
         \<or> (\<exists>t h. tree_inv B st' t h \<and> inorder t = upsert k v xs))"
    using tree_insert_inv[OF cfg cmp, of st t h k v] by blast
qed

lemma insert_all_rep:
  fixes ops :: "('k::linorder \<times> 'v) list"
  assumes cfg: "2 \<le> B" "2 * B < 65536" and cmp: "three_way cmp"
  shows "rep_state B st xs \<Longrightarrow>
    \<exists>st'. insert_all B cmp st (temps ops) = Some st'
      \<and> rep_state B st' (fold (\<lambda>kv. upsert (fst kv) (snd kv)) ops xs)"
proof (induction ops arbitrary: st xs)
  case Nil
  then show ?case by (simp add: temps_def)
next
  case (Cons kv ops)
  obtain k v where kv: "kv = (k, v)" by (cases kv)
  from tree_insert_rep[OF cfg cmp Cons.prems, of k v] obtain st1 where
    st1: "tree_insert B cmp st (Temp k) (Temp v) = Some (st1, map_of xs k)"
      "rep_state B st1 (upsert k v xs)"
    by blast
  from Cons.IH[OF st1(2)] show ?case using st1(1) kv by (simp add: temps_def)
qed

lemma set_fold_upsert:
  fixes ops :: "('k::linorder \<times> 'v) list"
  shows "fst ` set (fold (\<lambda>kv. upsert (fst kv) (snd kv)) ops xs) = fst ` set ops \<union> fst ` set xs"
proof (induction ops arbitrary: xs)
  case Nil
  then show ?case by simp
next
  case (Cons kv ops)
  have "fst ` set (upsert (fst kv) (snd kv) xs) = insert (fst kv) (fst ` set xs)"
    by (rule set_upsert)
  then show ?case using Cons.IH[of "upsert (fst kv) (snd kv) xs"] by auto
qed

subsection \<open>The shape of the tree as a whole\<close>

lemma tree_inv_shape: "tree_inv B st t h \<Longrightarrow> shape_inv B st t h"
  by (simp add: tree_inv_def shape_inv_def)

lemma root_stays_shape:
  assumes inv: "shape_inv B st t h" and st: "stays B st t st' t' h None 0"
  shows "shape_inv B st' t' h"
proof -
  have ev: "evolves st (set (addrs t)) st' (set (addrs t'))"
    and at': "tree_at B st' t' h"
    using st by (simp_all add: stays_def)
  have "dom (heap st') = set (addrs t')"
  proof (intro set_eqI iffI)
    fix x assume "x \<in> dom (heap st')"
    then have "heap st' x \<noteq> None" by auto
    moreover have "dom (heap st) = set (addrs t)" using inv by (simp add: shape_inv_def)
    ultimately show "x \<in> set (addrs t')"
      using dom_evolves[OF ev, of x] by (cases "x \<in> set (addrs t')") simp_all
  next
    fix x assume "x \<in> set (addrs t')"
    then show "x \<in> dom (heap st')"
      using repr_live[of B "heap st'" t' x] at' by (auto simp: tree_at_def)
  qed
  moreover have "root st' = Some (addr_of t')"
    using ev st inv by (simp add: evolves_def stays_def shape_inv_def)
  ultimately show ?thesis
    using st by (simp add: shape_inv_def stays_def)
qed

lemma root_splits_shape:
  assumes cfg: "2 \<le> B" "2 * B < 65536"
    and inv: "shape_inv B st t h" and sp: "splits B st t st1 sl sr h None 0"
  shows "\<exists>st'. propagate B st1 None 0 (addr_of sl) (addr_of sr) mk mv = Some st'
      \<and> shape_inv B st' (T (next_addr st1) [(mk, mv)] [sl, sr]) (Suc h)
      \<and> heap st' (addr_of t) = None"
proof -
  define a where "a = addr_of t"
  define l where "l = addr_of sl"
  define r where "r = addr_of sr"
  define s where "s = next_addr st1"
  define Al where "Al = set (addrs sl)"
  define Ar where "Ar = set (addrs sr)"
  let ?t' = "T s [(mk, mv)] [sl, sr]"
  have atl: "tree_at B st1 sl h" and atr: "tree_at B st1 sr h"
    and szl: "sized B sl" and szr: "sized B sr"
    and dlr: "Al \<inter> Ar = {}" and anot: "a \<notin> Al \<union> Ar"
    and ev: "evolves st (set (addrs t)) st1 (insert a (Al \<union> Ar))"
    using sp by (simp_all add: splits_def Al_def Ar_def a_def)
  obtain n where n: "heap st1 a = Some n" "usage n = 0"
    using sp by (auto simp: splits_def a_def)
  have al1: "alloc_ok st1" and rpl: "repr B (heap st1) sl" and rpr: "repr B (heap st1) sr"
    and dil: "distinct (addrs sl)" and dir: "distinct (addrs sr)"
    and subl: "Al \<subseteq> {..<next_addr st1}" and subr: "Ar \<subseteq> {..<next_addr st1}"
    and bll: "bal h sl" and blr: "bal h sr"
    using atl atr by (simp_all add: tree_at_def Al_def Ar_def)
  have rt1: "root st1 = Some a"
    using ev inv by (simp add: evolves_def shape_inv_def a_def)
  have lin: "l \<in> Al" and rin: "r \<in> Ar" by (simp_all add: l_def r_def Al_def Ar_def)
  obtain ml mr where ml: "heap st1 l = Some ml" and mr: "heap st1 r = Some mr"
    using repr_live[OF rpl, of l] repr_live[OF rpr, of r] by (auto simp: l_def r_def)
  have ne: "a \<noteq> l" "a \<noteq> r" "l \<noteq> r"
    using anot dlr lin rin by auto
  have fresh: "\<forall>x \<ge> next_addr st1. heap st1 x = None"
    using al1 by (simp add: alloc_ok_def)
  from new_root_spec[OF cfg rt1 n(1) _ ml mr ne fresh, of 0 mk mv] n(2)
  obtain st' ns where st': "propagate B st1 None 0 l r mk mv = Some st'"
      "next_addr st' = next_addr st1 + 1" "root st' = Some s"
      "heap st' s = Some ns" "cell_ok B ns [(mk, mv)] [l, r]" "parent ns = None"
      "parent_idx ns = 0" "heap st' a = None"
      "heap st' l = Some (ml\<lparr> parent := Some s, parent_idx := 0 \<rparr>)"
      "heap st' r = Some (mr\<lparr> parent := Some s, parent_idx := 1 \<rparr>)"
      "\<forall>x. x \<notin> {a, l, r, s} \<longrightarrow> heap st' x = heap st1 x"
    unfolding s_def by auto
  have snot: "s \<notin> Al \<union> Ar" using subl subr by (auto simp: s_def)
  have keep: "heap st' x = heap st1 x" if "x \<noteq> a" "x \<noteq> l" "x \<noteq> r" "x \<noteq> s" for x
    using st'(11) that by simp
  have ml': "repr B (heap st') sl \<and> linked (heap st') (addr_of sl) (Some s) 0"
  proof -
    have "\<forall>x \<in> set (addrs sl). x \<noteq> addr_of sl \<longrightarrow> heap st' x = heap st1 x"
    proof (intro ballI impI)
      fix x assume "x \<in> set (addrs sl)" "x \<noteq> addr_of sl"
      then have x: "x \<in> Al" "x \<noteq> l" by (simp_all add: Al_def l_def)
      then have "x \<noteq> a" "x \<noteq> r" "x \<noteq> s" using anot dlr rin snot by auto
      then show "heap st' x = heap st1 x" using keep x by simp
    qed
    from repr_moved[of B "heap st1" sl ml "heap st'", OF rpl dil _ _ this] ml st'(9)
    show ?thesis by (simp add: l_def)
  qed
  have mr': "repr B (heap st') sr \<and> linked (heap st') (addr_of sr) (Some s) 1"
  proof -
    have "\<forall>x \<in> set (addrs sr). x \<noteq> addr_of sr \<longrightarrow> heap st' x = heap st1 x"
    proof (intro ballI impI)
      fix x assume "x \<in> set (addrs sr)" "x \<noteq> addr_of sr"
      then have x: "x \<in> Ar" "x \<noteq> r" by (simp_all add: Ar_def r_def)
      then have "x \<noteq> a" "x \<noteq> l" "x \<noteq> s" using anot dlr lin snot by auto
      then show "heap st' x = heap st1 x" using keep x by simp
    qed
    from repr_moved[of B "heap st1" sr mr "heap st'", OF rpr dir _ _ this] mr st'(10)
    show ?thesis by (simp add: r_def)
  qed
  have lnk: "linked (heap st') (addr_of ([sl, sr] ! i)) (Some s) i" if "i < length [sl, sr]" for i
    using that ml' mr' by (cases i) auto
  have rep: "repr B (heap st') ?t'"
    using st'(4,5) ml' mr' lnk by (simp add: l_def r_def)
  have dist: "distinct (addrs ?t')"
    using dil dir dlr snot by (auto simp: Al_def Ar_def)
  have subs: "set (addrs ?t') \<subseteq> {..<next_addr st'}"
    using subl subr st'(2) by (auto simp: s_def Al_def Ar_def)
  have al': "alloc_ok st'"
    unfolding alloc_ok_def
  proof (intro allI impI)
    fix x assume x: "next_addr st' \<le> x"
    then have "x \<noteq> s" "next_addr st1 \<le> x" using st'(2) by (simp_all add: s_def)
    moreover have "x \<noteq> a" "x \<noteq> l" "x \<noteq> r"
      using n(1) ml mr fresh \<open>next_addr st1 \<le> x\<close> by auto
    ultimately show "heap st' x = None" using keep fresh by simp
  qed
  have tat: "tree_at B st' ?t' (Suc h)"
    using al' rep dist subs bll blr by (simp add: tree_at_def)
  have sz: "sized B ?t'" using szl szr cfg by simp
  have dom: "dom (heap st') = set (addrs ?t')"
  proof (intro set_eqI iffI)
    fix x assume x: "x \<in> dom (heap st')"
    show "x \<in> set (addrs ?t')"
    proof (rule ccontr)
      assume nx: "x \<notin> set (addrs ?t')"
      then have x': "x \<noteq> s" "x \<notin> Al \<union> Ar" by (auto simp: Al_def Ar_def)
      then have "x \<noteq> l" "x \<noteq> r" using lin rin by auto
      moreover have "x \<noteq> a" using x st'(8) by auto
      ultimately have "heap st' x = heap st1 x" using keep x' by simp
      moreover have "heap st1 x = None"
        using dom_evolves[OF ev, of x] inv x' \<open>x \<noteq> a\<close> by (simp add: shape_inv_def)
      ultimately show False using x by auto
    qed
  next
    fix x assume "x \<in> set (addrs ?t')"
    then show "x \<in> dom (heap st')"
      using repr_live[OF rep, of x] by auto
  qed
  have "linked (heap st') s None 0" using st'(4,6,7) by (simp add: linked_def)
  then have "shape_inv B st' ?t' (Suc h)"
    using tat sz st'(3) dom by (simp add: shape_inv_def)
  then show ?thesis using st'(1,8) by (auto simp: l_def r_def s_def a_def)
qed

lemma first_insert_shape:
  assumes cfg: "2 \<le> B" and em: "root st = None" "\<forall>x. heap st x = None"
  shows "(tree_insert B cmp st key value = None \<and> \<not> (\<exists>k v. key = Temp k \<and> value = Temp v))
    \<or> (\<exists>st' kv. tree_insert B cmp st key value = Some (st', None)
          \<and> shape_inv B st' (T (next_addr st) [kv] []) 0)"
proof -
  have len: "0 < 2 * B - 1" using cfg by simp
  have len': "0 < 2 * B - Suc 0" using cfg by simp
  have sz: "Suc 0 \<le> 2 * B - 2" using cfg by simp
  have slot: "rd (replicate m None) i = None" for m i
    by (simp add: rd_def)
  show ?thesis
  proof (cases key)
    case (Slot a i)
    then have "tree_insert B cmp st key value = None"
      using em by (simp add: tree_insert_def new_node_def upd_def blank_def key_ref_def key_at_def slot)
    then show ?thesis using Slot by simp
  next
    case k: (Temp k)
    show ?thesis
    proof (cases "value")
      case (Slot a i)
      have "tree_insert B cmp st key value = None"
        using em k Slot len
        by (simp add: tree_insert_def new_node_def upd_def blank_def key_ref_def val_ref_def
            value_at_def wr_def slot)
      then show ?thesis using Slot by simp
    next
      case v: (Temp v)
      have "tree_insert B cmp st key value = Some
          (st\<lparr> heap := (heap st)(next_addr st \<mapsto>
                 (blank B False)\<lparr> usage := 1, keys := (replicate (2 * B - 1) None)[0 := Some k],
                                  vals := (replicate (2 * B - 1) None)[0 := Some v] \<rparr>),
               next_addr := next_addr st + 1, root := Some (next_addr st) \<rparr>, None)"
        using em k v len
        by (simp add: tree_insert_def new_node_def upd_def blank_def wr_def)
      moreover have "shape_inv B
          (st\<lparr> heap := (heap st)(next_addr st \<mapsto>
                 (blank B False)\<lparr> usage := 1, keys := (replicate (2 * B - 1) None)[0 := Some k],
                                  vals := (replicate (2 * B - 1) None)[0 := Some v] \<rparr>),
               next_addr := next_addr st + 1, root := Some (next_addr st) \<rparr>)
          (T (next_addr st) [(k, v)] []) 0"
        using em len sz
        by (simp add: blank_def shape_inv_def tree_at_def alloc_ok_def cell_ok_def linked_def
            take_replicate_upd1[OF len'] dom_def)
      ultimately show ?thesis by blast
    qed
  qed
qed

lemma tree_insert_shape:
  assumes cfg: "2 \<le> B" "2 * B < 65536" and inv: "shape_inv B st t h"
  shows "(tree_insert B cmp st key value = None \<and> \<not> (\<exists>k v. key = Temp k \<and> value = Temp v))
    \<or> (\<exists>st' t' h' old. tree_insert B cmp st key value = Some (st', old)
          \<and> shape_inv B st' t' h'
          \<and> (h' = h \<and> addr_of t' = addr_of t
              \<or> h' = Suc h \<and> heap st' (addr_of t) = None
                 \<and> (\<exists>a p l r. t' = T a [p] [l, r] \<and> a \<notin> set (addrs t))))"
proof -
  have rt: "root st = Some (addr_of t)" and at: "tree_at B st t h" and sz: "sized B t"
    and ln: "linked (heap st) (addr_of t) None 0"
    using inv by (simp_all add: shape_inv_def)
  have ti: "tree_insert B cmp st key value = insert_node B cmp st (addr_of t) key value"
    using rt by (simp add: tree_insert_def)
  from insert_node_shape[OF cfg at sz ln, of cmp key "value"]
  show ?thesis
  proof (elim disjE exE conjE)
    assume "insert_node B cmp st (addr_of t) key value = None"
      "\<not> (\<exists>k v. key = Temp k \<and> value = Temp v)"
    then show ?thesis using ti by simp
  next
    fix st' s' old
    assume a: "insert_node B cmp st (addr_of t) key value = Some (st', old)"
      "stays B st t st' s' h None 0"
    have "shape_inv B st' s' h" using root_stays_shape[OF inv a(2)] .
    moreover have "addr_of s' = addr_of t" using a(2) by (simp add: stays_def)
    ultimately show ?thesis using a(1) ti
      by (intro disjI2 exI[of _ st'] exI[of _ s'] exI[of _ h] exI[of _ old]) simp
  next
    fix st1 sl sr mk mv
    assume a: "insert_node B cmp st (addr_of t) key value
        = propagate B st1 None 0 (addr_of sl) (addr_of sr) mk mv \<bind> (\<lambda>st'. Some (st', None))"
      "splits B st t st1 sl sr h None 0"
    from root_splits_shape[OF cfg inv a(2), of mk mv] obtain st' where
      st': "propagate B st1 None 0 (addr_of sl) (addr_of sr) mk mv = Some st'"
        "shape_inv B st' (T (next_addr st1) [(mk, mv)] [sl, sr]) (Suc h)"
        "heap st' (addr_of t) = None"
      by blast
    have "next_addr st \<le> next_addr st1" using a(2) by (simp add: splits_def evolves_def)
    moreover have "set (addrs t) \<subseteq> {..<next_addr st}" using at by (simp add: tree_at_def)
    ultimately have fr: "next_addr st1 \<notin> set (addrs t)" by auto
    have "tree_insert B cmp st key value = Some (st', None)
      \<and> shape_inv B st' (T (next_addr st1) [(mk, mv)] [sl, sr]) (Suc h)
      \<and> (Suc h = h \<and> addr_of (T (next_addr st1) [(mk, mv)] [sl, sr]) = addr_of t
          \<or> Suc h = Suc h \<and> heap st' (addr_of t) = None
             \<and> (\<exists>a p l r. T (next_addr st1) [(mk, mv)] [sl, sr] = T a [p] [l, r]
                   \<and> a \<notin> set (addrs t)))"
      using st' a(1) ti fr by simp
    then show ?thesis
      by (intro disjI2 exI[of _ st'] exI[of _ "T (next_addr st1) [(mk, mv)] [sl, sr]"]
          exI[of _ "Suc h"] exI[of _ None])
  qed
qed

lemma tree_insert_state:
  assumes cfg: "2 \<le> B" "2 * B < 65536" and sh: "shape_state B st"
  shows "(tree_insert B cmp st key value = None \<and> \<not> (\<exists>k v. key = Temp k \<and> value = Temp v))
    \<or> (\<exists>st' old. tree_insert B cmp st key value = Some (st', old) \<and> shape_state B st'
          \<and> root st' \<noteq> None)"
proof -
  have ok: "shape_state B st' \<and> root st' \<noteq> None" if "shape_inv B st' t' h'" for st' t' h'
    using that by (auto simp: shape_state_def shape_inv_def)
  from sh show ?thesis unfolding shape_state_def
  proof (elim disjE exE conjE)
    assume "root st = None" "\<forall>x. heap st x = None"
    from first_insert_shape[OF cfg(1) this, of cmp key "value"]
    show "(tree_insert B cmp st key value = None \<and> \<not> (\<exists>k v. key = Temp k \<and> value = Temp v))
      \<or> (\<exists>st' old. tree_insert B cmp st key value = Some (st', old)
            \<and> (root st' = None \<and> (\<forall>x. heap st' x = None) \<or> (\<exists>t h. shape_inv B st' t h))
            \<and> root st' \<noteq> None)"
      using ok[unfolded shape_state_def] by blast
  next
    fix t h assume "shape_inv B st t h"
    from tree_insert_shape[OF cfg this, of cmp key "value"]
    show "(tree_insert B cmp st key value = None \<and> \<not> (\<exists>k v. key = Temp k \<and> value = Temp v))
      \<or> (\<exists>st' old. tree_insert B cmp st key value = Some (st', old)
            \<and> (root st' = None \<and> (\<forall>x. heap st' x = None) \<or> (\<exists>t h. shape_inv B st' t h))
            \<and> root st' \<noteq> None)"
      using ok[unfolded shape_state_def] by blast
  qed
qed

lemma insert_all_shape:
  assumes cfg: "2 \<le> B" "2 * B < 65536"
  shows "shape_state B st \<Longrightarrow> insert_all B cmp st calls = Some st' \<Longrightarrow> shape_state B st'"
proof (induction calls arbitrary: st)
  case Nil
  then show ?case by simp
next
  case (Cons c calls)
  obtain key "value" where c: "c = (key, value)" by (cases c)
  from tree_insert_state[OF cfg Cons.prems(1), of cmp key "value"] Cons.prems(2) c
  obtain st1 old where "tree_insert B cmp st key value = Some (st1, old)" "shape_state B st1"
    by auto
  then show ?case using Cons.IH[of st1] Cons.prems(2) c by simp
qed

lemma insert_all_total:
  assumes cfg: "2 \<le> B" "2 * B < 65536"
  shows "shape_state B st \<Longrightarrow> \<exists>st'. insert_all B cmp st (temps ops) = Some st'"
proof (induction ops arbitrary: st)
  case Nil
  then show ?case by (simp add: temps_def)
next
  case (Cons kv ops)
  from tree_insert_state[OF cfg Cons.prems, of cmp "Temp (fst kv)" "Temp (snd kv)"]
  obtain st1 old where st1: "tree_insert B cmp st (Temp (fst kv)) (Temp (snd kv)) = Some (st1, old)"
    "shape_state B st1"
    by auto
  from Cons.IH[OF st1(2)] show ?case using st1(1) by (simp add: temps_def)
qed

lemma shape_state_empty: "shape_state B empty_tree"
  by (simp add: shape_state_def empty_tree_def)

subsection \<open>Membership\<close>

lemma member_node_sub:
  fixes k :: "'k::linorder"
  assumes cfg: "2 \<le> B" "2 * B < 65536" and cmp: "three_way cmp"
  shows "repr B (heap st) s \<Longrightarrow> sized B s \<Longrightarrow> sorted_wrt (<) (map fst (inorder s))
    \<Longrightarrow> member_node B cmp st (addr_of s) k = Some (map_of (inorder s) k \<noteq> None)"
proof (induction s)
  case (T a kvs ts)
  let ?s = "T a kvs ts"
  note rp = T.prems(1) and sz = T.prems(2) and so = T.prems(3)
  define p where "p = pos k kvs"
  obtain n where n: "heap st a = Some n" "cell_ok B n kvs (map addr_of ts)"
    using repr_cell[OF rp] by auto
  have len: "1 \<le> length kvs" "length kvs \<le> 2 * B - 2"
    and lts: "ts \<noteq> [] \<longrightarrow> length ts = length kvs + 1"
    and szk: "\<forall>t \<in> set ts. sized B t"
    using sz by auto
  have un: "usage n = length kvs" "IsInternal n = (ts \<noteq> [])"
    and tk: "take (length kvs) (keys n) = map (\<lambda>kv. Some (fst kv)) kvs"
    and tc: "take (length ts) (children n) = map Some (map addr_of ts)"
    using n(2) by (simp_all add: cell_ok_def)
  have ple: "p \<le> length kvs" by (simp add: p_def pos_le)
  then have p16: "p < 65536" using len cfg by simp
  have ul: "usage n < 2 * B" using un len cfg by simp
  have ls: "linear_search B cmp n k
      = Some (if p < length kvs \<and> fst (kvs ! p) = k then FOUND OR p else GO_DOWN OR p)"
    using linear_search_eq[OF cmp un(1) tk, of B k] len cfg by (simp add: p_def Let_def)
  show ?case
  proof (cases "p < length kvs \<and> fst (kvs ! p) = k")
    case True
    have "member_node B cmp st a k = Some True"
      using n(1) ls True flag_found[OF p16] ul
      by (subst member_node.simps) simp
    moreover from found_pure(2)[OF lts _ _ so, where p = p and k = k] True
    have "map_of (inorder ?s) k \<noteq> None" by simp
    ultimately show ?thesis by simp
  next
    case nf: False
    then have nf': "\<not> (pos k kvs < length kvs \<and> fst (kvs ! pos k kvs) = k)" by (simp add: p_def)
    have fl: "(GO_DOWN OR p) AND FOUND = 0" "(GO_DOWN OR p) AND GO_DOWN_MASK = p"
      using flag_down[OF p16] by simp_all
    show ?thesis
    proof (cases "ts = []")
      case True
      then have leaf: "\<not> IsInternal n" using un by simp
      have "member_node B cmp st a k = Some False"
        using n(1) ls nf fl leaf ul by (subst member_node.simps) simp
      moreover have "map_of (inorder ?s) k = None"
        using leaf_pure(2)[OF nf'] so True by simp
      ultimately show ?thesis by simp
    next
      case False
      have int: "IsInternal n" using un False by simp
      have lt: "length ts = length kvs + 1" using lts False by simp
      then have plt: "p < length ts" using ple by simp
      define c where "c = ts ! p"
      have cin: "c \<in> set ts" using plt by (simp add: c_def)
      have rc: "rd (children n) p = Some (addr_of c)"
        using rd_take[OF tc _ plt] plt by (simp add: c_def)
      have eq0: "member_node B cmp st a k = member_node B cmp st (addr_of c) k"
        using n(1) ls nf fl int rc ul by (subst member_node.simps) simp
      define L where "L = inter_l (map inorder (take p ts)) (take p kvs)"
      define R where "R = inter_r (drop p kvs) (map inorder (drop (Suc p) ts))"
      from descend_pure[OF lt nf' so]
      have io: "inorder ?s = L @ inorder c @ R"
        and Lk: "\<forall>x \<in> set L. fst x < k"
        and Rk': "\<forall>x \<in> set R. k < fst x"
        and soc: "sorted_wrt (<) (map fst (inorder c))"
        by (simp_all add: L_def R_def c_def p_def)
      have ret: "map_of (inorder ?s) k = map_of (inorder c) k"
        unfolding io using map_of_mid[OF Lk Rk'] .
      have rpc: "repr B (heap st) c" using rp cin by simp
      have szc: "sized B c" using szk cin by simp
      from T.IH[OF cin rpc szc soc] show ?thesis using eq0 ret by simp
    qed
  qed
qed

lemma member_node_inv:
  fixes k :: "'k::linorder"
  assumes cfg: "2 \<le> B" "2 * B < 65536" and cmp: "three_way cmp"
    and inv: "tree_inv B st t h"
  shows "member_node B cmp st (addr_of t) k = Some (k \<in> fst ` set (inorder t))"
proof -
  have "member_node B cmp st (addr_of t) k = Some (map_of (inorder t) k \<noteq> None)"
    using member_node_sub[OF cfg cmp, of st t k] inv by (simp add: tree_inv_def tree_at_def)
  then show ?thesis by (simp add: map_of_eq_None_iff)
qed

subsection \<open>Chains of positions\<close>

lemma follows_Cons:
  "zs \<noteq> [] \<Longrightarrow> follows f (s # zs) e = (f s = Some (hd zs) \<and> follows f zs e)"
  by (cases zs) simp_all

lemma follows_append:
  "ys \<noteq> [] \<Longrightarrow> follows f (xs @ ys) e = (follows f xs (hd ys) \<and> follows f ys e)"
proof (induction xs)
  case Nil
  then show ?case by simp
next
  case (Cons x xs)
  show ?case
  proof (cases xs)
    case Nil
    then show ?thesis using Cons.prems by (simp add: follows_Cons)
  next
    case (Cons y ys')
    then show ?thesis using Cons.IH Cons.prems by simp
  qed
qed

lemma precedes_append:
  "precedes f b (xs @ ys) = (precedes f b xs \<and> precedes f (if xs = [] then b else last xs) ys)"
  by (induction xs arbitrary: b) auto

lemma follows_inter_r:
  assumes "length xs = length ss"
    and "follows f x0 (case ss of [] \<Rightarrow> e | s # _ \<Rightarrow> s)"
    and "\<forall>j < length ss. f (ss ! j) = Some (hd (xs ! j)) \<and> xs ! j \<noteq> []
           \<and> follows f (xs ! j) (if Suc j < length ss then ss ! Suc j else e)"
  shows "follows f (x0 @ inter_r ss xs) e"
  using assms
proof (induction ss arbitrary: x0 xs)
  case Nil
  then show ?case by simp
next
  case (Cons s ss)
  then obtain x xs' where xs: "xs = x # xs'" by (cases xs) auto
  have j0: "f s = Some (hd x)" "x \<noteq> []"
    "follows f x (if Suc 0 < length (s # ss) then (s # ss) ! Suc 0 else e)"
    using Cons.prems(3)[rule_format, of 0] xs by simp_all
  have f0: "follows f x (case ss of [] \<Rightarrow> e | s' # _ \<Rightarrow> s')"
    using j0(3) by (cases ss) simp_all
  have rest: "\<forall>j < length ss. f (ss ! j) = Some (hd (xs' ! j)) \<and> xs' ! j \<noteq> []
           \<and> follows f (xs' ! j) (if Suc j < length ss then ss ! Suc j else e)"
  proof (intro allI impI)
    fix j assume "j < length ss"
    then show "f (ss ! j) = Some (hd (xs' ! j)) \<and> xs' ! j \<noteq> []
           \<and> follows f (xs' ! j) (if Suc j < length ss then ss ! Suc j else e)"
      using Cons.prems(3)[rule_format, of "Suc j"] xs by (cases "Suc j < length ss") simp_all
  qed
  have len: "length xs' = length ss" using Cons.prems(1) xs by simp
  have tl: "follows f (x @ inter_r ss xs') e" using Cons.IH[OF len f0 rest] .
  have "follows f (s # (x @ inter_r ss xs')) e"
    using follows_Cons[of "x @ inter_r ss xs'" f s e] j0 tl by simp
  moreover have "follows f x0 s" using Cons.prems(2) by simp
  ultimately show ?case
    using follows_append[of "s # (x @ inter_r ss xs')" f x0 e] xs by simp
qed

lemma precedes_inter_r:
  assumes "length xs = length ss" and "x0 \<noteq> []" and "precedes f b x0"
    and "\<forall>j < length ss. f (ss ! j) = Some (last (if j = 0 then x0 else xs ! (j - 1)))
           \<and> xs ! j \<noteq> [] \<and> precedes f (ss ! j) (xs ! j)"
  shows "precedes f b (x0 @ inter_r ss xs)"
  using assms
proof (induction ss arbitrary: x0 xs b)
  case Nil
  then show ?case by simp
next
  case (Cons s ss)
  then obtain x xs' where xs: "xs = x # xs'" by (cases xs) auto
  have j0: "f s = Some (last x0)" "x \<noteq> []" "precedes f s x"
    using Cons.prems(4)[rule_format, of 0] xs by simp_all
  have rest: "\<forall>j < length ss. f (ss ! j) = Some (last (if j = 0 then x else xs' ! (j - 1)))
           \<and> xs' ! j \<noteq> [] \<and> precedes f (ss ! j) (xs' ! j)"
  proof (intro allI impI)
    fix j assume "j < length ss"
    then show "f (ss ! j) = Some (last (if j = 0 then x else xs' ! (j - 1)))
           \<and> xs' ! j \<noteq> [] \<and> precedes f (ss ! j) (xs' ! j)"
      using Cons.prems(4)[rule_format, of "Suc j"] xs by (cases j) simp_all
  qed
  have len: "length xs' = length ss" using Cons.prems(1) xs by simp
  have tl: "precedes f s (x @ inter_r ss xs')" using Cons.IH[OF len j0(2,3) rest] .
  show ?case
    using precedes_append[of f b x0 "s # (x @ inter_r ss xs')"] Cons.prems(2,3) j0 tl xs by simp
qed

lemma map_inter_r: "map g (inter_r ss xs) = inter_r (map g ss) (map (map g) xs)"
  by (induction ss xs rule: inter_r.induct) simp_all

lemma map_inter: "map g (inter xs ss) = inter (map (map g) xs) (map g ss)"
  by (cases xs) (simp_all add: inter_def map_inter_r)

lemma last_inter_r:
  "length xs = length ss \<Longrightarrow> ss \<noteq> [] \<Longrightarrow> \<forall>x \<in> set xs. x \<noteq> []
    \<Longrightarrow> last (inter_r ss xs) = last (last xs)"
proof (induction ss xs rule: inter_r.induct)
  case (1 s ss x xs)
  show ?case
  proof (cases ss)
    case Nil
    then show ?thesis using 1 by simp
  next
    case (Cons s' ss')
    then obtain x' xs' where "xs = x' # xs'" using 1(2) by (cases xs) auto
    then show ?thesis using 1 Cons by simp
  qed
qed simp_all

lemma follows_upt_from:
  assumes "\<forall>i < u. f (g i) = Some (if Suc i < u then g (Suc i) else e)"
  shows "follows f (map g [m..<u]) e"
proof (induction "u - m" arbitrary: m)
  case 0
  then show ?case by simp
next
  case (Suc d)
  then have m: "m < u" by simp
  then have up: "[m..<u] = m # [Suc m..<u]" by (simp add: upt_conv_Cons)
  have ih: "follows f (map g [Suc m..<u]) e" using Suc(1)[of "Suc m"] Suc(2) by simp
  show ?case
  proof (cases "Suc m < u")
    case True
    then have "[Suc m..<u] = Suc m # [Suc (Suc m)..<u]" by (simp add: upt_conv_Cons)
    then show ?thesis using up ih assms m True by simp
  next
    case False
    then have "[Suc m..<u] = []" by simp
    then show ?thesis using up assms m False by simp
  qed
qed

lemma follows_upt:
  "\<forall>i < u. f (g i) = Some (if Suc i < u then g (Suc i) else e) \<Longrightarrow> follows f (map g [0..<u]) e"
  by (rule follows_upt_from)

lemma precedes_upt_from:
  assumes "\<forall>i < u. f (g i) = Some (if i = 0 then b else g (i - 1))"
  shows "precedes f (if m = 0 then b else g (m - 1)) (map g [m..<u])"
proof (induction "u - m" arbitrary: m)
  case 0
  then show ?case by simp
next
  case (Suc d)
  then have m: "m < u" by simp
  then have up: "[m..<u] = m # [Suc m..<u]" by (simp add: upt_conv_Cons)
  have ih: "precedes f (g m) (map g [Suc m..<u])" using Suc(1)[of "Suc m"] Suc(2) by simp
  show ?case using up ih assms m by simp
qed

lemma precedes_upt:
  "\<forall>i < u. f (g i) = Some (if i = 0 then b else g (i - 1)) \<Longrightarrow> precedes f b (map g [0..<u])"
  using precedes_upt_from[of u f g b 0] by simp

lemma follows_nth:
  "follows f xs e \<Longrightarrow> Suc j < length xs \<Longrightarrow> f (xs ! j) = Some (xs ! Suc j)"
proof (induction f xs e arbitrary: j rule: follows.induct)
  case (3 f x y ys e)
  then show ?case by (cases j) simp_all
qed simp_all

lemma follows_last:
  "follows f xs e \<Longrightarrow> xs \<noteq> [] \<Longrightarrow> f (last xs) = Some e"
  by (induction f xs e rule: follows.induct) simp_all

lemma precedes_nth:
  "precedes f b xs \<Longrightarrow> Suc j < length xs \<Longrightarrow> f (xs ! Suc j) = Some (xs ! j)"
proof (induction xs arbitrary: b j)
  case Nil
  then show ?case by simp
next
  case (Cons x xs)
  show ?case
  proof (cases j)
    case 0
    then show ?thesis using Cons.prems by (cases xs) simp_all
  next
    case (Suc j')
    then show ?thesis using Cons.IH[of x j'] Cons.prems by simp
  qed
qed

lemma precedes_hd:
  "precedes f b xs \<Longrightarrow> xs \<noteq> [] \<Longrightarrow> f (hd xs) = Some b"
  by (cases xs) simp_all

subsection \<open>Successor and predecessor on the tree\<close>

lemma minus1u_pos: "0 < x \<Longrightarrow> x < 65536 \<Longrightarrow> minus1u x = x - 1"
proof -
  assume a: "0 < x" "x < 65536"
  have e: "x + 4294967295 = (x - 1) + 4294967296" using a by simp
  have "((x - 1) + 4294967296) mod 4294967296 = (x - 1) mod 4294967296"
    by (rule mod_add_self2)
  then have "(x + 4294967295) mod 4294967296 = x - 1" using a by (simp only: e) simp
  then show ?thesis using a by (simp add: minus1u_def u16_def)
qed

lemma exit_succ_root:
  "heap st a = Some n \<Longrightarrow> parent n = None \<Longrightarrow> exit_succ st a = Some \<lparr> idx = 0, node = None \<rparr>"
  by (simp add: exit_succ_def climb_succ.simps[of st a])

lemma exit_succ_step:
  "heap st a = Some n \<Longrightarrow> parent n = Some p \<Longrightarrow> heap st p = Some pn \<Longrightarrow>
   exit_succ st a = (if parent_idx n = usage pn then exit_succ st p
                     else Some \<lparr> idx = parent_idx n, node = Some p \<rparr>)"
  by (simp add: exit_succ_def climb_succ.simps[of st a])

lemma exit_pred_root:
  "heap st a = Some n \<Longrightarrow> parent n = None \<Longrightarrow> exit_pred st a = Some \<lparr> idx = 0, node = None \<rparr>"
  by (simp add: exit_pred_def climb_pred.simps[of st a])

lemma exit_pred_step:
  "heap st a = Some n \<Longrightarrow> parent n = Some p \<Longrightarrow>
   exit_pred st a = (if parent_idx n = 0 then exit_pred st p
                     else Some \<lparr> idx = minus1u (parent_idx n), node = Some p \<rparr>)"
  by (simp add: exit_pred_def climb_pred.simps[of st a])

lemma successor_leaf:
  "heap st a = Some n \<Longrightarrow> \<not> IsInternal n \<Longrightarrow>
   iter_incr st \<lparr> idx = i, node = Some a \<rparr>
     = (if int i < int (usage n) - 1 then Some \<lparr> idx = u16 (i + 1), node = Some a \<rparr>
        else exit_succ st a)"
  by (simp add: iter_incr_def successor_def exit_succ_def)

lemma successor_internal:
  "heap st a = Some n \<Longrightarrow> IsInternal n \<Longrightarrow> rd (children n) (i + 1) = Some c \<Longrightarrow>
   iter_incr st \<lparr> idx = i, node = Some a \<rparr> = min_node st c"
  by (simp add: iter_incr_def successor_def)

lemma predecessor_leaf:
  "heap st a = Some n \<Longrightarrow> \<not> IsInternal n \<Longrightarrow>
   pred_at st \<lparr> idx = i, node = Some a \<rparr>
     = (if i \<noteq> 0 then Some \<lparr> idx = minus1u i, node = Some a \<rparr> else exit_pred st a)"
  by (simp add: pred_at_def predecessor_def exit_pred_def)

lemma predecessor_internal:
  "heap st a = Some n \<Longrightarrow> IsInternal n \<Longrightarrow> rd (children n) i = Some c \<Longrightarrow>
   pred_at st \<lparr> idx = i, node = Some a \<rparr> = max_node st c"
  by (simp add: pred_at_def predecessor_def)

lemma posns_leaf:
  "posns (T a kvs []) = map (\<lambda>i. \<lparr> idx = i, node = Some a \<rparr>) [0..<length kvs]"
  by (simp add: inter_def)

lemma posns_internal:
  "posns (T a kvs (c # cs))
     = posns c @ inter_r (map (\<lambda>i. \<lparr> idx = i, node = Some a \<rparr>) [0..<length kvs]) (map posns cs)"
  by (simp add: inter_def)

lemma succ_sub:
  assumes cfg: "2 * B < 65536"
  shows "repr B (heap st) s \<Longrightarrow> sized B s \<Longrightarrow> exit_succ st (addr_of s) = Some E
    \<Longrightarrow> posns s \<noteq> [] \<and> min_node st (addr_of s) = Some (hd (posns s))
        \<and> follows (iter_incr st) (posns s) E"
proof (induction s arbitrary: E)
  case (T a kvs ts)
  let ?s = "T a kvs ts"
  note rp = T.prems(1) and sz = T.prems(2)
  have ex: "exit_succ st a = Some E" using T.prems(3) by simp
  define u where "u = length kvs"
  define g where "g = (\<lambda>i. \<lparr> idx = i, node = Some a \<rparr>)"
  define seps where "seps = map g [0..<u]"
  obtain n where n: "heap st a = Some n" "cell_ok B n kvs (map addr_of ts)"
    using repr_cell[OF rp] by auto
  have len: "1 \<le> u" "u \<le> 2 * B - 2"
    and lts: "ts \<noteq> [] \<longrightarrow> length ts = u + 1"
    and szk: "\<forall>t \<in> set ts. sized B t"
    using sz by (auto simp: u_def)
  have un: "usage n = u" "IsInternal n = (ts \<noteq> [])"
    and tc: "take (length ts) (children n) = map Some (map addr_of ts)"
    using n(2) by (simp_all add: cell_ok_def u_def)
  have u16: "u < 65536" using len cfg by simp
  have sne: "seps \<noteq> []" and shd: "hd seps = g 0" and sl: "length seps = u"
    and sn: "\<And>j. j < u \<Longrightarrow> seps ! j = g j"
    using len by (simp_all add: seps_def hd_map hd_upt)
  show ?case
  proof (cases ts)
    case Nil
    have leaf: "\<not> IsInternal n" using un Nil by simp
    have ps: "posns ?s = seps" using Nil by (simp add: posns_leaf seps_def g_def u_def)
    have mn: "min_node st a = Some (g 0)"
      using n(1) leaf by (subst min_node.simps) (simp add: g_def)
    have "\<forall>i < u. iter_incr st (g i) = Some (if Suc i < u then g (Suc i) else E)"
    proof (intro allI impI)
      fix i assume i: "i < u"
      then have "u16 (i + 1) = i + 1" using u16 by (simp add: u16_def)
      then show "iter_incr st (g i) = Some (if Suc i < u then g (Suc i) else E)"
        using successor_leaf[OF n(1) leaf, of i] un ex i by (auto simp: g_def)
    qed
    then have "follows (iter_incr st) seps E" unfolding seps_def by (rule follows_upt)
    then show ?thesis using ps sne shd mn by (simp del: posns.simps)
  next
    case (Cons c0 cs)
    have int: "IsInternal n" using un Cons by simp
    have lt: "length ts = u + 1" using lts Cons by simp
    then have lcs: "length cs = u" using Cons by simp
    have ps: "posns ?s = posns c0 @ inter_r seps (map posns cs)"
      using Cons by (simp add: posns_internal seps_def g_def u_def del: posns.simps)
    have child: "posns (ts ! i) \<noteq> [] \<and> min_node st (addr_of (ts ! i)) = Some (hd (posns (ts ! i)))
        \<and> follows (iter_incr st) (posns (ts ! i)) (if i = u then E else g i)"
      if i: "i \<le> u" for i
    proof -
      have ilt: "i < length ts" using i lt by simp
      then have cin: "ts ! i \<in> set ts" by simp
      have lk: "linked (heap st) (addr_of (ts ! i)) (Some a) i" using rp ilt by simp
      then obtain m where m: "heap st (addr_of (ts ! i)) = Some m" "parent m = Some a"
          "parent_idx m = i"
        by (auto simp: linked_def split: option.splits)
      have "exit_succ st (addr_of (ts ! i)) = Some (if i = u then E else g i)"
        using exit_succ_step[OF m(1,2) n(1)] m(3) un ex by (simp add: g_def)
      moreover have "repr B (heap st) (ts ! i)" "sized B (ts ! i)"
        using rp szk cin by simp_all
      ultimately show ?thesis using T.IH[OF cin] by blast
    qed
    have c0: "ts ! 0 = c0" and cj: "\<And>j. ts ! Suc j = cs ! j" using Cons by simp_all
    have mn: "min_node st a = Some (hd (posns c0))"
    proof -
      have "rd (children n) 0 = Some (addr_of c0)"
        using rd_take[OF tc, of 0] lt c0 by simp
      then have "min_node st a = min_node st (addr_of c0)"
        using n(1) int by (subst min_node.simps) simp
      then show ?thesis using child[of 0] c0 by simp
    qed
    have f0: "follows (iter_incr st) (posns c0) (case seps of [] \<Rightarrow> E | s # _ \<Rightarrow> s)"
    proof -
      have "(case seps of [] \<Rightarrow> E | s # _ \<Rightarrow> s) = g 0"
        using sne shd by (cases seps) simp_all
      then show ?thesis using child[of 0] c0 len by simp
    qed
    have rest: "\<forall>j < length seps. iter_incr st (seps ! j) = Some (hd (map posns cs ! j))
        \<and> map posns cs ! j \<noteq> []
        \<and> follows (iter_incr st) (map posns cs ! j)
            (if Suc j < length seps then seps ! Suc j else E)"
    proof (intro allI impI)
      fix j assume "j < length seps"
      then have j: "j < u" using sl by simp
      have rc: "rd (children n) (j + 1) = Some (addr_of (ts ! Suc j))"
        using rd_take[OF tc, of "Suc j"] lt j by simp
      have "iter_incr st (g j) = min_node st (addr_of (ts ! Suc j))"
        using successor_internal[OF n(1) int rc] by (simp add: g_def)
      then have "iter_incr st (seps ! j) = Some (hd (posns (cs ! j)))"
        using child[of "Suc j"] j sn cj by simp
      moreover have "posns (cs ! j) \<noteq> []" using child[of "Suc j"] j cj by simp
      moreover have "follows (iter_incr st) (posns (cs ! j)) (if Suc j = u then E else g (Suc j))"
        using child[of "Suc j"] j cj by simp
      then have "follows (iter_incr st) (posns (cs ! j))
            (if Suc j < length seps then seps ! Suc j else E)"
        using j sl sn[of "Suc j"] by (cases "Suc j = u") simp_all
      ultimately show "iter_incr st (seps ! j) = Some (hd (map posns cs ! j))
        \<and> map posns cs ! j \<noteq> []
        \<and> follows (iter_incr st) (map posns cs ! j)
            (if Suc j < length seps then seps ! Suc j else E)"
        using j lcs by simp
    qed
    have "follows (iter_incr st) (posns c0 @ inter_r seps (map posns cs)) E"
      using follows_inter_r[OF _ f0 rest] lcs sl by simp
    moreover have "posns c0 \<noteq> []" using child[of 0] c0 by simp
    ultimately show ?thesis using ps mn by (simp del: posns.simps)
  qed
qed


lemma pred_sub:
  assumes cfg: "2 * B < 65536"
  shows "repr B (heap st) s \<Longrightarrow> sized B s \<Longrightarrow> exit_pred st (addr_of s) = Some E
    \<Longrightarrow> posns s \<noteq> [] \<and> max_node st (addr_of s) = Some (last (posns s))
        \<and> precedes (pred_at st) E (posns s)"
proof (induction s arbitrary: E)
  case (T a kvs ts)
  let ?s = "T a kvs ts"
  note rp = T.prems(1) and sz = T.prems(2)
  have ex: "exit_pred st a = Some E" using T.prems(3) by simp
  define u where "u = length kvs"
  define g where "g = (\<lambda>i. \<lparr> idx = i, node = Some a \<rparr>)"
  define seps where "seps = map g [0..<u]"
  obtain n where n: "heap st a = Some n" "cell_ok B n kvs (map addr_of ts)"
    using repr_cell[OF rp] by auto
  have len: "1 \<le> u" "u \<le> 2 * B - 2"
    and lts: "ts \<noteq> [] \<longrightarrow> length ts = u + 1"
    and szk: "\<forall>t \<in> set ts. sized B t"
    using sz by (auto simp: u_def)
  have un: "usage n = u" "IsInternal n = (ts \<noteq> [])"
    and tc: "take (length ts) (children n) = map Some (map addr_of ts)"
    using n(2) by (simp_all add: cell_ok_def u_def)
  have u16: "u < 65536" using len cfg by simp
  have sne: "seps \<noteq> []" and sl: "length seps = u"
    and sn: "\<And>j. j < u \<Longrightarrow> seps ! j = g j"
    using len by (simp_all add: seps_def)
  have slast: "last seps = g (u - 1)"
    using sne sl sn[of "u - 1"] len by (simp add: last_conv_nth)
  show ?case
  proof (cases ts)
    case Nil
    have leaf: "\<not> IsInternal n" using un Nil by simp
    have ps: "posns ?s = seps" using Nil by (simp add: posns_leaf seps_def g_def u_def)
    have mx: "max_node st a = Some (g (u - 1))"
      using n(1) leaf un minus1u_pos[of u] len u16
      by (subst max_node.simps) (simp add: g_def)
    have "\<forall>i < u. pred_at st (g i) = Some (if i = 0 then E else g (i - 1))"
    proof (intro allI impI)
      fix i assume i: "i < u"
      then show "pred_at st (g i) = Some (if i = 0 then E else g (i - 1))"
        using predecessor_leaf[OF n(1) leaf, of i] ex minus1u_pos[of i] u16
        by (auto simp: g_def)
    qed
    then have "precedes (pred_at st) E seps" unfolding seps_def by (rule precedes_upt)
    then show ?thesis using ps sne slast mx by (simp del: posns.simps)
  next
    case (Cons c0 cs)
    have int: "IsInternal n" using un Cons by simp
    have lt: "length ts = u + 1" using lts Cons by simp
    then have lcs: "length cs = u" using Cons by simp
    have ps: "posns ?s = posns c0 @ inter_r seps (map posns cs)"
      using Cons by (simp add: posns_internal seps_def g_def u_def del: posns.simps)
    have child: "posns (ts ! i) \<noteq> [] \<and> max_node st (addr_of (ts ! i)) = Some (last (posns (ts ! i)))
        \<and> precedes (pred_at st) (if i = 0 then E else g (i - 1)) (posns (ts ! i))"
      if i: "i \<le> u" for i
    proof -
      have ilt: "i < length ts" using i lt by simp
      then have cin: "ts ! i \<in> set ts" by simp
      have lk: "linked (heap st) (addr_of (ts ! i)) (Some a) i" using rp ilt by simp
      then obtain m where m: "heap st (addr_of (ts ! i)) = Some m" "parent m = Some a"
          "parent_idx m = i"
        by (auto simp: linked_def split: option.splits)
      have "exit_pred st (addr_of (ts ! i)) = Some (if i = 0 then E else g (i - 1))"
        using exit_pred_step[OF m(1,2)] m(3) ex minus1u_pos[of i] i u16 by (simp add: g_def)
      moreover have "repr B (heap st) (ts ! i)" "sized B (ts ! i)"
        using rp szk cin by simp_all
      ultimately show ?thesis using T.IH[OF cin] by blast
    qed
    have c0: "ts ! 0 = c0" and cj: "\<And>j. ts ! Suc j = cs ! j" using Cons by simp_all
    have cne: "cs \<noteq> []" using lcs len by auto
    have allne: "\<forall>x \<in> set (map posns cs). x \<noteq> []"
    proof
      fix x assume "x \<in> set (map posns cs)"
      then obtain j where "j < length cs" "x = posns (cs ! j)"
        by (auto simp: in_set_conv_nth)
      then show "x \<noteq> []" using child[of "Suc j"] cj lcs by simp
    qed
    have mx: "max_node st a = Some (last (posns (last cs)))"
    proof -
      have "rd (children n) u = Some (addr_of (ts ! u))"
        using rd_take[OF tc, of u] lt by simp
      then have "max_node st a = max_node st (addr_of (ts ! u))"
        using n(1) int un by (subst max_node.simps) simp
      moreover have "ts ! u = last cs"
        using cj[of "u - 1"] len lcs cne by (simp add: last_conv_nth)
      ultimately show ?thesis using child[of u] by simp
    qed
    have rest: "\<forall>j < length seps.
        pred_at st (seps ! j) = Some (last (if j = 0 then posns c0 else map posns cs ! (j - 1)))
        \<and> map posns cs ! j \<noteq> []
        \<and> precedes (pred_at st) (seps ! j) (map posns cs ! j)"
    proof (intro allI impI)
      fix j assume "j < length seps"
      then have j: "j < u" using sl by simp
      have rc: "rd (children n) j = Some (addr_of (ts ! j))"
        using rd_take[OF tc, of j] lt j by simp
      have "pred_at st (g j) = max_node st (addr_of (ts ! j))"
        using predecessor_internal[OF n(1) int rc] by (simp add: g_def)
      then have "pred_at st (seps ! j) = Some (last (posns (ts ! j)))"
        using child[of j] j sn by simp
      moreover have "posns (ts ! j) = (if j = 0 then posns c0 else map posns cs ! (j - 1))"
        using c0 cj[of "j - 1"] j lcs by (cases j) simp_all
      moreover have "posns (cs ! j) \<noteq> []" using child[of "Suc j"] j cj by simp
      moreover have "precedes (pred_at st) (seps ! j) (posns (cs ! j))"
        using child[of "Suc j"] j cj sn by simp
      ultimately show "pred_at st (seps ! j) = Some (last (if j = 0 then posns c0 else map posns cs ! (j - 1)))
        \<and> map posns cs ! j \<noteq> []
        \<and> precedes (pred_at st) (seps ! j) (map posns cs ! j)"
        using j lcs by simp
    qed
    have p0: "posns c0 \<noteq> []" "precedes (pred_at st) E (posns c0)"
      using child[of 0] c0 by simp_all
    have "precedes (pred_at st) E (posns c0 @ inter_r seps (map posns cs))"
      using precedes_inter_r[OF _ p0 rest] lcs sl by simp
    moreover have "inter_r seps (map posns cs) \<noteq> []"
      using sne cne by (cases seps; cases cs) simp_all
    moreover have "last (inter_r seps (map posns cs)) = last (posns (last cs))"
      using last_inter_r[OF _ sne allne] lcs sl cne by (simp add: last_map)
    ultimately show ?thesis using ps mx p0 by (simp del: posns.simps)
  qed
qed

lemma deref_sub:
  "repr B (heap st) s \<Longrightarrow> sized B s \<Longrightarrow> map (iter_deref st) (posns s) = map Some (inorder s)"
proof (induction s)
  case (T a kvs ts)
  note rp = T.prems(1) and sz = T.prems(2)
  obtain n where n: "heap st a = Some n" "cell_ok B n kvs (map addr_of ts)"
    using repr_cell[OF rp] by auto
  have tk: "take (length kvs) (keys n) = map (\<lambda>kv. Some (fst kv)) kvs"
    and tv: "take (length kvs) (vals n) = map (\<lambda>kv. Some (snd kv)) kvs"
    using n(2) by (simp_all add: cell_ok_def)
  have "map (iter_deref st) (map (\<lambda>i. \<lparr> idx = i, node = Some a \<rparr>) [0..<length kvs])
      = map Some kvs"
  proof (rule nth_equalityI)
    show "length (map (iter_deref st) (map (\<lambda>i. \<lparr> idx = i, node = Some a \<rparr>) [0..<length kvs]))
        = length (map Some kvs)" by simp
  next
    fix i assume "i < length (map (iter_deref st) (map (\<lambda>i. \<lparr> idx = i, node = Some a \<rparr>) [0..<length kvs]))"
    then have i: "i < length kvs" by simp
    have "rd (keys n) i = Some (fst (kvs ! i))" "rd (vals n) i = Some (snd (kvs ! i))"
      using rd_take[OF tk _ i] rd_take[OF tv _ i] by simp_all
    then show "map (iter_deref st) (map (\<lambda>i. \<lparr> idx = i, node = Some a \<rparr>) [0..<length kvs]) ! i
        = map Some kvs ! i"
      using i n(1) by (simp add: iter_deref_def key_at_def value_at_def)
  qed
  moreover have "map (map (iter_deref st)) (map posns ts) = map (map Some) (map inorder ts)"
  proof -
    have "\<forall>t \<in> set ts. map (iter_deref st) (posns t) = map Some (inorder t)"
      using T.IH rp sz by simp
    then show ?thesis by simp
  qed
  ultimately show ?case by (simp only: posns.simps inorder.simps map_inter)
qed

subsection \<open>Traversal of the whole tree\<close>

lemma incr_end:
  fixes st :: "('k, 'v) state"
  shows "iter_incr st end_iter = None"
  by (simp add: iter_incr_def end_iter_def)

lemma deref_neq_end: "iter_deref st p = Some kv \<Longrightarrow> iter_neq p end_iter"
  by (cases "node p") (simp_all add: iter_deref_def iter_neq_def end_iter_def)

lemma traverse_run:
  "follows (iter_incr st) (p # ps) end_iter \<Longrightarrow> map (iter_deref st) (p # ps) = map Some kvs
    \<Longrightarrow> traverse_from st p = Some kvs"
proof (induction ps arbitrary: p kvs)
  case Nil
  then obtain kv where kv: "kvs = [kv]" "iter_deref st p = Some kv" by (cases kvs) auto
  have "traverse_from st end_iter = Some []"
    by (subst traverse_from.simps) (simp add: iter_neq_def)
  then show ?case
    using Nil(1) kv deref_neq_end[OF kv(2)] by (subst traverse_from.simps) simp
next
  case (Cons q ps)
  then obtain kv kvs' where kv: "kvs = kv # kvs'" "iter_deref st p = Some kv"
      "map (iter_deref st) (q # ps) = map Some kvs'"
    by (cases kvs) auto
  have "iter_incr st p = Some q" "follows (iter_incr st) (q # ps) end_iter"
    using Cons.prems(1) by simp_all
  then show ?case
    using Cons.IH[OF _ kv(3)] kv deref_neq_end[OF kv(2)]
    by (subst traverse_from.simps) simp
qed

lemma iter_inv:
  assumes cfg: "2 * B < 65536" and inv: "shape_inv B st t h"
  shows "posns t \<noteq> []" and "begin_iter st = Some (hd (posns t))"
    and "follows (iter_incr st) (posns t) end_iter"
    and "precedes (pred_at st) end_iter (posns t)"
    and "map (iter_deref st) (posns t) = map Some (inorder t)"
    and "max_node st (addr_of t) = Some (last (posns t))"
proof -
  have rp: "repr B (heap st) t" and sz: "sized B t" and rt: "root st = Some (addr_of t)"
    and lk: "linked (heap st) (addr_of t) None 0"
    using inv by (simp_all add: shape_inv_def tree_at_def)
  obtain n where n: "heap st (addr_of t) = Some n" "parent n = None"
    using lk by (auto simp: linked_def split: option.splits)
  have es: "exit_succ st (addr_of t) = Some end_iter"
    and ep: "exit_pred st (addr_of t) = Some end_iter"
    using exit_succ_root[OF n] exit_pred_root[OF n] by (simp_all add: end_iter_def)
  from succ_sub[OF cfg rp sz es] pred_sub[OF cfg rp sz ep]
  show "posns t \<noteq> []" "begin_iter st = Some (hd (posns t))"
    "follows (iter_incr st) (posns t) end_iter"
    "precedes (pred_at st) end_iter (posns t)"
    "max_node st (addr_of t) = Some (last (posns t))"
    using rt by (simp_all add: begin_iter_def)
  show "map (iter_deref st) (posns t) = map Some (inorder t)"
    using deref_sub[OF rp sz] .
qed

lemma traverse_inv:
  assumes cfg: "2 * B < 65536" and inv: "shape_inv B st t h"
  shows "traverse st = Some (inorder t)"
proof -
  note it = iter_inv[OF cfg inv]
  obtain p ps where ps: "posns t = p # ps" using it(1) by (cases "posns t") auto
  have "traverse_from st p = Some (inorder t)"
    using traverse_run[of st p ps "inorder t"] it(3,5) ps by simp
  then show ?thesis using it(2) ps by (simp add: traverse_def)
qed

lemma traverse_rep:
  assumes cfg: "2 * B < 65536" and rep: "rep_state B st xs"
  shows "traverse st = Some xs"
  using rep unfolding rep_state_def
proof (elim disjE exE conjE)
  assume "xs = []" "root st = None"
  moreover have "traverse_from st end_iter = Some []"
    by (subst traverse_from.simps) (simp add: iter_neq_def)
  ultimately show ?thesis by (simp add: traverse_def begin_iter_def)
next
  fix t h assume "tree_inv B st t h" "inorder t = xs"
  then show ?thesis using traverse_inv[OF cfg tree_inv_shape] by blast
qed

lemma steps_follows:
  assumes "follows (iter_incr st) ps e" "ps \<noteq> []" "iter_incr st e = None"
    "steps st n (hd ps) = Some it"
  shows "(n < length ps \<and> it = ps ! n) \<or> (n = length ps \<and> it = e)"
  using assms
proof (induction ps arbitrary: n)
  case Nil
  then show ?case by simp
next
  case (Cons x ps)
  show ?case
  proof (cases n)
    case 0
    then show ?thesis using Cons.prems by simp
  next
    case (Suc m)
    show ?thesis
    proof (cases ps)
      case Nil
      then have fx: "iter_incr st x = Some e" using Cons.prems(1) by simp
      then have "steps st m e = Some it" using Cons.prems(4) Suc by simp
      then have "m = 0 \<and> it = e" using Cons.prems(3) by (cases m) simp_all
      then show ?thesis using Suc Nil by simp
    next
      case (Cons y ys)
      then have "iter_incr st x = Some y" "follows (iter_incr st) ps e"
        using Cons.prems(1) by simp_all
      moreover from this have "steps st m (hd ps) = Some it"
        using Cons.prems(4) Suc Cons by simp
      ultimately show ?thesis
        using Cons.IH[of m] Cons.prems(3) Suc Cons by auto
    qed
  qed
qed

lemma length_posns:
  fixes st :: "('k, 'v) state"
  shows "repr B (heap st) s \<Longrightarrow> sized B s \<Longrightarrow> length (posns s) = length (inorder s)"
  using deref_sub[of B st s] by (metis length_map)

lemma pred_succ_inv:
  assumes cfg: "2 * B < 65536" and inv: "shape_inv B st t h"
    and st: "begin_iter st \<bind> steps st n = Some it"
    and nx: "iter_incr st it = Some it'" and ne: "it' \<noteq> end_iter"
  shows "pred_at st it' = Some it \<and> Suc n < length (inorder t)
    \<and> iter_deref st it = Some (inorder t ! n) \<and> iter_deref st it' = Some (inorder t ! Suc n)"
proof -
  note iv = iter_inv[OF cfg inv]
  define ps where "ps = posns t"
  have lp: "length ps = length (inorder t)"
    using length_posns[of B st t] inv by (simp add: ps_def shape_inv_def tree_at_def)
  have "steps st n (hd ps) = Some it" using st iv(2) by (simp add: ps_def)
  from steps_follows[OF iv(3)[folded ps_def] iv(1)[folded ps_def] incr_end this]
  have n: "n < length ps" "it = ps ! n" using nx incr_end[of st] by auto
  have sn: "Suc n < length ps"
  proof (rule ccontr)
    assume "\<not> Suc n < length ps"
    then have "n = length ps - 1" using n(1) by simp
    then have "ps ! n = last ps" using iv(1) by (simp add: last_conv_nth ps_def)
    then have "iter_incr st it = Some end_iter"
      using follows_last[OF iv(3) iv(1)] n(2) by (simp add: ps_def)
    then show False using nx ne by simp
  qed
  have it': "it' = ps ! Suc n"
    using follows_nth[OF iv(3)[folded ps_def] sn] nx n(2) by simp
  have d: "iter_deref st (ps ! j) = Some (inorder t ! j)" if "j < length ps" for j
  proof -
    have "map (iter_deref st) ps ! j = map Some (inorder t) ! j" using iv(5) by (simp add: ps_def)
    then show ?thesis using that lp by simp
  qed
  show ?thesis
    using precedes_nth[OF iv(4)[folded ps_def] sn] it' n sn lp d[of n] d[of "Suc n"] by simp
qed

subsection \<open>The tree of \<open>B = 1\<close>\<close>

lemma lone_first:
  assumes em: "root st = None" "\<forall>x. heap st x = None"
    and ins: "tree_insert 1 cmp st key value = Some (st', old)"
  shows "lone st'"
proof (cases key)
  case (Slot a i)
  then have "tree_insert 1 cmp st key value = None"
    using em by (simp add: tree_insert_def new_node_def upd_def blank_def key_ref_def key_at_def rd_def)
  then show ?thesis using ins by simp
next
  case k: (Temp k)
  show ?thesis
  proof (cases "value")
    case (Slot a i)
    then have "tree_insert 1 cmp st key value = None"
      using em k
      by (simp add: tree_insert_def new_node_def upd_def blank_def val_ref_def
          value_at_def wr_def rd_def)
    then show ?thesis using ins by simp
  next
    case v: (Temp v)
    then show ?thesis
      using em k ins
      by (auto simp: tree_insert_def new_node_def upd_def blank_def wr_def lone_def)
  qed
qed

lemma lone_step:
  assumes lo: "lone st" and ins: "tree_insert 1 cmp st key value = Some (st', old)"
  shows "lone st'"
proof -
  obtain a n k0 v0 where x: "root st = Some a" "heap st a = Some n" "\<not> IsInternal n"
      "usage n = 1" "parent n = None" "keys n = [Some k0]" "vals n = [Some v0]"
    using lo by (auto simp: lone_def)
  have ti: "insert_node 1 cmp st a key value = Some (st', old)"
    using ins x(1) by (simp add: tree_insert_def)
  obtain k where k: "key_ref st key = Some k"
    using ti x(2) by (subst (asm) insert_node_eq) (auto split: bind_splits)
  have ls: "linear_search 1 cmp n k
      = Some (if cmp k k0 < 0 then GO_DOWN OR 0 else if cmp k k0 = 0 then FOUND OR 0
              else GO_DOWN OR 1)"
    using x(4,6)
    by (simp add: linear_search_def linear_search_from.simps[of cmp n k 0]
        linear_search_from.simps[of cmp n k "Suc 0"] rd_def Let_def)
  have shift: "leaf_shift st a p = None" for p
    using x(2,4,7) by (simp add: leaf_shift_def move_backward_def)
  have f0: "(FOUND OR 0) AND FOUND \<noteq> 0" "(FOUND OR 0) AND FOUND_MASK = 0"
    using flag_found[of 0] by simp_all
  have g0: "(GO_DOWN OR 0) AND FOUND = 0" using flag_down[of 0] by simp
  have g1: "(GO_DOWN OR 1) AND FOUND = 0" using flag_down[of 1] by simp
  have eq: "cmp k k0 = 0"
  proof (rule ccontr)
    assume "cmp k k0 \<noteq> 0"
    then have "insert_node 1 cmp st a key value = None"
      using x(2,3) k ls g0 g1 shift by (subst insert_node_eq) simp
    then show False using ti by simp
  qed
  obtain v where v: "val_ref st value = Some v"
    using ti x(2,7) k ls eq f0
    by (subst (asm) insert_node_eq) (auto simp: rd_def split: bind_splits)
  have "st' = st\<lparr> heap := (heap st)(a \<mapsto> n\<lparr> vals := [Some v] \<rparr>) \<rparr>"
    using ti x(2,7) k ls eq f0 v
    by (subst (asm) insert_node_eq) (simp add: rd_def wr_def upd_def)
  then show ?thesis using x by (simp add: lone_def)
qed

lemma lone_all:
  "(root st = None \<and> (\<forall>x. heap st x = None)) \<or> lone st
    \<Longrightarrow> insert_all 1 cmp st calls = Some st'
    \<Longrightarrow> (root st' = None \<and> (\<forall>x. heap st' x = None)) \<or> lone st'"
proof (induction calls arbitrary: st)
  case Nil
  then show ?case by simp
next
  case (Cons c calls)
  obtain key "value" where c: "c = (key, value)" by (cases c)
  obtain st1 old where st1: "tree_insert 1 cmp st key value = Some (st1, old)"
      "insert_all 1 cmp st1 calls = Some st'"
    using Cons.prems(2) c by (auto split: option.splits)
  have "lone st1" using Cons.prems(1) lone_first[OF _ _ st1(1)] lone_step[OF _ st1(1)] by blast
  then show ?case using Cons.IH[OF _ st1(2)] by simp
qed

lemma lone_iter:
  assumes "lone st"
  shows "\<exists>a. begin_iter st = Some \<lparr> idx = 0, node = Some a \<rparr>
      \<and> iter_incr st \<lparr> idx = 0, node = Some a \<rparr> = Some end_iter"
proof -
  obtain a n where x: "root st = Some a" "heap st a = Some n" "\<not> IsInternal n"
      "usage n = 1" "parent n = None"
    using assms by (auto simp: lone_def)
  have "min_node st a = Some \<lparr> idx = 0, node = Some a \<rparr>"
    using x by (subst min_node.simps) simp
  moreover have "climb_succ st a = Some a" using x by (subst climb_succ.simps) simp
  then have "iter_incr st \<lparr> idx = 0, node = Some a \<rparr> = Some end_iter"
    using x by (simp add: iter_incr_def successor_def end_iter_def)
  ultimately show ?thesis using x(1) by (simp add: begin_iter_def)
qed

text \<open>In a tree with no position or one position, no position has a successor position.\<close>

lemma no_inner_position:
  fixes st :: "('k, 'v) state"
  assumes b: "begin_iter st = Some end_iter
      \<or> (\<exists>p. begin_iter st = Some p \<and> iter_incr st p = Some end_iter)"
    and st: "begin_iter st \<bind> steps st n = Some it"
    and nx: "iter_incr st it = Some it'"
  shows "it' = end_iter"
proof -
  have e: "steps st m end_iter = Some x \<Longrightarrow> m = 0 \<and> x = end_iter" for m x
    using incr_end[of st] by (cases m) simp_all
  from b show ?thesis
  proof
    assume "begin_iter st = Some end_iter"
    then have "it = end_iter" using st e[of n it] by simp
    then show ?thesis using nx incr_end[of st] by simp
  next
    assume "\<exists>p. begin_iter st = Some p \<and> iter_incr st p = Some end_iter"
    then obtain p where p: "begin_iter st = Some p" "iter_incr st p = Some end_iter" by blast
    show ?thesis
    proof (cases n)
      case 0
      then show ?thesis using st p nx by simp
    next
      case (Suc m)
      then have "steps st m end_iter = Some it" using st p by simp
      then have "it = end_iter" using e by blast
      then show ?thesis using nx incr_end[of st] by simp
    qed
  qed
qed

subsection \<open>Sequences of inserts\<close>

lemma three_way_int_compare: "three_way int_compare"
  by (auto simp: three_way_def int_compare_def)

lemma map_of_upsert:
  fixes k :: "'k::linorder"
  shows "map_of (upsert k v xs) = (map_of xs)(k \<mapsto> v)"
  by (induction k v xs rule: upsert.induct) (auto simp: fun_upd_twist)

lemma fold_upsert_props:
  fixes ops :: "('k::linorder \<times> 'v) list"
  shows "sorted_wrt (<) (map fst xs) \<Longrightarrow>
      sorted_wrt (<) (map fst (fold (\<lambda>kv. upsert (fst kv) (snd kv)) ops xs))"
    and "map_of (fold (\<lambda>kv. upsert (fst kv) (snd kv)) ops xs) = map_of (rev ops @ xs)"
proof (induction ops arbitrary: xs)
  case Nil
  { case 1 then show ?case by simp }
  { case 2 then show ?case by simp }
next
  case (Cons kv ops)
  { case 1
    then have "sorted_wrt (<) (map fst (upsert (fst kv) (snd kv) xs))" by (rule sorted_upsert)
    then show ?case using Cons.IH(1) by simp }
  { case 2
    have "map_of (rev ops @ upsert (fst kv) (snd kv) xs) = map_of (rev ops @ kv # xs)"
      by (cases kv) (simp add: map_of_append map_of_upsert)
    then show ?case using Cons.IH(2)[of "upsert (fst kv) (snd kv) xs"] by simp }
qed

lemma contents_props:
  fixes ops :: "('k::linorder \<times> 'v) list"
  shows "sorted_wrt (<) (map fst (contents ops))"
    and "fst ` set (contents ops) = fst ` set ops"
    and "map_of (contents ops) = map_of (rev ops)"
  using fold_upsert_props(1)[where xs = "[]" and ops = ops]
    fold_upsert_props(2)[where xs = "[]" and ops = ops] set_fold_upsert[of ops "[]"]
  by (simp_all add: contents_def)

lemma reach:
  fixes ops :: "('k::linorder \<times> 'v) list"
  assumes cfg: "2 \<le> B" "2 * B < 65536" and cmp: "three_way cmp"
  shows "\<exists>st. insert_all B cmp empty_tree (temps ops) = Some st \<and> rep_state B st (contents ops)"
  using insert_all_rep[OF cfg cmp rep_state_empty, of ops] by (simp add: contents_def)

lemma rep_state_tree:
  "rep_state B st xs \<Longrightarrow> xs \<noteq> [] \<Longrightarrow> \<exists>t h. tree_inv B st t h \<and> inorder t = xs"
  by (auto simp: rep_state_def)

lemma contents_nonempty:
  fixes ops :: "('k::linorder \<times> 'v) list"
  shows "ops \<noteq> [] \<Longrightarrow> contents ops \<noteq> []"
  using contents_props(2)[of ops] by (cases ops) auto

lemma usage_sub:
  "repr B h s \<Longrightarrow> sized B s \<Longrightarrow> x \<in> set (addrs s) \<Longrightarrow>
   \<exists>n. h x = Some n \<and> 1 \<le> usage n \<and> usage n \<le> 2 * B - 2"
proof (induction s)
  case (T a kvs ts)
  show ?case
  proof (cases "x = a")
    case True
    obtain n where "h a = Some n" "cell_ok B n kvs (map addr_of ts)"
      using repr_cell[OF T.prems(1)] by auto
    then show ?thesis using True T.prems(2) by (simp add: cell_ok_def)
  next
    case False
    then obtain t where t: "t \<in> set ts" "x \<in> set (addrs t)" using T.prems(3) by auto
    then have "repr B h t" "sized B t" using T.prems(1,2) by simp_all
    then show ?thesis using T.IH[OF t(1) _ _ t(2)] by simp
  qed
qed

lemma usage_rep:
  assumes "rep_state B st xs" "heap st a = Some n"
  shows "1 \<le> usage n \<and> usage n \<le> 2 * B - 2"
  using assms(1) unfolding rep_state_def
proof (elim disjE exE conjE)
  assume "\<forall>x. heap st x = None"
  then show ?thesis using assms(2) by simp
next
  fix t h assume inv: "tree_inv B st t h"
  then have "a \<in> set (addrs t)" using assms(2) by (auto simp: tree_inv_def)
  then show ?thesis
    using usage_sub[of B "heap st" t a] inv assms(2) by (auto simp: tree_inv_def tree_at_def)
qed

subsection \<open>The depth of the leaves\<close>

lemma leaf_at_bal:
  "repr B (heap st) s \<Longrightarrow> sized B s \<Longrightarrow> bal h s \<Longrightarrow> leaf_at st (addr_of s) d = (d = h)"
proof (induction s arbitrary: h d)
  case (T a kvs ts)
  note rp = T.prems(1) and sz = T.prems(2) and bl = T.prems(3)
  obtain n where n: "heap st a = Some n" "cell_ok B n kvs (map addr_of ts)"
    using repr_cell[OF rp] by auto
  have un: "usage n = length kvs" "IsInternal n = (ts \<noteq> [])"
    and tc: "take (length ts) (children n) = map Some (map addr_of ts)"
    using n(2) by (simp_all add: cell_ok_def)
  show ?case
  proof (cases ts)
    case Nil
    then have h0: "h = 0" using bl by (cases h) simp_all
    have leaf: "\<not> IsInternal n" using un Nil by simp
    have "leaf_at st a 0" using n(1) leaf by (rule leaf_at.here)
    moreover have "d = 0" if "leaf_at st a d"
      using that n(1) leaf by (cases rule: leaf_at.cases) simp_all
    ultimately show ?thesis using h0 by auto
  next
    case (Cons c0 cs)
    then obtain h' where h: "h = Suc h'" using bl by (cases h) simp_all
    have int: "IsInternal n" using un Cons by simp
    have lt: "length ts = length kvs + 1" using sz Cons by simp
    have kid: "leaf_at st (addr_of (ts ! i)) d' = (d' = h')" if "i < length ts" for i d'
    proof -
      have cin: "ts ! i \<in> set ts" using that by simp
      then have "repr B (heap st) (ts ! i)" "sized B (ts ! i)" "bal h' (ts ! i)"
        using rp sz bl h by simp_all
      then show ?thesis using T.IH[OF cin] by simp
    qed
    have rc: "rd (children n) i = Some (addr_of (ts ! i))" if "i < length ts" for i
      using rd_take[OF tc _ that] that by simp
    have "leaf_at st a (Suc h')"
      using leaf_at.below[OF n(1) int _ rc[of 0], of h'] kid[of 0 h'] lt by simp
    moreover have "d = Suc h'" if "leaf_at st a d"
      using that
    proof (cases rule: leaf_at.cases)
      case (here n')
      then show ?thesis using n(1) int by simp
    next
      case (below n' i c d')
      then have i: "i < length ts" using n(1) un lt by simp
      then have "c = addr_of (ts ! i)" using rc[of i] below n(1) by simp
      then show ?thesis using kid[OF i, of d'] below by simp
    qed
    ultimately show ?thesis using h by auto
  qed
qed

subsection \<open>The example states\<close>

lemma two_leaf_step: "tree_insert 2 int_compare one_leaf (Temp 3) (Temp 30) = Some (two_leaf, None)"
proof -
  have ls: "linear_search 2 int_compare
     \<lparr> IsInternal = False, keys = [Some 5, None, None], vals = [Some (50::int), None, None],
       children = [], parent = None, usage = 1, parent_idx = 0 \<rparr> 3 = Some (GO_DOWN OR 0)"
    by (simp add: linear_search_def linear_search_from.simps rd_def int_compare_def)
  have "insert_node 2 int_compare one_leaf 0 (Temp 3) (Temp 30) = Some (two_leaf, None)"
    using ls flag_down[of 0]
    by (subst insert_node.simps)
       (simp add: one_leaf_def two_leaf_def move_backward_def wr_def upd_def u16_def
          key_ref_def val_ref_def numeral_2_eq_2)
  then show ?thesis by (simp add: tree_insert_def one_leaf_def)
qed

lemma two_leaf_reached:
  "insert_all 2 int_compare empty_tree (temps [(5, 50), (3, 30)]) = Some two_leaf"
  by (simp add: temps_def one_leaf_reached two_leaf_step)

lemma three_tree_step: "tree_insert 2 int_compare two_leaf (Temp 8) (Temp 80) = Some (three_tree, None)"
proof -
  have ls: "linear_search 2 int_compare
     \<lparr> IsInternal = False, keys = [Some 3, Some 5, None], vals = [Some (30::int), Some 50, None],
       children = [], parent = None, usage = 2, parent_idx = 0 \<rparr> 8 = Some (GO_DOWN OR 2)"
    by (simp add: linear_search_def linear_search_from.simps rd_def int_compare_def)
  define full :: "(int, int) state" where "full =
     \<lparr> heap = (\<lambda>a. None)(0 \<mapsto>
         \<lparr> IsInternal = False, keys = [Some 3, Some 5, Some 8],
           vals = [Some 30, Some 50, Some 80],
           children = [], parent = None, usage = 3, parent_idx = 0 \<rparr>),
       next_addr = Suc 0, root = Some 0 \<rparr>"
  define halves :: "(int, int) state" where "halves =
     \<lparr> heap = (\<lambda>a. None)
         (0 \<mapsto> \<lparr> IsInternal = False, keys = [Some 3, Some 5, Some 8],
                 vals = [Some 30, Some 50, Some 80],
                 children = [], parent = None, usage = 0, parent_idx = 0 \<rparr>,
          1 \<mapsto> \<lparr> IsInternal = False, keys = [Some 3, None, None],
                 vals = [Some 30, None, None],
                 children = [], parent = None, usage = 1, parent_idx = 0 \<rparr>,
          2 \<mapsto> \<lparr> IsInternal = False, keys = [Some 8, None, None],
                 vals = [Some 80, None, None],
                 children = [], parent = None, usage = 1, parent_idx = 0 \<rparr>),
       next_addr = 3, root = Some 0 \<rparr>"
  have sp: "split_node 2 full 0 = Some (halves, 1, 2, 5, 50)"
    by (simp add: split_node_def full_def halves_def new_node_def blank_def upd_def u16_def
        copy_range_def rd_def fun_eq_iff numeral_3_eq_3 numeral_2_eq_2)
  have hh: "heap halves 0 \<bind> f = f \<lparr> IsInternal = False, keys = [Some 3, Some 5, Some 8],
                 vals = [Some 30, Some 50, Some 80],
                 children = [], parent = None, usage = 0, parent_idx = 0 \<rparr>"
    "root halves = Some 0" for f :: "(int, int) BTreeNode \<Rightarrow> ((int, int) state \<times> int option) option"
    by (simp_all add: halves_def)
  have dl: "delete halves 0 = Some (halves\<lparr> heap := (heap halves)(0 := None) \<rparr>)"
    using delete_flat[of halves 0] by (simp add: halves_def)
  have rt: "three_tree\<lparr> root := Some 3 \<rparr> = three_tree"
    by (simp add: three_tree_def)
  have sg: "singleton 2 (halves\<lparr> heap := (heap halves)(0 := None) \<rparr>) (Suc 0) 2 5 50
      = Some (three_tree\<lparr> root := Some 0 \<rparr>, 3)"
    by (simp add: singleton_def halves_def three_tree_def new_node_def blank_def upd_def wr_def
        fun_eq_iff numeral_3_eq_3 numeral_2_eq_2)
  have "insert_node 2 int_compare two_leaf 0 (Temp 8) (Temp 80) = Some (three_tree, None)"
    using ls flag_down[of 2]
    by (subst insert_node.simps)
       (simp add: two_leaf_def move_backward_def wr_def upd_def u16_def key_ref_def val_ref_def
          full_def[symmetric] sp hh dl sg rt)
  then show ?thesis by (simp add: tree_insert_def two_leaf_def)
qed

lemma three_tree_reached:
  "insert_all 2 int_compare empty_tree (temps [(5, 50), (3, 30), (8, 80)]) = Some three_tree"
  by (simp add: temps_def one_leaf_reached two_leaf_step three_tree_step)

subsection \<open>States reached with the default comparator, and with \<open>B = 1\<close>\<close>

lemma replicate_11: "replicate 11 x = [x, x, x, x, x, x, x, x, x, x, x]"
  by (simp add: eval_nat_numeral)

lemma wide_leaf_reached:
  "insert_all 6 default_compare_long empty_tree (temps [(4294967296, 7)]) = Some wide_leaf"
  by (simp add: temps_def tree_insert_def empty_tree_def new_node_def blank_def upd_def wr_def
      key_ref_def val_ref_def wide_leaf_def fun_eq_iff replicate_11)

lemma lone_leaf_reached:
  "insert_all 1 int_compare empty_tree (temps [(5, 50)]) = Some lone_leaf"
  by (simp add: temps_def tree_insert_def empty_tree_def new_node_def blank_def upd_def wr_def
      key_ref_def val_ref_def lone_leaf_def fun_eq_iff)

lemma wide_leaf_search:
  "linear_search 6 default_compare_long
     \<lparr> IsInternal = False,
       keys = [Some 4294967296, None, None, None, None, None, None, None, None, None, None],
       vals = [Some (7 :: int), None, None, None, None, None, None, None, None, None, None],
       children = [], parent = None, usage = 1, parent_idx = 0 \<rparr> k
   = Some (if default_compare_long k 4294967296 < 0 then GO_DOWN OR 0
           else if default_compare_long k 4294967296 = 0 then FOUND OR 0 else GO_DOWN OR 1)"
  by (simp add: linear_search_def linear_search_from.simps[of _ _ _ 0]
      linear_search_from.simps[of _ _ _ "Suc 0"] rd_def Let_def)

lemma wide_leaf_traverse: "traverse wide_leaf = Some [(4294967296, 7)]"
proof -
  have "shape_inv 6 wide_leaf (T 0 [(4294967296, 7)] []) 0"
    by (simp add: shape_inv_def tree_at_def alloc_ok_def cell_ok_def linked_def wide_leaf_def)
  from traverse_inv[OF _ this] show ?thesis by (simp add: inter_def)
qed

lemma wide_leaf_overwritten:
  "\<exists>st. tree_insert 6 default_compare_long wide_leaf (Temp 0) (Temp 1) = Some (st, Some 7)
     \<and> traverse st = Some [(4294967296, 1)]"
proof -
  define st :: "(64 word, int) state" where
    "st = \<lparr> heap = (\<lambda>a. None)(0 \<mapsto>
     \<lparr> IsInternal = False,
       keys = [Some 4294967296, None, None, None, None, None, None, None, None, None, None],
       vals = [Some 1, None, None, None, None, None, None, None, None, None, None],
       children = [], parent = None, usage = 1, parent_idx = 0 \<rparr>),
       next_addr = 1, root = Some 0 \<rparr>"
  have "insert_node 6 default_compare_long wide_leaf 0 (Temp 0) (Temp 1) = Some (st, Some 7)"
    using flag_found[of 0] wide_leaf_search[of 0]
    by (subst insert_node.simps)
       (simp add: wide_leaf_def default_compare_long_def key_ref_def val_ref_def
          rd_def wr_def upd_def st_def)
  then have "tree_insert 6 default_compare_long wide_leaf (Temp 0) (Temp 1) = Some (st, Some 7)"
    by (simp add: tree_insert_def wide_leaf_def)
  moreover have "shape_inv 6 st (T 0 [(4294967296, 1)] []) 0"
    by (simp add: shape_inv_def tree_at_def alloc_ok_def cell_ok_def linked_def st_def)
  from traverse_inv[OF _ this] have "traverse st = Some [(4294967296, 1)]"
    by (simp add: inter_def)
  ultimately show ?thesis by blast
qed

lemma wide_leaf_member:
  "member_node 6 default_compare_long wide_leaf 0 8589934592 = Some True"
  using flag_found[of 0] wide_leaf_search[of 8589934592]
  by (subst member_node.simps) (simp add: wide_leaf_def default_compare_long_def)

lemma wrapped_leaf_reached:
  "insert_all 6 default_compare_int empty_tree
     (temps [(1, 10), (- 2147483648, 20), (0, 30)]) = Some wrapped_leaf"
proof -
  define s1 :: "(32 word, int) state" where
    "s1 = \<lparr> heap = (\<lambda>a. None)(0 \<mapsto>
     \<lparr> IsInternal = False,
       keys = [Some 1, None, None, None, None, None, None, None, None, None, None],
       vals = [Some 10, None, None, None, None, None, None, None, None, None, None],
       children = [], parent = None, usage = 1, parent_idx = 0 \<rparr>),
       next_addr = 1, root = Some 0 \<rparr>"
  define s2 :: "(32 word, int) state" where
    "s2 = \<lparr> heap = (\<lambda>a. None)(0 \<mapsto>
     \<lparr> IsInternal = False,
       keys = [Some 1, Some (- 2147483648), None, None, None, None, None, None, None, None, None],
       vals = [Some 10, Some 20, None, None, None, None, None, None, None, None, None],
       children = [], parent = None, usage = 2, parent_idx = 0 \<rparr>),
       next_addr = 1, root = Some 0 \<rparr>"
  have i1: "tree_insert 6 default_compare_int empty_tree (Temp 1) (Temp 10) = Some (s1, None)"
    by (simp add: tree_insert_def empty_tree_def new_node_def blank_def upd_def wr_def
        key_ref_def val_ref_def s1_def fun_eq_iff replicate_11)
  have l2: "linear_search 6 default_compare_int
     \<lparr> IsInternal = False,
       keys = [Some 1, None, None, None, None, None, None, None, None, None, None],
       vals = [Some (10 :: int), None, None, None, None, None, None, None, None, None, None],
       children = [], parent = None, usage = 1, parent_idx = 0 \<rparr> (- 2147483648) = Some (GO_DOWN OR 1)"
    by (simp add: linear_search_def linear_search_from.simps[of _ _ _ 0]
        linear_search_from.simps[of _ _ _ "Suc 0"] rd_def Let_def default_compare_int_def)
  have "insert_node 6 default_compare_int s1 0 (Temp (- 2147483648)) (Temp 20) = Some (s2, None)"
    using l2 flag_down[of 1]
    by (subst insert_node.simps)
       (simp add: s1_def s2_def move_backward_def wr_def upd_def u16_def key_ref_def val_ref_def
          numeral_2_eq_2)
  then have i2: "tree_insert 6 default_compare_int s1 (Temp (- 2147483648)) (Temp 20)
      = Some (s2, None)"
    by (simp add: tree_insert_def s1_def)
  have l3: "linear_search 6 default_compare_int
     \<lparr> IsInternal = False,
       keys = [Some 1, Some (- 2147483648), None, None, None, None, None, None, None, None, None],
       vals = [Some (10 :: int), Some 20, None, None, None, None, None, None, None, None, None],
       children = [], parent = None, usage = 2, parent_idx = 0 \<rparr> 0 = Some (GO_DOWN OR 0)"
    by (simp add: linear_search_def linear_search_from.simps[of _ _ _ 0]
        rd_def Let_def default_compare_int_def)
  have "insert_node 6 default_compare_int s2 0 (Temp 0) (Temp 30) = Some (wrapped_leaf, None)"
    using l3 flag_down[of 0]
    by (subst insert_node.simps)
       (simp add: s2_def wrapped_leaf_def move_backward_def wr_def upd_def u16_def
          key_ref_def val_ref_def)
  then have i3: "tree_insert 6 default_compare_int s2 (Temp 0) (Temp 30)
      = Some (wrapped_leaf, None)"
    by (simp add: tree_insert_def s2_def)
  show ?thesis by (simp add: temps_def i1 i2 i3)
qed

lemma wrapped_leaf_search:
  "linear_search 6 default_compare_int
     \<lparr> IsInternal = False,
       keys = [Some 0, Some 1, Some (- 2147483648), None, None, None, None, None, None, None, None],
       vals = [Some (30 :: int), Some 10, Some 20, None, None, None, None, None, None, None, None],
       children = [], parent = None, usage = 3, parent_idx = 0 \<rparr> (- 2147483648) = Some (GO_DOWN OR 0)"
  by (simp add: linear_search_def linear_search_from.simps[of _ _ _ 0]
      rd_def Let_def default_compare_int_def)

lemma wrapped_leaf_traverse:
  "traverse wrapped_leaf = Some [(0, 30), (1, 10), (- 2147483648, 20)]"
proof -
  have "shape_inv 6 wrapped_leaf (T 0 [(0, 30), (1, 10), (- 2147483648, 20)] []) 0"
    by (simp add: shape_inv_def tree_at_def alloc_ok_def cell_ok_def linked_def wrapped_leaf_def)
  from traverse_inv[OF _ this] show ?thesis by (simp add: inter_def)
qed

lemma wrapped_leaf_member:
  "member_node 6 default_compare_int wrapped_leaf 0 (- 2147483648) = Some False"
  using flag_down[of 0] wrapped_leaf_search
  by (subst member_node.simps) (simp add: wrapped_leaf_def)

lemma doubled_leaf_step:
  "tree_insert 6 default_compare_int wrapped_leaf (Temp (- 2147483648)) (Temp 21)
     = Some (doubled_leaf, None)"
proof -
  have "insert_node 6 default_compare_int wrapped_leaf 0 (Temp (- 2147483648)) (Temp 21)
      = Some (doubled_leaf, None)"
    using wrapped_leaf_search flag_down[of 0]
    by (subst insert_node.simps)
       (simp add: wrapped_leaf_def doubled_leaf_def move_backward_def wr_def upd_def u16_def
          key_ref_def val_ref_def)
  then show ?thesis by (simp add: tree_insert_def wrapped_leaf_def)
qed

lemma doubled_leaf_traverse:
  "traverse doubled_leaf
     = Some [(- 2147483648, 21), (0, 30), (1, 10), (- 2147483648, 20)]"
proof -
  have "shape_inv 6 doubled_leaf
      (T 0 [(- 2147483648, 21), (0, 30), (1, 10), (- 2147483648, 20)] []) 0"
    by (simp add: shape_inv_def tree_at_def alloc_ok_def cell_ok_def linked_def doubled_leaf_def)
  from traverse_inv[OF _ this] show ?thesis by (simp add: inter_def)
qed


subsection \<open>Sequences of inserts, with a three-way comparator\<close>

text \<open>
  With \<open>2 \<le> B\<close> and a comparator that is three-way on a linear order of the keys, all
  inserts return, and the loop from \<^verbatim>\<open>begin()\<close> to \<^verbatim>\<open>end()\<close> yields the inserted keys
  in strictly ascending order, each once, with the value of its last insert.
\<close>

lemma traversal_three_way:
  fixes ops :: "('k::linorder \<times> 'v) list"
  assumes "2 \<le> B" and "2 * B < 65536" and "three_way cmp"
  shows "\<exists>st xs. insert_all B cmp empty_tree (temps ops) = Some st \<and> traverse st = Some xs
      \<and> sorted_wrt (<) (map fst xs) \<and> distinct (map fst xs)
      \<and> set (map fst xs) = fst ` set ops \<and> map_of xs = map_of (rev ops)"
proof -
  from reach[OF assms, of ops] obtain st where
    st: "insert_all B cmp empty_tree (temps ops) = Some st" "rep_state B st (contents ops)"
    by blast
  have "traverse st = Some (contents ops)" using traverse_rep[OF assms(2) st(2)] .
  moreover have "distinct (map fst (contents ops))"
    using contents_props(1)[of ops] by (simp add: strict_sorted_iff)
  ultimately show ?thesis
    using st(1) contents_props[of ops] by auto
qed

text \<open>Then \<^verbatim>\<open>member\<close> on the root answers true exactly for the inserted keys.\<close>

lemma member_three_way:
  fixes ops :: "('k::linorder \<times> 'v) list"
  assumes "2 \<le> B" and "2 * B < 65536" and "three_way cmp" and "ops \<noteq> []"
  shows "\<exists>st r. insert_all B cmp empty_tree (temps ops) = Some st \<and> root st = Some r
      \<and> (\<forall>k. member_node B cmp st r k = Some (k \<in> fst ` set ops))"
proof -
  from reach[OF assms(1-3), of ops] obtain st where
    st: "insert_all B cmp empty_tree (temps ops) = Some st" "rep_state B st (contents ops)"
    by blast
  from rep_state_tree[OF st(2) contents_nonempty[OF assms(4)]] obtain t h where
    t: "tree_inv B st t h" "inorder t = contents ops"
    by blast
  have "member_node B cmp st (addr_of t) k = Some (k \<in> fst ` set ops)" for k
    using member_node_inv[OF assms(1-3) t(1), of k] t(2) contents_props(2)[of ops] by simp
  moreover have "root st = Some (addr_of t)" using t(1) by (simp add: tree_inv_def)
  ultimately show ?thesis using st(1) by blast
qed

text \<open>
  And \<^verbatim>\<open>insert(k, v)\<close> returns the value the traversal holds for \<open>k\<close>, or none; afterwards
  the traversal maps \<open>k\<close> to \<open>v\<close> and is otherwise unchanged.
\<close>

lemma update_three_way:
  fixes ops :: "('k::linorder \<times> 'v) list"
  assumes "2 \<le> B" and "2 * B < 65536" and "three_way cmp"
  shows "\<exists>st xs st' xs'. insert_all B cmp empty_tree (temps ops) = Some st
      \<and> traverse st = Some xs \<and> xs = contents ops \<and> distinct (map fst xs)
      \<and> tree_insert B cmp st (Temp k) (Temp v) = Some (st', map_of xs k)
      \<and> traverse st' = Some xs' \<and> distinct (map fst xs')
      \<and> map_of xs' = (map_of xs)(k \<mapsto> v)
      \<and> length xs' = (case map_of xs k of None \<Rightarrow> length xs + 1 | Some old \<Rightarrow> length xs)"
proof -
  from reach[OF assms, of ops] obtain st where
    st: "insert_all B cmp empty_tree (temps ops) = Some st" "rep_state B st (contents ops)"
    by blast
  define xs where "xs = contents ops"
  have so: "sorted_wrt (<) (map fst xs)" using contents_props(1)[of ops] by (simp add: xs_def)
  from tree_insert_rep[OF assms st(2), of k v] obtain st' where
    st': "tree_insert B cmp st (Temp k) (Temp v) = Some (st', map_of xs k)"
      "rep_state B st' (upsert k v xs)"
    by (auto simp: xs_def)
  have "traverse st = Some xs" using traverse_rep[OF assms(2) st(2)] by (simp add: xs_def)
  moreover have "traverse st' = Some (upsert k v xs)" using traverse_rep[OF assms(2) st'(2)] .
  moreover have "distinct (map fst xs)" using so by (simp add: strict_sorted_iff)
  moreover have "distinct (map fst (upsert k v xs))"
    using sorted_upsert[OF so, of k v] by (simp add: strict_sorted_iff)
  moreover have "length (upsert k v xs)
      = (case map_of xs k of None \<Rightarrow> length xs + 1 | Some old \<Rightarrow> length xs)"
    using length_upsert[OF so, of k v] map_of_eq_None_iff[of xs k]
    by (cases "map_of xs k") auto
  ultimately show ?thesis
    using st(1) st'(1) map_of_upsert[of k v xs] xs_def by blast
qed

subsection \<open>Sequences of inserts, with any comparator\<close>

text \<open>
  The shape of the tree does not depend on the comparator. With \<open>2 \<le> B\<close>, whatever the
  comparator returns: all inserts of keys and values that are no slots of the tree
  return; after any calls that returned, every node holds between 1 and \<open>2B - 2\<close> pairs;
  and all leaves are at one depth, which one more insert leaves as it is or raises by
  one, with a new singleton root above the halves of the old one.
\<close>

lemma inserts_return:
  assumes "2 \<le> B" and "2 * B < 65536"
  shows "\<exists>st. insert_all B cmp empty_tree (temps ops) = Some st"
  using insert_all_total[OF assms shape_state_empty] .

lemma usage_any_comparator:
  assumes "2 \<le> B" and "2 * B < 65536"
    and "insert_all B cmp empty_tree calls = Some st" and "heap st a = Some n"
  shows "1 \<le> usage n \<and> usage n \<le> 2 * B - 2"
proof -
  have "shape_state B st"
    using insert_all_shape[OF assms(1,2) shape_state_empty assms(3)] .
  then obtain t h where inv: "shape_inv B st t h"
    using assms(4) by (auto simp: shape_state_def)
  then have "a \<in> set (addrs t)" using assms(4) by (auto simp: shape_inv_def)
  then show ?thesis
    using usage_sub[of B "heap st" t a] inv assms(4) by (auto simp: shape_inv_def tree_at_def)
qed

lemma balance_any_comparator:
  assumes "2 \<le> B" and "2 * B < 65536"
    and "insert_all B cmp empty_tree calls = Some st" and "root st = Some r"
  shows "\<exists>h. (\<forall>d. leaf_at st r d = (d = h))
      \<and> (\<forall>key value st' old. tree_insert B cmp st key value = Some (st', old) \<longrightarrow>
            (\<exists>r' h'. root st' = Some r' \<and> (\<forall>d. leaf_at st' r' d = (d = h'))
               \<and> (h' = h \<and> r' = r
                   \<or> h' = Suc h \<and> r' \<noteq> r \<and> heap st' r = None \<and> singleton_root st' r')))"
proof -
  have "shape_state B st"
    using insert_all_shape[OF assms(1,2) shape_state_empty assms(3)] .
  then obtain t h where t: "shape_inv B st t h"
    using assms(4) by (auto simp: shape_state_def)
  have r: "r = addr_of t" using t assms(4) by (simp add: shape_inv_def)
  have depth: "leaf_at s (addr_of u) d = (d = g)" if "shape_inv B s u g" for s u g d
    using leaf_at_bal[of B s u g d] that by (simp add: shape_inv_def tree_at_def)
  have step: "\<exists>r' h'. root st' = Some r' \<and> (\<forall>d. leaf_at st' r' d = (d = h'))
               \<and> (h' = h \<and> r' = r
                   \<or> h' = Suc h \<and> r' \<noteq> r \<and> heap st' r = None \<and> singleton_root st' r')"
    if ins: "tree_insert B cmp st key value = Some (st', old)" for key "value" st' old
  proof -
    from tree_insert_shape[OF assms(1,2) t, of cmp key "value"] ins obtain t' h' where
      x: "shape_inv B st' t' h'"
        "h' = h \<and> addr_of t' = addr_of t
          \<or> h' = Suc h \<and> heap st' (addr_of t) = None
             \<and> (\<exists>a p l r. t' = T a [p] [l, r] \<and> a \<notin> set (addrs t))"
      by auto
    have rt: "root st' = Some (addr_of t')" using x(1) by (simp add: shape_inv_def)
    have dp: "\<forall>d. leaf_at st' (addr_of t') d = (d = h')" using depth[OF x(1)] by simp
    from x(2) show ?thesis
    proof
      assume "h' = h \<and> addr_of t' = addr_of t"
      then show ?thesis using rt dp r by auto
    next
      assume b: "h' = Suc h \<and> heap st' (addr_of t) = None
             \<and> (\<exists>a p l r. t' = T a [p] [l, r] \<and> a \<notin> set (addrs t))"
      then obtain a p l r' where t': "t' = T a [p] [l, r']" "a \<notin> set (addrs t)" by blast
      have ne: "a \<noteq> addr_of t" using t'(2) by (cases t) auto
      have rp: "repr B (heap st') (T a [p] [l, r'])" and lk: "linked (heap st') a None 0"
        using x(1) t'(1) by (simp_all add: shape_inv_def tree_at_def)
      obtain n where n: "heap st' a = Some n" "cell_ok B n [p] (map addr_of [l, r'])"
        using repr_cell[OF rp] by auto
      have tc: "take (length [l, r']) (children n) = map Some (map addr_of [l, r'])"
        using n(2) by (simp add: cell_ok_def)
      have "rd (children n) 0 = Some (addr_of l)" "rd (children n) 1 = Some (addr_of r')"
        using rd_take[OF tc, of 0] rd_take[OF tc, of 1] by simp_all
      then have "singleton_root st' a"
        using n lk by (simp add: singleton_root_def cell_ok_def linked_def)
      then show ?thesis using rt dp b t'(1) ne r by auto
    qed
  qed
  have "\<forall>d. leaf_at st r d = (d = h)" using depth[OF t] r by simp
  then show ?thesis using step by blast
qed

text \<open>
  The arguments of \<^verbatim>\<open>insert\<close> are references, read after the tail of the leaf was
  shifted: a value argument that is the second slot of the leaf itself holds 50 at the
  call, and 30 when it is read.
\<close>

lemma aliased_value_shifted:
  "\<exists>st. tree_insert 2 int_compare two_leaf (Temp 1) (Slot 0 1) = Some (st, None)
     \<and> val_ref two_leaf (Slot 0 1) = Some 50
     \<and> traverse st = Some [(1, 30), (3, 30), (5, 50)]"
proof -
  have ls: "linear_search 2 int_compare
     \<lparr> IsInternal = False, keys = [Some 3, Some 5, None], vals = [Some (30::int), Some 50, None],
       children = [], parent = None, usage = 2, parent_idx = 0 \<rparr> 1 = Some (GO_DOWN OR 0)"
    by (simp add: linear_search_def linear_search_from.simps rd_def int_compare_def)
  define full :: "(int, int) state" where "full =
     \<lparr> heap = (\<lambda>a. None)(0 \<mapsto>
         \<lparr> IsInternal = False, keys = [Some 1, Some 3, Some 5],
           vals = [Some 30, Some 30, Some 50],
           children = [], parent = None, usage = 3, parent_idx = 0 \<rparr>),
       next_addr = Suc 0, root = Some 0 \<rparr>"
  define halves :: "(int, int) state" where "halves =
     \<lparr> heap = (\<lambda>a. None)
         (0 \<mapsto> \<lparr> IsInternal = False, keys = [Some 1, Some 3, Some 5],
                 vals = [Some 30, Some 30, Some 50],
                 children = [], parent = None, usage = 0, parent_idx = 0 \<rparr>,
          1 \<mapsto> \<lparr> IsInternal = False, keys = [Some 1, None, None],
                 vals = [Some 30, None, None],
                 children = [], parent = None, usage = 1, parent_idx = 0 \<rparr>,
          2 \<mapsto> \<lparr> IsInternal = False, keys = [Some 5, None, None],
                 vals = [Some 50, None, None],
                 children = [], parent = None, usage = 1, parent_idx = 0 \<rparr>),
       next_addr = 3, root = Some 0 \<rparr>"
  define fin :: "(int, int) state" where "fin =
     \<lparr> heap = (\<lambda>a. None)
         (1 \<mapsto> \<lparr> IsInternal = False, keys = [Some 1, None, None],
                 vals = [Some 30, None, None],
                 children = [], parent = Some 3, usage = 1, parent_idx = 0 \<rparr>,
          2 \<mapsto> \<lparr> IsInternal = False, keys = [Some 5, None, None],
                 vals = [Some 50, None, None],
                 children = [], parent = Some 3, usage = 1, parent_idx = 1 \<rparr>,
          3 \<mapsto> \<lparr> IsInternal = True, keys = [Some 3, None, None],
                 vals = [Some 30, None, None],
                 children = [Some 1, Some 2, None, None], parent = None, usage = 1,
                 parent_idx = 0 \<rparr>),
       next_addr = 4, root = Some 3 \<rparr>"
  have sp: "split_node 2 full 0 = Some (halves, 1, 2, 3, 30)"
    by (simp add: split_node_def full_def halves_def new_node_def blank_def upd_def u16_def
        copy_range_def rd_def fun_eq_iff numeral_3_eq_3 numeral_2_eq_2)
  have hh: "heap halves 0 \<bind> f = f \<lparr> IsInternal = False, keys = [Some 1, Some 3, Some 5],
                 vals = [Some 30, Some 30, Some 50],
                 children = [], parent = None, usage = 0, parent_idx = 0 \<rparr>"
    "root halves = Some 0" for f :: "(int, int) BTreeNode \<Rightarrow> ((int, int) state \<times> int option) option"
    by (simp_all add: halves_def)
  have dl: "delete halves 0 = Some (halves\<lparr> heap := (heap halves)(0 := None) \<rparr>)"
    using delete_flat[of halves 0] by (simp add: halves_def)
  have rt: "fin\<lparr> root := Some 3 \<rparr> = fin"
    by (simp add: fin_def)
  have sg: "singleton 2 (halves\<lparr> heap := (heap halves)(0 := None) \<rparr>) (Suc 0) 2 3 30
      = Some (fin\<lparr> root := Some 0 \<rparr>, 3)"
    by (simp add: singleton_def halves_def fin_def new_node_def blank_def upd_def wr_def
        fun_eq_iff numeral_3_eq_3 numeral_2_eq_2)
  have "insert_node 2 int_compare two_leaf 0 (Temp 1) (Slot 0 1) = Some (fin, None)"
    using ls flag_down[of 0]
    by (subst insert_node.simps)
       (simp add: two_leaf_def move_backward_def wr_def upd_def u16_def key_ref_def val_ref_def
          value_at_def rd_def full_def[symmetric] sp hh dl sg rt)
  then have "tree_insert 2 int_compare two_leaf (Temp 1) (Slot 0 1) = Some (fin, None)"
    by (simp add: tree_insert_def two_leaf_def)
  moreover have "val_ref two_leaf (Slot 0 1) = Some 50"
    by (simp add: val_ref_def value_at_def rd_def two_leaf_def)
  moreover have "shape_inv 2 fin (T 3 [(3, 30)] [T 1 [(1, 30)] [], T 2 [(5, 50)] []]) (Suc 0)"
    by (simp add: shape_inv_def tree_at_def alloc_ok_def cell_ok_def linked_def fin_def
        less_Suc_eq numeral_2_eq_2 insert_commute)
  from traverse_inv[OF _ this] have "traverse fin = Some [(1, 30), (3, 30), (5, 50)]"
    by (simp add: inter_def)
  ultimately show ?thesis by blast
qed

section \<open>The claims\<close>

text \<open>
  C8 (the default comparator on signed keys). For \<^verbatim>\<open>int\<close> keys the comparator returns
  \<^verbatim>\<open>a - b\<close>; at \<open>a = INT_MIN\<close>, \<open>b = 1\<close> the difference wraps around to \<open>INT_MAX\<close>, so the
  result is positive although \<open>a\<close> orders before \<open>b\<close>. The sign of the result does not
  follow the order of the keys across the full range of the type.
\<close>

theorem default_compare_int_wraps:
  "(- 2147483648 :: 32 word) <s 1 \<and> default_compare_int (- 2147483648) 1 = 2147483647"
  by (simp add: default_compare_int_def word_sless_alt)

text \<open>
  The same defect without any overflow: for \<^verbatim>\<open>long long\<close> keys the difference \<open>2^32 - 0\<close>
  is exact, and its conversion to \<^verbatim>\<open>int\<close> is \<open>0\<close>: two different keys compare equal.
\<close>

lemma default_compare_long_truncates:
  "(4294967296 :: 64 word) \<noteq> 0 \<and> default_compare_long 4294967296 0 = 0"
  by (simp add: default_compare_long_def)

text \<open>
  C9, as stated, fails: the position \<^verbatim>\<open>predecessor\<close> returns when it is exhausted at the
  root (the before-begin sentinel) is \<open>{idx = 0, node = nullptr}\<close>, the very value of
  \<^verbatim>\<open>end()\<close>, and \<^verbatim>\<open>operator==\<close> says so. Here on the tree holding the single key 5.
\<close>

theorem before_begin_equals_end:
  "predecessor one_leaf 0 0 = Some \<lparr> idx = 0, node = None \<rparr>
   \<and> iter_eq \<lparr> idx = 0, node = None \<rparr> end_iter"
  by (simp add: predecessor_def one_leaf_def climb_pred.simps iter_eq_def end_iter_def)

text \<open>
  C9, amended: iterator equality holds exactly when the slot index and the node reference
  both agree, and \<^verbatim>\<open>operator!=\<close> is its negation; a position equals the end sentinel
  exactly when its node is null and its index is 0, so no position on a node equals it;
  and whenever \<^verbatim>\<open>predecessor\<close> returns a position with a null node (the before-begin
  sentinel), that position equals the end sentinel.
\<close>

theorem iterator_equality:
  "(iter_eq x y \<longleftrightarrow> idx x = idx y \<and> node x = node y)
   \<and> (iter_neq x y \<longleftrightarrow> \<not> iter_eq x y)
   \<and> (iter_eq x end_iter \<longleftrightarrow> node x = None \<and> idx x = 0)
   \<and> (node x \<noteq> None \<longrightarrow> \<not> iter_eq x end_iter)
   \<and> (predecessor st a i = Some it \<and> node it = None \<longrightarrow> iter_eq it end_iter)"
  by (auto simp: iter_eq_def iter_neq_def end_iter_def predecessor_def
           split: option.splits if_splits bind_splits dest: max_node_Some)

theorem iterator_equality_witness:
  "iter_eq \<lparr> idx = 0, node = Some 0 \<rparr> \<lparr> idx = 0, node = Some 0 \<rparr>
   \<and> \<not> iter_eq \<lparr> idx = 0, node = Some 0 \<rparr> end_iter
   \<and> predecessor one_leaf 0 0 = Some \<lparr> idx = 0, node = None \<rparr>
   \<and> iter_eq \<lparr> idx = 0, node = None \<rparr> end_iter"
  using iterator_equality [of "\<lparr> idx = 0, node = Some 0 \<rparr>" "\<lparr> idx = 0, node = Some 0 \<rparr>"
                              one_leaf 0 0 "\<lparr> idx = 0, node = None \<rparr>"]
  by (simp add: predecessor_def one_leaf_def climb_pred.simps)

text \<open>
  C1 (order of the traversal) does not hold of the tree that \<^verbatim>\<open>main\<close> instantiates,
  \<^verbatim>\<open>BTree<int, int>\<close> with \<open>B = 6\<close> and the default comparator. After \<^verbatim>\<open>insert(1, 10)\<close>,
  \<^verbatim>\<open>insert(INT_MIN, 20)\<close> and \<^verbatim>\<open>insert(0, 30)\<close> into the empty tree, the loop from
  \<^verbatim>\<open>begin()\<close> to \<^verbatim>\<open>end()\<close> yields the keys 0, 1, \<open>INT_MIN\<close>: the least key comes last.
  With \<^verbatim>\<open>long long\<close> keys, where nothing overflows: after \<^verbatim>\<open>insert(4294967296, 7)\<close> and
  \<^verbatim>\<open>insert(0, 1)\<close> the loop yields the one key 4294967296; the inserted key 0 is not
  visited.
\<close>

theorem traversal_not_ascending:
  "insert_all 6 default_compare_int empty_tree
       (temps [(1, 10), (- 2147483648, 20), (0, 30)]) = Some wrapped_leaf
   \<and> traverse wrapped_leaf = Some [(0, 30), (1, 10), (- 2147483648, 20)]
   \<and> (- 2147483648 :: 32 word) <s 1
   \<and> (\<exists>st. insert_all 6 default_compare_long empty_tree
              (temps [(4294967296, 7 :: int), (0, 1)]) = Some st
          \<and> traverse st = Some [(4294967296, 1)])"
proof -
  obtain st where st: "tree_insert 6 default_compare_long wide_leaf (Temp 0) (Temp 1)
      = Some (st, Some 7)" "traverse st = Some [(4294967296, 1)]"
    using wide_leaf_overwritten by blast
  have "insert_all 6 default_compare_long empty_tree (temps [(4294967296, 7 :: int), (0, 1)])
      = Some st"
    using wide_leaf_reached st(1) by (auto simp: temps_def split: option.splits)
  then have "\<exists>st. insert_all 6 default_compare_long empty_tree
              (temps [(4294967296, 7 :: int), (0, 1)]) = Some st
          \<and> traverse st = Some [(4294967296, 1)]"
    using st(2) by blast
  moreover have "(- 2147483648 :: 32 word) <s 1" by (simp add: word_sless_alt)
  ultimately show ?thesis using wrapped_leaf_reached wrapped_leaf_traverse by simp
qed

text \<open>
  C2 (membership) does not hold with the default comparator on signed keys. In the tree
  after \<^verbatim>\<open>insert(1, 10)\<close>, \<^verbatim>\<open>insert(INT_MIN, 20)\<close>, \<^verbatim>\<open>insert(0, 30)\<close> (\<^verbatim>\<open>int\<close> keys,
  \<open>B = 6\<close>), \<^verbatim>\<open>member(INT_MIN)\<close> on the root is false although the key was inserted. In the
  tree after \<^verbatim>\<open>insert(4294967296, 7)\<close> (\<^verbatim>\<open>long long\<close> keys), \<^verbatim>\<open>member(8589934592)\<close> is true
  although that key was never inserted.
\<close>

theorem member_wrong:
  "insert_all 6 default_compare_int empty_tree
       (temps [(1, 10), (- 2147483648, 20), (0, 30)]) = Some wrapped_leaf
   \<and> root wrapped_leaf = Some 0
   \<and> member_node 6 default_compare_int wrapped_leaf 0 (- 2147483648) = Some False
   \<and> insert_all 6 default_compare_long empty_tree (temps [(4294967296, 7)]) = Some wide_leaf
   \<and> root wide_leaf = Some 0
   \<and> member_node 6 default_compare_long wide_leaf 0 8589934592 = Some True"
  using wrapped_leaf_reached wrapped_leaf_member wide_leaf_reached wide_leaf_member
  by (simp add: wrapped_leaf_def wide_leaf_def)

text \<open>
  C3 (update semantics) does not hold with the default comparator on signed keys. The
  tree after \<^verbatim>\<open>insert(4294967296, 7)\<close> (\<^verbatim>\<open>long long\<close> keys, \<open>B = 6\<close>) holds the one key
  4294967296; \<^verbatim>\<open>insert(0, 1)\<close> returns the previous value 7 although the key 0 is absent,
  the tree still holds one key, and the value of 4294967296 is now 1. The tree after
  \<^verbatim>\<open>insert(1, 10)\<close>, \<^verbatim>\<open>insert(INT_MIN, 20)\<close>, \<^verbatim>\<open>insert(0, 30)\<close> (\<^verbatim>\<open>int\<close> keys) holds
  \<open>INT_MIN\<close>; \<^verbatim>\<open>insert(INT_MIN, 21)\<close> returns none, and the tree then holds the key
  \<open>INT_MIN\<close> twice.
\<close>

theorem insert_result_wrong:
  "insert_all 6 default_compare_long empty_tree (temps [(4294967296, 7)]) = Some wide_leaf
   \<and> traverse wide_leaf = Some [(4294967296, 7)]
   \<and> (\<exists>st. tree_insert 6 default_compare_long wide_leaf (Temp 0) (Temp 1) = Some (st, Some 7)
          \<and> traverse st = Some [(4294967296, 1)])
   \<and> insert_all 6 default_compare_int empty_tree
        (temps [(1, 10), (- 2147483648, 20), (0, 30)]) = Some wrapped_leaf
   \<and> traverse wrapped_leaf = Some [(0, 30), (1, 10), (- 2147483648, 20)]
   \<and> tree_insert 6 default_compare_int wrapped_leaf (Temp (- 2147483648)) (Temp 21)
        = Some (doubled_leaf, None)
   \<and> traverse doubled_leaf
        = Some [(- 2147483648, 21), (0, 30), (1, 10), (- 2147483648, 20)]"
  using wide_leaf_reached wide_leaf_traverse wide_leaf_overwritten wrapped_leaf_reached
    wrapped_leaf_traverse doubled_leaf_step doubled_leaf_traverse
  by simp

text \<open>
  C4 (split at capacity). For every \<open>B\<close> the code accepts: when \<^verbatim>\<open>adopt\<close> has stored the
  new pair and children and the node's usage is \<open>2B - 1\<close>, what remains of \<^verbatim>\<open>adopt\<close> is the
  split of the node and the hand-over of the halves to the parent (or to a new root); the
  same for \<^verbatim>\<open>insert\<close> on a leaf, after the pair was stored. The split of a node with the
  pairs \<open>kvs\<close> (\<open>2B - 1\<close> of them) and the children \<open>cs\<close> (none, or \<open>2B\<close>) returns two new
  nodes and the pair \<open>kvs[B - 1]\<close>: the left node holds the pairs \<open>kvs[0..B-1)\<close> and the
  children \<open>cs[0..B)\<close>, the right node holds \<open>kvs[B..2B-1)\<close> and \<open>cs[B..2B)\<close>, both have
  the parent of the split node, and child \<open>j\<close> of either half has this half as its parent
  and \<open>j\<close> as its index.
\<close>

theorem split_at_capacity:
  assumes cfg: "0 < B" "2 * B < 65536"
  shows
    "(adopt_fill st a l r key value position = Some st1 \<and> heap st1 a = Some n1
        \<and> usage n1 = 2 * B - 1
      \<longrightarrow> adopt B st a l r key value position =
            do { (st2, l', r', mk, mv) \<leftarrow> split_node B st1 a;
                 m \<leftarrow> heap st2 a;
                 propagate B st2 (parent m) (parent_idx m) l' r' mk mv })
   \<and> (heap st a = Some n \<and> \<not> IsInternal n \<and> key_ref st kr = Some k
        \<and> linear_search B cmp n k = Some res \<and> res AND FOUND = 0
        \<and> leaf_shift st a (res AND GO_DOWN_MASK) = Some st1
        \<and> val_ref st1 vr = Some v' \<and> key_ref st1 kr = Some k'
        \<and> leaf_store st1 a k' v' (res AND GO_DOWN_MASK) = Some st2
        \<and> heap st2 a = Some n2 \<and> usage n2 = 2 * B - 1
      \<longrightarrow> insert_node B cmp st a kr vr =
            do { (st3, l', r', mk, mv) \<leftarrow> split_node B st2 a;
                 m \<leftarrow> heap st3 a;
                 st4 \<leftarrow> propagate B st3 (parent m) (parent_idx m) l' r' mk mv;
                 Some (st4, None) })
   \<and> (heap st a = Some n \<and> cell_ok B n kvs cs \<and> length kvs = 2 * B - 1
        \<and> (cs = [] \<or> length cs = 2 * B) \<and> alloc_ok st
        \<and> distinct cs \<and> a \<notin> set cs \<and> (\<forall>c \<in> set cs. heap st c \<noteq> None)
      \<longrightarrow> (\<exists>st' nl nr. split_node B st a =
              Some (st', next_addr st, next_addr st + 1, fst (kvs ! (B - 1)), snd (kvs ! (B - 1)))
            \<and> heap st' (next_addr st) = Some nl \<and> cell_ok B nl (take (B - 1) kvs) (take B cs)
            \<and> heap st' (next_addr st + 1) = Some nr \<and> cell_ok B nr (drop B kvs) (drop B cs)
            \<and> parent nl = parent n \<and> parent nr = parent n
            \<and> (\<forall>j. j < B \<and> cs \<noteq> [] \<longrightarrow>
                 heap st' (cs ! j) = map_option
                     (\<lambda>m. m\<lparr> parent := Some (next_addr st), parent_idx := j \<rparr>) (heap st (cs ! j))
               \<and> heap st' (cs ! (B + j)) = map_option
                     (\<lambda>m. m\<lparr> parent := Some (next_addr st + 1), parent_idx := j \<rparr>)
                     (heap st (cs ! (B + j))))))"
proof (intro conjI impI)
  assume "adopt_fill st a l r key value position = Some st1 \<and> heap st1 a = Some n1
        \<and> usage n1 = 2 * B - 1"
  then show "adopt B st a l r key value position =
            do { (st2, l', r', mk, mv) \<leftarrow> split_node B st1 a;
                 m \<leftarrow> heap st2 a;
                 propagate B st2 (parent m) (parent_idx m) l' r' mk mv }"
    by (simp add: adopt_eq overflow_def)
next
  assume "heap st a = Some n \<and> \<not> IsInternal n \<and> key_ref st kr = Some k
        \<and> linear_search B cmp n k = Some res \<and> res AND FOUND = 0
        \<and> leaf_shift st a (res AND GO_DOWN_MASK) = Some st1
        \<and> val_ref st1 vr = Some v' \<and> key_ref st1 kr = Some k'
        \<and> leaf_store st1 a k' v' (res AND GO_DOWN_MASK) = Some st2
        \<and> heap st2 a = Some n2 \<and> usage n2 = 2 * B - 1"
  then show "insert_node B cmp st a kr vr =
            do { (st3, l', r', mk, mv) \<leftarrow> split_node B st2 a;
                 m \<leftarrow> heap st3 a;
                 st4 \<leftarrow> propagate B st3 (parent m) (parent_idx m) l' r' mk mv;
                 Some (st4, None) }"
    by (subst insert_node_eq) (simp add: overflow_def split_def)
next
  assume h: "heap st a = Some n \<and> cell_ok B n kvs cs \<and> length kvs = 2 * B - 1
        \<and> (cs = [] \<or> length cs = 2 * B) \<and> alloc_ok st
        \<and> distinct cs \<and> a \<notin> set cs \<and> (\<forall>c \<in> set cs. heap st c \<noteq> None)"
  have cfg1: "1 \<le> B" using cfg by simp
  have fresh: "\<forall>x \<ge> next_addr st. heap st x = None" using h by (simp add: alloc_ok_def)
  from split_node_spec[OF cfg1 cfg(2), of st a n kvs cs] h fresh
  obtain st' nl nr where x: "split_node B st a =
        Some (st', next_addr st, next_addr st + 1, fst (kvs ! (B - 1)), snd (kvs ! (B - 1)))"
      "heap st' (next_addr st) = Some nl" "cell_ok B nl (take (B - 1) kvs) (take B cs)"
      "parent nl = parent n"
      "heap st' (next_addr st + 1) = Some nr" "cell_ok B nr (drop B kvs) (drop B cs)"
      "parent nr = parent n"
      "\<forall>j. j < B \<and> cs \<noteq> [] \<longrightarrow>
            heap st' (cs ! j) = map_option (\<lambda>m. m\<lparr> parent := Some (next_addr st), parent_idx := j \<rparr>)
                                  (heap st (cs ! j))
          \<and> heap st' (cs ! (B + j)) = map_option (\<lambda>m. m\<lparr> parent := Some (next_addr st + 1), parent_idx := j \<rparr>)
                                  (heap st (cs ! (B + j)))"
    by blast
  show "\<exists>st' nl nr. split_node B st a =
              Some (st', next_addr st, next_addr st + 1, fst (kvs ! (B - 1)), snd (kvs ! (B - 1)))
            \<and> heap st' (next_addr st) = Some nl \<and> cell_ok B nl (take (B - 1) kvs) (take B cs)
            \<and> heap st' (next_addr st + 1) = Some nr \<and> cell_ok B nr (drop B kvs) (drop B cs)
            \<and> parent nl = parent n \<and> parent nr = parent n
            \<and> (\<forall>j. j < B \<and> cs \<noteq> [] \<longrightarrow>
                 heap st' (cs ! j) = map_option
                     (\<lambda>m. m\<lparr> parent := Some (next_addr st), parent_idx := j \<rparr>) (heap st (cs ! j))
               \<and> heap st' (cs ! (B + j)) = map_option
                     (\<lambda>m. m\<lparr> parent := Some (next_addr st + 1), parent_idx := j \<rparr>)
                     (heap st (cs ! (B + j))))"
    using x by (intro exI[of _ st'] exI[of _ nl] exI[of _ nr]) simp
qed


theorem split_at_capacity_witness:
  "(\<exists>st' nl nr. split_node 2 full_internal 0 = Some (st', 5, 6, 4, 40)
      \<and> heap st' 5 = Some nl \<and> cell_ok 2 nl [(2, 20)] [1, 2]
      \<and> heap st' 6 = Some nr \<and> cell_ok 2 nr [(6, 60)] [3, 4]
      \<and> heap st' 1 = Some ((kid 1 0)\<lparr> parent := Some 5, parent_idx := 0 \<rparr>)
      \<and> heap st' 2 = Some ((kid 3 1)\<lparr> parent := Some 5, parent_idx := 1 \<rparr>)
      \<and> heap st' 3 = Some ((kid 5 2)\<lparr> parent := Some 6, parent_idx := 0 \<rparr>)
      \<and> heap st' 4 = Some ((kid 7 3)\<lparr> parent := Some 6, parent_idx := 1 \<rparr>))
   \<and> (\<exists>st2 n2. heap st2 0 = Some n2 \<and> usage n2 = 2 * 2 - 1
      \<and> insert_node 2 int_compare two_leaf 0 (Temp 8) (Temp 80) =
            do { (st3, l', r', mk, mv) \<leftarrow> split_node 2 st2 0;
                 m \<leftarrow> heap st3 0;
                 st4 \<leftarrow> propagate 2 st3 (parent m) (parent_idx m) l' r' mk mv;
                 Some (st4, None) })"
proof
  define n :: "(int, int) BTreeNode" where
    "n = \<lparr> IsInternal = True, keys = [Some 2, Some 4, Some 6],
           vals = [Some 20, Some 40, Some 60],
           children = [Some 1, Some 2, Some 3, Some 4],
           parent = None, usage = 3, parent_idx = 0 \<rparr>"
  have h: "heap full_internal 0 = Some n
        \<and> cell_ok 2 n [(2, 20), (4, 40), (6, 60)] [1, 2, 3, 4]
        \<and> length [(2 :: int, 20 :: int), (4, 40), (6, 60)] = 2 * 2 - 1
        \<and> ([1, 2, 3, 4 :: nat] = [] \<or> length [1, 2, 3, 4 :: nat] = 2 * 2)
        \<and> alloc_ok full_internal
        \<and> distinct [1, 2, 3, 4 :: nat] \<and> 0 \<notin> set [1, 2, 3, 4 :: nat]
        \<and> (\<forall>c \<in> set [1, 2, 3, 4 :: nat]. heap full_internal c \<noteq> None)"
    by (simp add: full_internal_def n_def cell_ok_def alloc_ok_def)
  from split_at_capacity[where B = 2 and st = full_internal and a = 0 and n = n
      and kvs = "[(2, 20), (4, 40), (6, 60)]" and cs = "[1, 2, 3, 4]",
      THEN conjunct2, THEN conjunct2, THEN mp, OF _ _ h]
  obtain st' nl nr where x:
      "split_node 2 full_internal 0 = Some (st', 5, 6, 4, 40)"
      "heap st' 5 = Some nl" "cell_ok 2 nl [(2, 20)] [1, 2]"
      "heap st' 6 = Some nr" "cell_ok 2 nr [(6, 60)] [3, 4]"
      "\<forall>j. j < 2 \<longrightarrow>
         heap st' ([1, 2, 3, 4] ! j) = map_option
             (\<lambda>m. m\<lparr> parent := Some 5, parent_idx := j \<rparr>) (heap full_internal ([1, 2, 3, 4] ! j))
       \<and> heap st' ([1, 2, 3, 4] ! (2 + j)) = map_option
             (\<lambda>m. m\<lparr> parent := Some 6, parent_idx := j \<rparr>)
             (heap full_internal ([1, 2, 3, 4] ! (2 + j)))"
    by (auto simp: full_internal_def)
  have "heap st' 1 = Some ((kid 1 0)\<lparr> parent := Some 5, parent_idx := 0 \<rparr>)"
    "heap st' 3 = Some ((kid 5 2)\<lparr> parent := Some 6, parent_idx := 0 \<rparr>)"
    using x(6)[rule_format, of 0] by (simp_all add: full_internal_def)
  moreover have "heap st' 2 = Some ((kid 3 1)\<lparr> parent := Some 5, parent_idx := 1 \<rparr>)"
    "heap st' 4 = Some ((kid 7 3)\<lparr> parent := Some 6, parent_idx := 1 \<rparr>)"
    using x(6)[rule_format, of 1] by (simp_all add: full_internal_def)
  ultimately show "\<exists>st' nl nr. split_node 2 full_internal 0 = Some (st', 5, 6, 4, 40)
      \<and> heap st' 5 = Some nl \<and> cell_ok 2 nl [(2, 20)] [1, 2]
      \<and> heap st' 6 = Some nr \<and> cell_ok 2 nr [(6, 60)] [3, 4]
      \<and> heap st' 1 = Some ((kid 1 0)\<lparr> parent := Some 5, parent_idx := 0 \<rparr>)
      \<and> heap st' 2 = Some ((kid 3 1)\<lparr> parent := Some 5, parent_idx := 1 \<rparr>)
      \<and> heap st' 3 = Some ((kid 5 2)\<lparr> parent := Some 6, parent_idx := 0 \<rparr>)
      \<and> heap st' 4 = Some ((kid 7 3)\<lparr> parent := Some 6, parent_idx := 1 \<rparr>)"
    using x(1-5) by (intro exI[of _ st'] exI[of _ nl] exI[of _ nr]) simp
next
  define n :: "(int, int) BTreeNode" where
    "n = \<lparr> IsInternal = False, keys = [Some 3, Some 5, None], vals = [Some 30, Some 50, None],
           children = [], parent = None, usage = 2, parent_idx = 0 \<rparr>"
  define n2 :: "(int, int) BTreeNode" where
    "n2 = \<lparr> IsInternal = False, keys = [Some 3, Some 5, Some 8],
            vals = [Some 30, Some 50, Some 80],
            children = [], parent = None, usage = 3, parent_idx = 0 \<rparr>"
  define st2 :: "(int, int) state" where
    "st2 = \<lparr> heap = (\<lambda>a. None)(0 \<mapsto> n2), next_addr = 1, root = Some 0 \<rparr>"
  have ls: "linear_search 2 int_compare n 8 = Some (GO_DOWN OR 2)"
    by (simp add: n_def linear_search_def linear_search_from.simps rd_def int_compare_def)
  have fl: "(GO_DOWN OR 2) AND FOUND = 0" "(GO_DOWN OR 2) AND GO_DOWN_MASK = 2"
    using flag_down[of 2] by simp_all
  have sh: "leaf_shift two_leaf 0 2 = Some two_leaf"
    by (simp add: leaf_shift_def two_leaf_def move_backward_def upd_def numeral_2_eq_2)
  have so: "leaf_store two_leaf 0 8 80 2 = Some st2"
    by (simp add: leaf_store_def two_leaf_def wr_def upd_def u16_def st2_def n2_def)
  have h: "heap two_leaf 0 = Some n \<and> \<not> IsInternal n \<and> key_ref two_leaf (Temp 8) = Some 8
        \<and> linear_search 2 int_compare n 8 = Some (GO_DOWN OR 2) \<and> (GO_DOWN OR 2) AND FOUND = 0
        \<and> leaf_shift two_leaf 0 ((GO_DOWN OR 2) AND GO_DOWN_MASK) = Some two_leaf
        \<and> val_ref two_leaf (Temp 80) = Some 80 \<and> key_ref two_leaf (Temp 8) = Some 8
        \<and> leaf_store two_leaf 0 8 80 ((GO_DOWN OR 2) AND GO_DOWN_MASK) = Some st2
        \<and> heap st2 0 = Some n2 \<and> usage n2 = 2 * 2 - 1"
    using ls fl sh so by (simp add: two_leaf_def n_def st2_def n2_def)
  from split_at_capacity[where B = 2 and st = two_leaf and a = 0 and n = n
      and kr = "Temp 8" and vr = "Temp 80" and cmp = int_compare and ?st1.0 = two_leaf
      and ?st2.0 = st2 and ?n2.0 = n2,
      THEN conjunct2, THEN conjunct1, THEN mp, OF _ _ h]
  have "insert_node 2 int_compare two_leaf 0 (Temp 8) (Temp 80) =
            do { (st3, l', r', mk, mv) \<leftarrow> split_node 2 st2 0;
                 m \<leftarrow> heap st3 0;
                 st4 \<leftarrow> propagate 2 st3 (parent m) (parent_idx m) l' r' mk mv;
                 Some (st4, None) }"
    by simp
  moreover have "heap st2 0 = Some n2 \<and> usage n2 = 2 * 2 - 1" by (simp add: st2_def n2_def)
  ultimately show "\<exists>st2 n2. heap st2 0 = Some n2 \<and> usage n2 = 2 * 2 - 1
      \<and> insert_node 2 int_compare two_leaf 0 (Temp 8) (Temp 80) =
            do { (st3, l', r', mk, mv) \<leftarrow> split_node 2 st2 0;
                 m \<leftarrow> heap st3 0;
                 st4 \<leftarrow> propagate 2 st3 (parent m) (parent_idx m) l' r' mk mv;
                 Some (st4, None) }"
    by (intro exI[of _ st2] exI[of _ n2]) simp
qed





text \<open>
  C7 (successor, then predecessor). In the state after any calls of \<^verbatim>\<open>insert\<close> that
  returned, for every \<open>B\<close> the code accepts and every comparator, let \<open>it\<close> be a position
  of the traversal (reached from \<^verbatim>\<open>begin()\<close> by \<open>n\<close> increments) that is not the last one
  (its successor \<open>it'\<close> is not \<^verbatim>\<open>end()\<close>). Then the predecessor of \<open>it'\<close> is \<open>it\<close>. This holds
  for the first position as well.
\<close>

theorem predecessor_of_successor:
  assumes "0 < B" and "2 * B < 65536"
    and "insert_all B cmp empty_tree calls = Some st"
    and "begin_iter st \<bind> steps st n = Some it"
    and "iter_incr st it = Some it'" and "iter_neq it' end_iter"
  shows "\<exists>p. iter_incr st it \<bind> pred_at st = Some p \<and> iter_eq p it"
proof -
  have ne: "it' \<noteq> end_iter" using assms(6) by (auto simp: iter_neq_def)
  have few: False
    if "begin_iter st = Some end_iter
        \<or> (\<exists>p. begin_iter st = Some p \<and> iter_incr st p = Some end_iter)"
    using no_inner_position[OF that assms(4,5)] ne by simp
  have "pred_at st it' = Some it"
  proof (cases "B = 1")
    case True
    have "(root st = None \<and> (\<forall>x. heap st x = None)) \<or> lone st"
      using lone_all[of empty_tree cmp calls st] assms(3) True by (simp add: empty_tree_def)
    then show ?thesis
    proof
      assume "root st = None \<and> (\<forall>x. heap st x = None)"
      then have "begin_iter st = Some end_iter" by (simp add: begin_iter_def)
      then show ?thesis using few by simp
    next
      assume "lone st"
      from lone_iter[OF this] show ?thesis using few by blast
    qed
  next
    case False
    then have cfg: "2 \<le> B" using assms(1) by simp
    have "shape_state B st"
      using insert_all_shape[OF cfg assms(2) shape_state_empty assms(3)] .
    then show ?thesis unfolding shape_state_def
    proof (elim disjE exE conjE)
      assume "root st = None"
      then have "begin_iter st = Some end_iter" by (simp add: begin_iter_def)
      then show ?thesis using few by simp
    next
      fix t h assume "shape_inv B st t h"
      from pred_succ_inv[OF assms(2) this assms(4,5) ne] show ?thesis by simp
    qed
  qed
  then show ?thesis using assms(5) by (simp add: iter_eq_def)
qed

theorem predecessor_of_successor_witness:
  "insert_all 2 int_compare empty_tree (temps [(5, 50), (3, 30), (8, 80)]) = Some three_tree
   \<and> begin_iter three_tree \<bind> steps three_tree 1 = Some \<lparr> idx = 0, node = Some 3 \<rparr>
   \<and> iter_incr three_tree \<lparr> idx = 0, node = Some 3 \<rparr> = Some \<lparr> idx = 0, node = Some 2 \<rparr>
   \<and> iter_neq \<lparr> idx = 0, node = Some 2 \<rparr> end_iter
   \<and> (\<exists>p. iter_incr three_tree \<lparr> idx = 0, node = Some 3 \<rparr> \<bind> pred_at three_tree = Some p
          \<and> iter_eq p \<lparr> idx = 0, node = Some 3 \<rparr>)"
proof -
  have m1: "min_node three_tree 1 = Some \<lparr> idx = 0, node = Some 1 \<rparr>"
    by (subst min_node.simps) (simp add: three_tree_def)
  have m2: "min_node three_tree 2 = Some \<lparr> idx = 0, node = Some 2 \<rparr>"
    by (subst min_node.simps) (simp add: three_tree_def)
  have m3: "min_node three_tree 3 = Some \<lparr> idx = 0, node = Some 1 \<rparr>"
    using m1 by (subst min_node.simps) (simp add: three_tree_def rd_def)
  have rt: "root three_tree = Some 3" by (simp add: three_tree_def)
  have b: "begin_iter three_tree = Some \<lparr> idx = 0, node = Some 1 \<rparr>"
    using m3 rt by (simp add: begin_iter_def)
  have c: "climb_succ three_tree 1 = Some 1"
    by (subst climb_succ.simps) (simp add: three_tree_def)
  have s1: "iter_incr three_tree \<lparr> idx = 0, node = Some 1 \<rparr> = Some \<lparr> idx = 0, node = Some 3 \<rparr>"
    using c by (simp add: iter_incr_def successor_def) (simp add: three_tree_def)
  have s2: "iter_incr three_tree \<lparr> idx = 0, node = Some 3 \<rparr> = Some \<lparr> idx = 0, node = Some 2 \<rparr>"
    using m2 by (simp add: iter_incr_def successor_def) (simp add: three_tree_def rd_def)
  have h1: "begin_iter three_tree \<bind> steps three_tree 1 = Some \<lparr> idx = 0, node = Some 3 \<rparr>"
    using b s1 by simp
  have h3: "iter_neq \<lparr> idx = 0, node = Some 2 \<rparr> end_iter"
    by (simp add: iter_neq_def end_iter_def)
  from predecessor_of_successor[OF _ _ three_tree_reached h1 s2 h3]
  show ?thesis using three_tree_reached h1 s2 h3 by simp
qed

text \<open>
  C10 (no node stays at capacity) does not hold for \<open>B = 1\<close>, which the code accepts:
  \<^verbatim>\<open>BTree::insert\<close> creates the first root with usage 1 and does not check it, so after
  the completed \<^verbatim>\<open>insert(5, 50)\<close> the root holds \<open>1 = 2B - 1\<close> pairs, more than \<open>2B - 2 = 0\<close>.
  (For \<open>2 \<le> B\<close> and every comparator the claim holds, see \<open>usage_any_comparator\<close>.)
\<close>

theorem root_at_capacity:
  "insert_all 1 int_compare empty_tree (temps [(5, 50)]) = Some lone_leaf
   \<and> (\<exists>n. root lone_leaf = Some 0 \<and> heap lone_leaf 0 = Some n
          \<and> usage n = 2 * 1 - 1 \<and> \<not> usage n \<le> 2 * 1 - 2)"
  using lone_leaf_reached by (simp add: lone_leaf_def)

end
